(* ===== verification/Sentinel_Prelude.thy ===== *)
theory Sentinel_Prelude
  imports Complex_Main "HOL-Library.AList"
begin

text \<open>
  Shared vocabulary of the development: the Python values the gateway handles (floats, strings,
  dictionaries, bounded deques, exceptions as values), the generic lemmas about them, the
  collections of simplification rules the component theories fill, and the interfaces:

  \<^item> \<open>py_store\<close> and its extension \<open>py_dict\<close>: what a client relies on in anything
    that is read and assigned by key, and in a Python \<^verbatim>\<open>dict\<close>;
  \<^item> \<open>lazy_registry\<close>: the look-up-or-create contract shared by the concurrency gates
    (\<^verbatim>\<open>ConcurrencyManager._get_or_create\<close>) and the circuit breakers
    (\<^verbatim>\<open>GatewayPipeline._breaker_for\<close>);
  \<^item> \<open>invariant_system\<close>: an invariant that holds initially and is kept by every step holds
    in every reachable state and along every trace.

  Python floats and Lua numbers are exact rationals: the development proves what the code computes
  up to the rounding of binary floating point. The one rounding that the source itself asks for,
  the 14 significant digits of Lua's \<^verbatim>\<open>tostring\<close>, is modelled in \<open>Lua_Number\<close>.
  Strings are lists of 8-bit characters and case conversion is the ASCII one, which is what HTTP
  methods and header names consist of.
\<close>

section \<open>Collections of rules\<close>

named_theorems breaker_defs \<open>definitions of the circuit breaker's operations\<close>
named_theorems gate_defs \<open>definitions of the semaphore and gate operations\<close>
named_theorems router_defs \<open>definitions of the router's operations\<close>
named_theorems limiter_defs \<open>definitions of the rate limiter's operations\<close>
named_theorems health_defs \<open>definitions of the health checker's operations\<close>
named_theorems pipeline_defs \<open>definitions of the pipeline's stages\<close>

section \<open>Numbers, exceptions, results\<close>

type_synonym py_float = rat

type_synonym seconds = rat

type_synonym bytes = string

datatype httpx_error =
    ConnectError
  | ConnectTimeout
  | OtherTimeout
  | OtherHTTPError string

datatype exn =
    CircuitOpenError string
  | NoHealthyBackendError string
  | RouteNotFoundError string
  | BackpressureRejected string py_float
  | ZeroDivisionError
  | ValueError string
  | KeyError string
  | HttpxError httpx_error
  | OtherException string

type_synonym ('s, 'a) outcome = "'s \<times> (exn + 'a)"

definition is_timeout_exception :: "httpx_error \<Rightarrow> bool" where
  "is_timeout_exception e \<longleftrightarrow> e = ConnectTimeout \<or> e = OtherTimeout"

definition raised :: "('s, 'a) outcome \<Rightarrow> bool" where
  "raised r \<longleftrightarrow> (\<exists>e. snd r = Inl e)"

section \<open>Strings\<close>

definition upper_char :: "char \<Rightarrow> char" where
  "upper_char c =
     (if 97 \<le> (of_char c :: nat) \<and> (of_char c :: nat) \<le> 122
      then char_of (of_char c - 32 :: nat) else c)"

definition lower_char :: "char \<Rightarrow> char" where
  "lower_char c =
     (if 65 \<le> (of_char c :: nat) \<and> (of_char c :: nat) \<le> 90
      then char_of (of_char c + 32 :: nat) else c)"

definition py_upper :: "string \<Rightarrow> string" where
  "py_upper = map upper_char"

definition py_lower :: "string \<Rightarrow> string" where
  "py_lower = map lower_char"

definition py_rstrip :: "char \<Rightarrow> string \<Rightarrow> string" where
  "py_rstrip c s = rev (dropWhile (\<lambda>x. x = c) (rev s))"

definition digit_char :: "nat \<Rightarrow> char" where
  "digit_char d = char_of (48 + d)"

fun str_of_nat :: "nat \<Rightarrow> string" where
  "str_of_nat n =
     (if n < 10 then [digit_char n] else str_of_nat (n div 10) @ [digit_char (n mod 10)])"

declare str_of_nat.simps [simp del]

definition py_str_int :: "int \<Rightarrow> string" where
  "py_str_int i = (if i < 0 then CHR ''-'' # str_of_nat (nat (- i)) else str_of_nat (nat i))"

text \<open>For evaluation the digits are read off integers.\<close>

function int_text :: "int \<Rightarrow> string" where
  "int_text n = (if n < 10 then [digit_char (nat n)] else int_text (n div 10) @ [digit_char (nat (n mod 10))])"
  by pat_completeness auto
termination by (relation "measure nat") auto

declare int_text.simps [simp del]

lemma int_text_str_of_nat: "0 \<le> n \<Longrightarrow> int_text n = str_of_nat (nat n)"
proof (induction n rule: int_text.induct)
  case (1 n)
  show ?case
  proof (cases "n < 10")
    case True
    then have "nat n < 10" by simp
    with True show ?thesis by (simp add: int_text.simps [of n] str_of_nat.simps [of "nat n"])
  next
    case False
    then have "\<not> nat n < 10" by simp
    with False 1 show ?thesis
      by (simp add: int_text.simps [of n] str_of_nat.simps [of "nat n"] nat_div_distrib nat_mod_distrib)
  qed
qed

lemma py_str_int_code [code]:
  "py_str_int i = (if i < 0 then CHR ''-'' # int_text (- i) else int_text i)"
  by (simp add: py_str_int_def int_text_str_of_nat)

section \<open>Dictionaries\<close>

text \<open>
  A \<^verbatim>\<open>dict\<close> keeps its keys in insertion order; assigning to a present key keeps its place.
\<close>

type_synonym ('k, 'v) dict = "('k \<times> 'v) list"

definition dict_get :: "('k, 'v) dict \<Rightarrow> 'k \<Rightarrow> 'v option" where
  "dict_get d k = map_of d k"

primrec dict_set :: "('k, 'v) dict \<Rightarrow> 'k \<Rightarrow> 'v \<Rightarrow> ('k, 'v) dict" where
  "dict_set [] k v = [(k, v)]"
| "dict_set (p # d) k v = (if fst p = k then (k, v) # d else p # dict_set d k v)"

definition dict_values :: "('k, 'v) dict \<Rightarrow> 'v list" where
  "dict_values d = map snd d"

primrec dict_update :: "('k, 'v) dict \<Rightarrow> ('k, 'v) dict \<Rightarrow> ('k, 'v) dict" where
  "dict_update d [] = d"
| "dict_update d (p # e) = dict_update (dict_set d (fst p) (snd p)) e"

section \<open>Bounded deques\<close>

definition last_n :: "nat \<Rightarrow> 'a list \<Rightarrow> 'a list" where
  "last_n n xs = drop (length xs - n) xs"

definition deque_append :: "nat \<Rightarrow> 'a list \<Rightarrow> 'a \<Rightarrow> 'a list" where
  "deque_append maxlen xs x = last_n maxlen (xs @ [x])"

section \<open>Event systems\<close>

inductive reach :: "('s \<Rightarrow> bool) \<Rightarrow> ('s \<Rightarrow> 'e \<Rightarrow> 's \<Rightarrow> bool) \<Rightarrow> 's \<Rightarrow> bool"
  for start :: "'s \<Rightarrow> bool" and step :: "'s \<Rightarrow> 'e \<Rightarrow> 's \<Rightarrow> bool" where
  reach_start: "start s \<Longrightarrow> reach start step s"
| reach_step: "reach start step s \<Longrightarrow> step s e t \<Longrightarrow> reach start step t"

fun steps :: "('s \<Rightarrow> 'e \<Rightarrow> 's \<Rightarrow> bool) \<Rightarrow> 's \<Rightarrow> 'e list \<Rightarrow> 's \<Rightarrow> bool" where
  "steps step s [] t \<longleftrightarrow> s = t"
| "steps step s (e # es) t \<longleftrightarrow> (\<exists>u. step s e u \<and> steps step u es t)"

lemma reach_steps: "reach start step s \<Longrightarrow> steps step s es t \<Longrightarrow> reach start step t"
  by (induction es arbitrary: s) (auto intro: reach_step)

section \<open>Lemmas on strings\<close>

lemma lower_char_idem [simp]: "lower_char (lower_char c) = lower_char c"
  by (simp add: lower_char_def)

lemma upper_char_idem [simp]: "upper_char (upper_char c) = upper_char c"
  by (auto simp: upper_char_def)

lemma py_lower_idem [simp]: "py_lower (py_lower s) = py_lower s"
  by (simp add: py_lower_def)

lemma py_upper_idem [simp]: "py_upper (py_upper s) = py_upper s"
  by (simp add: py_upper_def)

lemma py_rstrip_append_star [simp]: "py_rstrip c (s @ [c]) = py_rstrip c s"
  by (simp add: py_rstrip_def)

lemma py_rstrip_ident: "s = [] \<or> last s \<noteq> c \<Longrightarrow> py_rstrip c s = s"
  by (cases s rule: rev_cases) (simp_all add: py_rstrip_def)

section \<open>Lemmas on dictionaries\<close>

lemma dict_get_set [simp]:
  "dict_get (dict_set d k v) k' = (if k' = k then Some v else dict_get d k')"
  by (induction d) (auto simp: dict_get_def)

lemma dict_get_Nil [simp]: "dict_get [] k = None"
  by (simp add: dict_get_def)

lemma keys_dict_set: "fst ` set (dict_set d k v) = insert k (fst ` set d)"
  by (induction d) auto

lemma distinct_dict_set:
  "distinct (map fst d) \<Longrightarrow> distinct (map fst (dict_set d k v))"
proof (induction d)
  case Nil
  then show ?case by simp
next
  case (Cons p d)
  have "fst p \<notin> fst ` set (dict_set d k v)" if "fst p \<noteq> k"
    using Cons.prems that by (simp add: keys_dict_set)
  with Cons show ?case by auto
qed

lemma set_dict_set_subset: "set (dict_set d k v) \<subseteq> insert (k, v) (set d)"
  by (induction d) auto

lemma dict_get_in_set: "dict_get d k = Some v \<Longrightarrow> (k, v) \<in> set d"
  by (simp add: dict_get_def map_of_SomeD)

lemma dict_get_NoneD: "dict_get d k = None \<Longrightarrow> k \<notin> fst ` set d"
  by (simp add: dict_get_def map_of_eq_None_iff)

section \<open>Lemmas on bounded deques\<close>

lemma length_last_n [simp]: "length (last_n n xs) = min n (length xs)"
  by (simp add: last_n_def)

lemma last_n_0 [simp]: "last_n 0 xs = []"
  by (simp add: last_n_def)

lemma last_n_all: "length xs \<le> n \<Longrightarrow> last_n n xs = xs"
  by (simp add: last_n_def)

lemma last_n_snoc:
  "last_n n (last_n n xs @ ys) = last_n n (xs @ ys)"
  by (cases "length xs \<le> n") (simp_all add: last_n_def add.commute)

lemma deque_append_last_n [simp]: "deque_append n (last_n n xs) x = last_n n (xs @ [x])"
  by (simp add: deque_append_def last_n_snoc)

lemma Suc_mod_less: "p < (n::nat) \<Longrightarrow> Suc p mod n < n"
  by (rule mod_less_divisor) arith

lemma length_deque_append [simp]:
  "length (deque_append n xs x) = min n (Suc (length xs))"
  by (simp add: deque_append_def)

section \<open>Interfaces\<close>

locale py_store =
  fixes get :: "'m \<Rightarrow> 'k \<Rightarrow> 'v option"
    and put :: "'m \<Rightarrow> 'k \<Rightarrow> 'v \<Rightarrow> 'm"
  assumes get_put: "get (put m k v) k' = (if k' = k then Some v else get m k')"
begin

lemma get_put_same: "get (put m k v) k = Some v"
  by (simp add: get_put)

lemma get_put_other: "k' \<noteq> k \<Longrightarrow> get (put m k v) k' = get m k'"
  by (simp add: get_put)

lemma get_put_twice: "get (put (put m k v) k w) = get (put m k w)"
  by (rule ext) (simp add: get_put)

lemma all_values_put:
  assumes "\<And>k v. get m k = Some v \<Longrightarrow> P k v" and "P k w"
  shows "get (put m k w) k' = Some v \<Longrightarrow> P k' v"
  using assms by (auto simp: get_put split: if_splits)

lemma keys_put: "{k'. get (put m k v) k' \<noteq> None} = insert k {k'. get m k' \<noteq> None}"
  by (auto simp: get_put)

end

locale py_dict = py_store get put
  for get :: "'m \<Rightarrow> 'k \<Rightarrow> 'v option" and put :: "'m \<Rightarrow> 'k \<Rightarrow> 'v \<Rightarrow> 'm" +
  fixes empty :: "'m"
  assumes get_empty: "get empty k = None"
begin

lemma no_keys_empty: "{k. get empty k \<noteq> None} = {}"
  by (simp add: get_empty)

end

interpretation dict: py_dict dict_get dict_set "[]"
  by unfold_locales simp_all

locale lazy_registry =
  fixes find :: "'r \<Rightarrow> 'k \<Rightarrow> 'v option"
    and ensure :: "'r \<Rightarrow> 'k \<Rightarrow> 'v \<times> 'r"
    and fresh :: "'k \<Rightarrow> 'v"
  assumes ensure_hit: "find r k = Some v \<Longrightarrow> ensure r k = (v, r)"
    and ensure_miss: "find r k = None \<Longrightarrow> fst (ensure r k) = fresh k"
    and find_ensure_same: "find (snd (ensure r k)) k = Some (fst (ensure r k))"
    and find_ensure_other: "k' \<noteq> k \<Longrightarrow> find (snd (ensure r k)) k' = find r k'"
begin

lemma ensure_value: "fst (ensure r k) = (case find r k of None \<Rightarrow> fresh k | Some v \<Rightarrow> v)"
  by (cases "find r k") (simp_all add: ensure_hit ensure_miss)

lemma ensure_idem: "ensure (snd (ensure r k)) k = ensure r k"
  using ensure_hit [OF find_ensure_same] by simp

lemma ensure_keeps: "find r k' = Some v \<Longrightarrow> find (snd (ensure r k)) k' = Some v"
  by (cases "k' = k") (auto simp: find_ensure_other find_ensure_same dest: ensure_hit)

lemma ensure_all:
  assumes "\<And>k v. find r k = Some v \<Longrightarrow> P k v" and "P k (fresh k)"
  shows "find (snd (ensure r k)) k' = Some v \<Longrightarrow> P k' v"
  using assms
  by (cases "k' = k")
    (auto simp: find_ensure_other find_ensure_same ensure_value split: option.splits)

end

locale invariant_system =
  fixes start :: "'s \<Rightarrow> bool"
    and step :: "'s \<Rightarrow> 'e \<Rightarrow> 's \<Rightarrow> bool"
    and inv :: "'s \<Rightarrow> bool"
  assumes inv_start: "start s \<Longrightarrow> inv s"
    and inv_step: "inv s \<Longrightarrow> step s e t \<Longrightarrow> inv t"
begin

lemma reach_inv: "reach start step s \<Longrightarrow> inv s"
  by (induction rule: reach.induct) (auto intro: inv_start inv_step)

lemma steps_inv: "inv s \<Longrightarrow> steps step s es t \<Longrightarrow> inv t"
  by (induction es arbitrary: s) (auto intro: inv_step)

lemma start_steps_inv: "start s \<Longrightarrow> steps step s es t \<Longrightarrow> inv t"
  by (blast intro: inv_start steps_inv)

end

end
