(* ===== verification/Circuit_Breaker.thy ===== *)
theory Circuit_Breaker
  imports Sentinel_Prelude
begin

text \<open>
  The per-backend circuit breaker of \<^verbatim>\<open>src/apps/gateway/circuitbreaker/breaker.py\<close>.

  A \<open>breaker\<close> holds the fields of \<^verbatim>\<open>CircuitBreaker\<close>. Every operation takes the values
  the injected clock returns during the call, in the order the code reads them, and returns the
  new breaker together with the raised exception or the result. \<open>cb_event\<close> lists the calls a
  client can make; \<open>cb_step\<close> is the step relation of a breaker under arbitrary calls at
  arbitrary times, which is what the requests that share one breaker do between their awaits.

  The lemmas show the representation invariant, the shape of the state machine, that the window is
  exactly the last \<^verbatim>\<open>rolling_window_size\<close> outcomes since the breaker last closed, when it
  trips, that an open circuit fails fast and recovers, how many probes a half-open circuit admits
  and how it resolves, and the condition under which a half-open breaker can admit no request.
\<close>

section \<open>Data\<close>

datatype CircuitState = CLOSED | OPEN | HALF_OPEN

record CircuitBreakerConfig =
  failure_threshold :: py_float
  minimum_requests :: int
  open_duration_seconds :: seconds
  half_open_max_requests :: int
  rolling_window_size :: int

definition default_breaker_config :: CircuitBreakerConfig where
  "default_breaker_config =
     \<lparr>failure_threshold = 1 / 2, minimum_requests = 20, open_duration_seconds = 10,
      half_open_max_requests = 3, rolling_window_size = 100\<rparr>"

record Outcome =
  success :: bool
  at_time :: seconds

record breaker =
  cb_name :: string
  cb_config :: CircuitBreakerConfig
  cb_state :: CircuitState
  cb_outcomes :: "Outcome list"
  cb_opened_at :: "seconds option"
  half_open_in_flight :: int
  half_open_successes :: int
  half_open_failures :: int

section \<open>Operations\<close>

definition new_breaker :: "string \<Rightarrow> CircuitBreakerConfig \<Rightarrow> breaker" where
  "new_breaker name config =
     \<lparr>cb_name = name, cb_config = config, cb_state = CLOSED, cb_outcomes = [],
      cb_opened_at = None, half_open_in_flight = 0, half_open_successes = 0,
      half_open_failures = 0\<rparr>"

text \<open>
  \<^verbatim>\<open>deque(maxlen=n)\<close> raises \<^verbatim>\<open>ValueError\<close> for a negative \<^verbatim>\<open>n\<close>, so the
  constructor does.
\<close>

definition init_breaker :: "string \<Rightarrow> CircuitBreakerConfig option \<Rightarrow> exn + breaker" where
  "init_breaker name config =
     (let c = (case config of None \<Rightarrow> default_breaker_config | Some c \<Rightarrow> c)
      in if rolling_window_size c < 0 then Inl (ValueError ''maxlen must be non-negative'')
         else Inr (new_breaker name c))"

definition transition_to_open :: "seconds \<Rightarrow> breaker \<Rightarrow> breaker" where
  "transition_to_open clock b =
     b\<lparr>cb_state := OPEN, cb_opened_at := Some clock, half_open_in_flight := 0,
       half_open_successes := 0, half_open_failures := 0\<rparr>"

definition transition_to_half_open :: "breaker \<Rightarrow> breaker" where
  "transition_to_half_open b =
     b\<lparr>cb_state := HALF_OPEN, half_open_in_flight := 0, half_open_successes := 0,
       half_open_failures := 0\<rparr>"

definition transition_to_closed :: "breaker \<Rightarrow> breaker" where
  "transition_to_closed b =
     b\<lparr>cb_state := CLOSED, cb_opened_at := None, cb_outcomes := [], half_open_in_flight := 0,
       half_open_successes := 0, half_open_failures := 0\<rparr>"

text \<open>The \<^verbatim>\<open>state\<close> property: the lazy transition is the breaker it leaves behind.\<close>

definition read_state :: "seconds \<Rightarrow> breaker \<Rightarrow> breaker" where
  "read_state clock b =
     (case (cb_state b, cb_opened_at b) of
        (OPEN, Some opened) \<Rightarrow>
          (if clock - opened \<ge> open_duration_seconds (cb_config b)
           then transition_to_half_open b else b)
      | _ \<Rightarrow> b)"

definition before_request :: "seconds \<Rightarrow> breaker \<Rightarrow> (breaker, unit) outcome" where
  "before_request clock b =
     (let b1 = read_state clock b in
      case cb_state b1 of
        OPEN \<Rightarrow> (b1, Inl (CircuitOpenError (cb_name b1)))
      | HALF_OPEN \<Rightarrow>
          (if half_open_in_flight b1 \<ge> half_open_max_requests (cb_config b1)
           then (b1, Inl (CircuitOpenError (cb_name b1)))
           else (b1\<lparr>half_open_in_flight := half_open_in_flight b1 + 1\<rparr>, Inr ()))
      | CLOSED \<Rightarrow> (b1, Inr ()))"

definition append_outcome :: "bool \<Rightarrow> seconds \<Rightarrow> breaker \<Rightarrow> breaker" where
  "append_outcome ok now b =
     b\<lparr>cb_outcomes := deque_append (nat (rolling_window_size (cb_config b))) (cb_outcomes b)
         \<lparr>success = ok, at_time = now\<rparr>\<rparr>"

definition record_success :: "seconds \<Rightarrow> breaker \<Rightarrow> breaker" where
  "record_success now b =
     (let b1 = append_outcome True now b in
      if cb_state b1 = HALF_OPEN then
        let b2 = b1\<lparr>half_open_in_flight := max 0 (half_open_in_flight b1 - 1),
                     half_open_successes := half_open_successes b1 + 1\<rparr>
        in if half_open_successes b2 \<ge> half_open_max_requests (cb_config b2)
           then transition_to_closed b2 else b2
      else b1)"

definition failures_in :: "Outcome list \<Rightarrow> int" where
  "failures_in os = int (length (filter (\<lambda>x. \<not> success x) os))"

definition maybe_open :: "seconds \<Rightarrow> breaker \<Rightarrow> (breaker, unit) outcome" where
  "maybe_open clock b =
     (let n = int (length (cb_outcomes b)) in
      if n < minimum_requests (cb_config b) then (b, Inr ())
      else if n = 0 then (b, Inl ZeroDivisionError)
      else if of_int (failures_in (cb_outcomes b)) / of_int n \<ge> failure_threshold (cb_config b)
        then (transition_to_open clock b, Inr ())
      else (b, Inr ()))"

text \<open>The first clock value stamps the outcome, the second one \<^verbatim>\<open>_opened_at\<close>.\<close>

definition record_failure :: "seconds \<Rightarrow> seconds \<Rightarrow> breaker \<Rightarrow> (breaker, unit) outcome" where
  "record_failure now clock b =
     (let b1 = append_outcome False now b in
      case cb_state b1 of
        HALF_OPEN \<Rightarrow>
          (let b2 = b1\<lparr>half_open_in_flight := max 0 (half_open_in_flight b1 - 1),
                        half_open_failures := half_open_failures b1 + 1\<rparr>
           in (transition_to_open clock b2, Inr ()))
      | CLOSED \<Rightarrow> maybe_open clock b1
      | OPEN \<Rightarrow> (b1, Inr ()))"

section \<open>The breaker as an event system\<close>

datatype cb_event =
    Read_State seconds
  | Before_Request seconds
  | Record_Success seconds
  | Record_Failure seconds seconds

fun cb_apply :: "cb_event \<Rightarrow> breaker \<Rightarrow> (breaker, unit) outcome" where
  "cb_apply (Read_State t) b = (read_state t b, Inr ())"
| "cb_apply (Before_Request t) b = before_request t b"
| "cb_apply (Record_Success t) b = (record_success t b, Inr ())"
| "cb_apply (Record_Failure t t') b = record_failure t t' b"

inductive cb_step :: "breaker \<Rightarrow> cb_event \<Rightarrow> breaker \<Rightarrow> bool" where
  cb_call: "cb_step b e (fst (cb_apply e b))"

inductive_simps cb_step_iff: "cb_step b e b'"

fun cb_run :: "cb_event list \<Rightarrow> breaker \<Rightarrow> breaker" where
  "cb_run [] b = b"
| "cb_run (e # es) b = cb_run es (fst (cb_apply e b))"

fun admitted :: "cb_event list \<Rightarrow> breaker \<Rightarrow> nat" where
  "admitted [] b = 0"
| "admitted (e # es) b =
     (case e of
        Before_Request t \<Rightarrow> (if raised (before_request t b) then 0 else 1)
      | _ \<Rightarrow> 0) + admitted es (fst (cb_apply e b))"

definition started :: "CircuitBreakerConfig \<Rightarrow> breaker \<Rightarrow> bool" where
  "started c b \<longleftrightarrow> (\<exists>name. init_breaker name (Some c) = Inr b)"

definition breaker_inv :: "CircuitBreakerConfig \<Rightarrow> breaker \<Rightarrow> bool" where
  "breaker_inv c b \<longleftrightarrow>
     cb_config b = c
   \<and> length (cb_outcomes b) \<le> nat (rolling_window_size c)
   \<and> 0 \<le> half_open_in_flight b
   \<and> half_open_in_flight b \<le> max 0 (half_open_max_requests c)
   \<and> half_open_failures b = 0
   \<and> 0 \<le> half_open_successes b
   \<and> (cb_state b \<noteq> HALF_OPEN \<longrightarrow> half_open_in_flight b = 0 \<and> half_open_successes b = 0)
   \<and> (cb_state b = HALF_OPEN \<longrightarrow> half_open_successes b < max 1 (half_open_max_requests c))
   \<and> (cb_state b = CLOSED \<longleftrightarrow> cb_opened_at b = None)"

text \<open>The transitions a breaker may make within one call.\<close>

fun legal_transition :: "CircuitState \<Rightarrow> CircuitState \<Rightarrow> bool" where
  "legal_transition CLOSED HALF_OPEN = False"
| "legal_transition OPEN CLOSED = False"
| "legal_transition _ _ = True"

text \<open>Specification-level vocabulary: what the event log says, independent of the breaker's fields.\<close>

fun only_asks :: "cb_event \<Rightarrow> bool" where
  "only_asks (Read_State t) = True"
| "only_asks (Before_Request t) = True"
| "only_asks _ = False"

fun asks_before :: "seconds \<Rightarrow> cb_event \<Rightarrow> bool" where
  "asks_before limit (Read_State t) \<longleftrightarrow> t < limit"
| "asks_before limit (Before_Request t) \<longleftrightarrow> t < limit"
| "asks_before limit _ = True"

fun is_before_request :: "cb_event \<Rightarrow> bool" where
  "is_before_request (Before_Request t) = True"
| "is_before_request _ = False"

fun logged :: "cb_event \<Rightarrow> Outcome list" where
  "logged (Record_Success t) = [\<lparr>success = True, at_time = t\<rparr>]"
| "logged (Record_Failure t t') = [\<lparr>success = False, at_time = t\<rparr>]"
| "logged _ = []"

text \<open>All outcomes reported since the breaker last closed (or was created).\<close>

fun history :: "cb_event list \<Rightarrow> breaker \<Rightarrow> Outcome list \<Rightarrow> Outcome list" where
  "history [] b h = h"
| "history (e # es) b h =
     (let b' = fst (cb_apply e b)
      in history es b' (if cb_state b = HALF_OPEN \<and> cb_state b' = CLOSED then [] else h @ logged e))"

definition small_config :: CircuitBreakerConfig where
  "small_config =
     \<lparr>failure_threshold = 1 / 2, minimum_requests = 2, open_duration_seconds = 10,
      half_open_max_requests = 2, rolling_window_size = 4\<rparr>"

lemmas [breaker_defs] =
  transition_to_open_def transition_to_half_open_def transition_to_closed_def read_state_def
  before_request_def append_outcome_def record_success_def maybe_open_def record_failure_def
  Let_def

lemmas breaker_splits =
  if_splits option.splits CircuitState.splits prod.splits


section \<open>One call\<close>

lemma cb_config_simps [simp]:
  "cb_config (read_state t b) = cb_config b"
  "cb_config (append_outcome ok t b) = cb_config b"
  "cb_config (transition_to_open t b) = cb_config b"
  "cb_config (transition_to_closed b) = cb_config b"
  "cb_config (fst (maybe_open t b)) = cb_config b"
  by (simp_all add: read_state_def append_outcome_def transition_to_open_def maybe_open_def
      transition_to_closed_def transition_to_half_open_def Let_def
      split: option.split CircuitState.split)

lemma cb_state_simps [simp]:
  "cb_state (append_outcome ok t b) = cb_state b"
  "cb_state (transition_to_open t b) = OPEN"
  "cb_state (transition_to_closed b) = CLOSED"
  "cb_state (transition_to_half_open b) = HALF_OPEN"
  by (simp_all add: append_outcome_def transition_to_open_def transition_to_closed_def
      transition_to_half_open_def)

lemma cb_config_apply [simp]: "cb_config (fst (cb_apply e b)) = cb_config b"
  by (cases e)
    (simp_all add: before_request_def record_success_def record_failure_def Let_def
      split: CircuitState.split)

lemma cb_state_read_state:
  "cb_state (read_state t b) = cb_state b \<or>
   cb_state b = OPEN \<and> cb_state (read_state t b) = HALF_OPEN"
  by (simp add: read_state_def split: option.split CircuitState.split)

lemma cb_state_before_request [simp]:
  "cb_state (fst (before_request t b)) = cb_state (read_state t b)"
  by (simp add: before_request_def Let_def split: CircuitState.split)

lemma cb_state_record_success:
  "cb_state (record_success t b) =
     (if cb_state b = HALF_OPEN
         \<and> half_open_successes b + 1 \<ge> half_open_max_requests (cb_config b)
      then CLOSED else cb_state b)"
  by (simp add: record_success_def Let_def) (simp add: append_outcome_def)

lemma cb_state_maybe_open:
  "cb_state b = CLOSED \<Longrightarrow> cb_state (fst (maybe_open t b)) \<in> {CLOSED, OPEN}"
  by (simp add: maybe_open_def Let_def)

lemma cb_state_record_failure:
  "cb_state (fst (record_failure t t' b)) =
     (case cb_state b of HALF_OPEN \<Rightarrow> OPEN | OPEN \<Rightarrow> OPEN
      | CLOSED \<Rightarrow> cb_state (fst (maybe_open t' (append_outcome False t b))))"
  by (simp add: record_failure_def Let_def split: CircuitState.split)

lemma read_state_cases:
  obtains (same) "read_state t b = b"
  | (expired) opened where "cb_state b = OPEN" "cb_opened_at b = Some opened"
      "t - opened \<ge> open_duration_seconds (cb_config b)"
      "read_state t b = transition_to_half_open b"
  by (cases "cb_state b"; cases "cb_opened_at b";
      cases "t - the (cb_opened_at b) \<ge> open_duration_seconds (cb_config b)")
    (auto simp: read_state_def)

lemma before_request_cases:
  obtains (rejected) "cb_state (read_state t b) \<noteq> CLOSED"
      "before_request t b = (read_state t b, Inl (CircuitOpenError (cb_name (read_state t b))))"
  | (passed) "cb_state (read_state t b) = CLOSED" "before_request t b = (read_state t b, Inr ())"
  | (probe) "cb_state (read_state t b) = HALF_OPEN"
      "half_open_in_flight (read_state t b) < half_open_max_requests (cb_config b)"
      "before_request t b =
         ((read_state t b)\<lparr>half_open_in_flight := half_open_in_flight (read_state t b) + 1\<rparr>, Inr ())"
  by (cases "cb_state (read_state t b)";
      cases "half_open_in_flight (read_state t b) \<ge> half_open_max_requests (cb_config b)")
    (auto simp: before_request_def Let_def)

lemma transition_to_half_open_inv:
  "breaker_inv c b \<Longrightarrow> cb_state b = OPEN \<Longrightarrow> breaker_inv c (transition_to_half_open b)"
  by (simp add: breaker_inv_def transition_to_half_open_def)

lemma read_state_inv: "breaker_inv c b \<Longrightarrow> breaker_inv c (read_state t b)"
  by (cases rule: read_state_cases [of t b]) (simp_all add: transition_to_half_open_inv)

lemma before_request_inv:
  assumes "breaker_inv c b"
  shows "breaker_inv c (fst (before_request t b))"
  using read_state_inv [OF assms, of t]
  by (cases rule: before_request_cases [of t b]) (auto simp: breaker_inv_def)

lemma append_outcome_inv: "breaker_inv c b \<Longrightarrow> breaker_inv c (append_outcome ok t b)"
  by (simp add: breaker_inv_def append_outcome_def)

lemma transition_to_open_inv:
  "breaker_inv c b \<Longrightarrow> breaker_inv c (transition_to_open t b)"
  by (simp add: breaker_inv_def transition_to_open_def)

lemma record_success_inv: "breaker_inv c b \<Longrightarrow> breaker_inv c (record_success t b)"
  using append_outcome_inv [of c b True t]
  by (auto simp: record_success_def Let_def breaker_inv_def transition_to_closed_def)

lemma maybe_open_inv: "breaker_inv c b \<Longrightarrow> breaker_inv c (fst (maybe_open t b))"
  by (auto simp: maybe_open_def Let_def transition_to_open_inv)

lemma record_failure_inv: "breaker_inv c b \<Longrightarrow> breaker_inv c (fst (record_failure t t' b))"
proof -
  assume inv: "breaker_inv c b"
  let ?b = "append_outcome False t b"
  note inv1 = append_outcome_inv [OF inv, of False t]
  show ?thesis
  proof (cases "cb_state ?b")
    case CLOSED
    then show ?thesis using maybe_open_inv [OF inv1] by (simp add: record_failure_def Let_def)
  next
    case OPEN
    then show ?thesis using inv1 by (simp add: record_failure_def Let_def)
  next
    case HALF_OPEN
    then show ?thesis
      using inv1 by (auto simp: record_failure_def Let_def breaker_inv_def transition_to_open_def)
  qed
qed

lemma cb_apply_inv: "breaker_inv c b \<Longrightarrow> breaker_inv c (fst (cb_apply e b))"
  by (cases e)
    (simp_all add: read_state_inv before_request_inv record_success_inv record_failure_inv)

lemma started_inv: "started c b \<Longrightarrow> breaker_inv c b"
  by (auto simp: started_def init_breaker_def new_breaker_def breaker_inv_def split: if_splits)

interpretation cb: invariant_system "started c" cb_step "breaker_inv c" for c
  by unfold_locales (auto simp: started_inv cb_step_iff cb_apply_inv)

lemma steps_cb_run: "steps cb_step b es b' \<longleftrightarrow> b' = cb_run es b"
  by (induction es arbitrary: b) (auto simp: cb_step_iff)

lemma cb_run_append [simp]: "cb_run (es @ fs) b = cb_run fs (cb_run es b)"
  by (induction es arbitrary: b) auto

lemma cb_run_inv: "breaker_inv c b \<Longrightarrow> breaker_inv c (cb_run es b)"
  using cb.steps_inv by (simp add: steps_cb_run)

lemma cb_config_run [simp]: "cb_config (cb_run es b) = cb_config b"
  by (induction es arbitrary: b) auto

lemma cb_apply_legal: "legal_transition (cb_state b) (cb_state (fst (cb_apply e b)))"
proof (cases e)
  case (Record_Failure t t')
  then show ?thesis
    using cb_state_maybe_open [of "append_outcome False t b" t']
    by (cases "cb_state b") (auto simp: cb_state_record_failure)
next
  case (Record_Success t)
  then show ?thesis by (cases "cb_state b") (simp_all add: cb_state_record_success)
next
  case (Before_Request t)
  then show ?thesis using cb_state_read_state [of t b] by (cases "cb_state b") auto
next
  case (Read_State t)
  then show ?thesis using cb_state_read_state [of t b] by (cases "cb_state b") auto
qed

section \<open>The window and the trip decision\<close>

lemma outcomes_read_state [simp]: "cb_outcomes (read_state t b) = cb_outcomes b"
  by (cases rule: read_state_cases [of t b]) (simp_all add: transition_to_half_open_def)

lemma outcomes_before_request [simp]: "cb_outcomes (fst (before_request t b)) = cb_outcomes b"
  by (cases rule: before_request_cases [of t b]) simp_all

lemma outcomes_maybe_open [simp]: "cb_outcomes (fst (maybe_open t b)) = cb_outcomes b"
  by (simp add: maybe_open_def transition_to_open_def Let_def)

lemma outcomes_record_failure:
  "cb_outcomes (fst (record_failure t t' b)) = cb_outcomes (append_outcome False t b)"
  by (simp add: record_failure_def Let_def transition_to_open_def split: CircuitState.split)

lemma outcomes_record_success:
  "cb_outcomes (record_success t b) =
     (if cb_state b = HALF_OPEN \<and> cb_state (record_success t b) = CLOSED then []
      else cb_outcomes (append_outcome True t b))"
  by (simp add: record_success_def Let_def transition_to_closed_def)

lemma outcomes_apply:
  assumes "cb_outcomes b = last_n (nat (rolling_window_size (cb_config b))) h"
  shows "cb_outcomes (fst (cb_apply e b)) =
     (if cb_state b = HALF_OPEN \<and> cb_state (fst (cb_apply e b)) = CLOSED then []
      else last_n (nat (rolling_window_size (cb_config b))) (h @ logged e))"
proof (cases e)
  case (Record_Failure t t')
  then show ?thesis
    using assms by (auto simp: outcomes_record_failure cb_state_record_failure append_outcome_def)
next
  case (Record_Success t)
  then show ?thesis
    using assms by (simp add: outcomes_record_success append_outcome_def)
next
  case (Before_Request t)
  then show ?thesis using assms cb_state_read_state [of t b] by auto
next
  case (Read_State t)
  then show ?thesis using assms cb_state_read_state [of t b] by auto
qed

lemma outcomes_run:
  assumes "cb_outcomes b = last_n (nat (rolling_window_size (cb_config b))) h"
  shows "cb_outcomes (cb_run es b) =
    last_n (nat (rolling_window_size (cb_config b))) (history es b h)"
  using assms
proof (induction es arbitrary: b h)
  case Nil
  then show ?case by simp
next
  case (Cons e es)
  let ?b = "fst (cb_apply e b)"
  let ?h = "if cb_state b = HALF_OPEN \<and> cb_state ?b = CLOSED then [] else h @ logged e"
  have "cb_outcomes ?b = last_n (nat (rolling_window_size (cb_config ?b))) ?h"
    using outcomes_apply [OF Cons.prems, of e] by (simp add: last_n_def)
  from Cons.IH [OF this] show ?case by (simp add: Let_def)
qed

text \<open>C22. Whatever calls are made on a breaker, in any order and at any times, its deque
  never holds more than \<^verbatim>\<open>rolling_window_size\<close> outcomes and those are the last outcomes
  reported since the breaker was created or last closed.\<close>

theorem breaker_window_is_recent_history:
  assumes "started c b"
  shows "cb_outcomes (cb_run es b) = last_n (nat (rolling_window_size c)) (history es b [])
    \<and> length (cb_outcomes (cb_run es b)) \<le> nat (rolling_window_size c)"
proof -
  have "cb_outcomes b = []" "cb_config b = c"
    using assms by (auto simp: started_def init_breaker_def new_breaker_def split: if_splits)
  then have "cb_outcomes (cb_run es b) = last_n (nat (rolling_window_size c)) (history es b [])"
    using outcomes_run [of b "[]" es] by (simp add: last_n_def)
  then show ?thesis by simp
qed

lemma started_new: "0 \<le> rolling_window_size c \<Longrightarrow> started c (new_breaker name c)"
  by (auto simp: started_def init_breaker_def)

theorem breaker_window_is_recent_history_witness:
  "length (cb_outcomes (cb_run (map Record_Success [1, 2, 3, 4, 5]) (new_breaker ''users'' small_config)))
     = 4"
proof -
  have st: "started small_config (new_breaker ''users'' small_config)"
    by (rule started_new) (simp add: small_config_def)
  have "length (last_n (nat (rolling_window_size small_config))
      (history (map Record_Success [1, 2, 3, 4, 5]) (new_breaker ''users'' small_config) [])) = 4"
    by code_simp
  with breaker_window_is_recent_history [OF st, of "map Record_Success [1, 2, 3, 4, 5]"]
  show ?thesis by simp
qed

lemma failures_in_append [simp]: "failures_in (xs @ ys) = failures_in xs + failures_in ys"
  by (simp add: failures_in_def)

text \<open>C10. With a window of at least one outcome, \<^verbatim>\<open>record_failure\<close> on a closed breaker
  never raises, and it opens the circuit exactly when, counting the new failure, the window holds
  at least \<^verbatim>\<open>minimum_requests\<close> outcomes of which a share of at least
  \<^verbatim>\<open>failure_threshold\<close> are failures.\<close>

theorem breaker_trips_iff:
  assumes "cb_state b = CLOSED" and "0 < rolling_window_size (cb_config b)"
    and w_def: "w = last_n (nat (rolling_window_size (cb_config b)))
                  (cb_outcomes b @ [\<lparr>success = False, at_time = t\<rparr>])"
  shows "\<not> raised (record_failure t t' b)
    \<and> (cb_state (fst (record_failure t t' b)) = OPEN \<longleftrightarrow>
         minimum_requests (cb_config b) \<le> int (length w) \<and>
         failure_threshold (cb_config b) * of_nat (length w) \<le> of_int (failures_in w))
    \<and> (cb_state (fst (record_failure t t' b)) = OPEN \<longrightarrow>
         cb_opened_at (fst (record_failure t t' b)) = Some t')"
proof -
  let ?b = "append_outcome False t b"
  have w: "cb_outcomes ?b = w" and cfg: "cb_config ?b = cb_config b" and st: "cb_state ?b = CLOSED"
    using assms(1) by (simp_all add: append_outcome_def deque_append_def w_def)
  have pos: "0 < length w" using assms(2) by (simp add: w_def)
  have "record_failure t t' b = maybe_open t' ?b"
    using st by (simp add: record_failure_def Let_def)
  with pos w cfg st show ?thesis
    by (auto simp: maybe_open_def Let_def raised_def transition_to_open_def field_simps)
qed

theorem breaker_trips_iff_witness:
  "cb_state (fst (record_failure 2 3 (cb_run [Record_Success 1] (new_breaker ''users'' small_config))))
     = OPEN"
proof -
  let ?b = "cb_run [Record_Success 1] (new_breaker ''users'' small_config)"
  have st: "cb_state ?b = CLOSED" and w: "0 < rolling_window_size (cb_config ?b)"
    by (code_simp, code_simp)
  have "minimum_requests (cb_config ?b) \<le> int (length (last_n
        (nat (rolling_window_size (cb_config ?b)))
        (cb_outcomes ?b @ [\<lparr>success = False, at_time = 2\<rparr>])))"
    and "failure_threshold (cb_config ?b) * of_nat (length (last_n
        (nat (rolling_window_size (cb_config ?b)))
        (cb_outcomes ?b @ [\<lparr>success = False, at_time = 2\<rparr>])))
      \<le> of_int (failures_in (last_n (nat (rolling_window_size (cb_config ?b)))
        (cb_outcomes ?b @ [\<lparr>success = False, at_time = 2\<rparr>])))"
    by (code_simp, code_simp)
  with breaker_trips_iff [OF st w refl, of 2 3] show ?thesis by blast
qed

text \<open>
  A call changes the state of a breaker only along the four edges of the state machine,
  each with its cause: CLOSED to OPEN by a reported failure, OPEN to HALF_OPEN by a look at the
  state once \<^verbatim>\<open>open_duration_seconds\<close> have passed since the circuit opened, HALF_OPEN to
  CLOSED by the probe success that reaches the required number, HALF_OPEN to OPEN by a reported
  failure.\<close>

lemma breaker_transition_causes:
  assumes "cb_state (fst (cb_apply e b)) \<noteq> cb_state b"
  shows "case (cb_state b, cb_state (fst (cb_apply e b))) of
      (CLOSED, OPEN) \<Rightarrow> \<exists>t t'. e = Record_Failure t t'
    | (OPEN, HALF_OPEN) \<Rightarrow> \<exists>t opened. (e = Read_State t \<or> e = Before_Request t)
        \<and> cb_opened_at b = Some opened \<and> t - opened \<ge> open_duration_seconds (cb_config b)
    | (HALF_OPEN, CLOSED) \<Rightarrow> \<exists>t. e = Record_Success t
        \<and> half_open_successes b + 1 \<ge> half_open_max_requests (cb_config b)
    | (HALF_OPEN, OPEN) \<Rightarrow> \<exists>t t'. e = Record_Failure t t'
    | _ \<Rightarrow> False"
proof (cases e)
  case (Read_State t)
  with assms show ?thesis by (cases rule: read_state_cases [of t b]) auto
next
  case (Before_Request t)
  with assms show ?thesis by (cases rule: read_state_cases [of t b]) auto
next
  case (Record_Success t)
  with assms show ?thesis by (auto simp: cb_state_record_success split: if_splits)
next
  case (Record_Failure t t')
  with assms cb_state_maybe_open [of "append_outcome False t b" t'] show ?thesis
    by (cases "cb_state b") (auto simp: cb_state_record_failure)
qed

lemma breaker_transition_causes_example:
  "\<exists>t t'. Record_Failure 2 2 = Record_Failure t t' \<and>
     cb_state (cb_run [Record_Failure 1 1, Record_Failure 2 2] (new_breaker ''users'' small_config)) = OPEN"
proof -
  let ?b = "cb_run [Record_Failure 1 1] (new_breaker ''users'' small_config)"
  have o: "cb_state ?b = CLOSED" "cb_state (fst (cb_apply (Record_Failure 2 2) ?b)) = OPEN"
    by (code_simp, code_simp)
  then have "cb_state (fst (cb_apply (Record_Failure 2 2) ?b)) \<noteq> cb_state ?b" by simp
  from breaker_transition_causes [OF this] o show ?thesis by simp
qed

section \<open>Open, half-open, and back\<close>

lemma read_state_not_open [simp]: "cb_state b \<noteq> OPEN \<Longrightarrow> read_state t b = b"
  by (cases rule: read_state_cases [of t b]) simp_all

lemma read_state_still_open:
  "cb_opened_at b = Some opened \<Longrightarrow> t < opened + open_duration_seconds (cb_config b) \<Longrightarrow>
   read_state t b = b"
  by (cases rule: read_state_cases [of t b]) auto

lemma open_kept_by_apply:
  assumes "cb_state b = OPEN" and "cb_opened_at b = Some opened"
    and "asks_before (opened + open_duration_seconds (cb_config b)) e"
  shows "cb_state (fst (cb_apply e b)) = OPEN \<and> cb_opened_at (fst (cb_apply e b)) = Some opened
    \<and> (is_before_request e \<longrightarrow> raised (cb_apply e b))"
proof (cases e)
  case (Before_Request t)
  then show ?thesis
    using assms read_state_still_open [of b opened t] by (simp add: before_request_def raised_def)
next
  case (Read_State t)
  then show ?thesis using assms read_state_still_open [of b opened t] by simp
next
  case (Record_Success t)
  then show ?thesis using assms by (simp add: record_success_def Let_def append_outcome_def)
next
  case (Record_Failure t t')
  then show ?thesis using assms by (simp add: record_failure_def Let_def append_outcome_def)
qed

text \<open>C20. An open circuit fails fast: as long as every look at it happens before
  \<^verbatim>\<open>open_duration_seconds\<close> have passed since it opened, no request is admitted and the
  circuit stays open with its opening time, whatever outcomes of earlier requests still arrive.\<close>

theorem breaker_open_fails_fast:
  assumes "cb_state b = OPEN" and "cb_opened_at b = Some opened"
    and "list_all (asks_before (opened + open_duration_seconds (cb_config b))) es"
  shows "admitted es b = 0 \<and> cb_state (cb_run es b) = OPEN
    \<and> cb_opened_at (cb_run es b) = Some opened"
  using assms
proof (induction es arbitrary: b)
  case Nil
  then show ?case by simp
next
  case (Cons e es)
  let ?b = "fst (cb_apply e b)"
  have step: "cb_state ?b = OPEN" "cb_opened_at ?b = Some opened"
    "is_before_request e \<Longrightarrow> raised (cb_apply e b)"
    using open_kept_by_apply [of b opened e] Cons.prems by auto
  have "list_all (asks_before (opened + open_duration_seconds (cb_config ?b))) es"
    using Cons.prems by simp
  from Cons.IH [OF step(1,2) this] step(3) show ?case
    by (cases e) simp_all
qed

theorem breaker_open_fails_fast_witness:
  "admitted [Before_Request 3, Record_Success 4, Before_Request 11]
     (cb_run [Record_Failure 1 1, Record_Failure 2 2] (new_breaker ''users'' small_config)) = 0"
proof -
  let ?b = "cb_run [Record_Failure 1 1, Record_Failure 2 2] (new_breaker ''users'' small_config)"
  have "cb_state ?b = OPEN" "cb_opened_at ?b = Some 2"
    "list_all (asks_before (2 + open_duration_seconds (cb_config ?b)))
       [Before_Request 3, Record_Success 4, Before_Request 11]"
    by (code_simp, code_simp, code_simp)
  from breaker_open_fails_fast [OF this] show ?thesis by simp
qed

text \<open>An open circuit recovers by itself: the first request that arrives once
  \<^verbatim>\<open>open_duration_seconds\<close> have passed finds it half-open and is admitted as the first probe,
  provided at least one probe is configured.\<close>

theorem breaker_open_recovers:
  assumes "cb_state b = OPEN" and "cb_opened_at b = Some opened"
    and "t - opened \<ge> open_duration_seconds (cb_config b)"
    and "0 < half_open_max_requests (cb_config b)"
  shows "\<not> raised (before_request t b) \<and> cb_state (fst (before_request t b)) = HALF_OPEN
    \<and> half_open_in_flight (fst (before_request t b)) = 1
    \<and> half_open_successes (fst (before_request t b)) = 0"
proof -
  have "read_state t b = transition_to_half_open b"
    using assms(1-3) by (simp add: read_state_def)
  then show ?thesis
    using assms(4) by (simp add: before_request_def transition_to_half_open_def raised_def)
qed

theorem breaker_open_recovers_witness:
  "\<not> raised (before_request 12
     (cb_run [Record_Failure 1 1, Record_Failure 2 2] (new_breaker ''users'' small_config)))"
proof -
  let ?b = "cb_run [Record_Failure 1 1, Record_Failure 2 2] (new_breaker ''users'' small_config)"
  have "cb_state ?b = OPEN" "cb_opened_at ?b = Some 2"
    "(12 :: rat) - 2 \<ge> open_duration_seconds (cb_config ?b)"
    "0 < half_open_max_requests (cb_config ?b)"
    by (code_simp, code_simp, code_simp, code_simp)
  from breaker_open_recovers [OF this] show ?thesis by simp
qed

lemma half_open_ask:
  assumes "cb_state b = HALF_OPEN" and "only_asks e"
  shows "cb_apply e b =
     (if is_before_request e then
        (if half_open_in_flight b \<ge> half_open_max_requests (cb_config b)
         then (b, Inl (CircuitOpenError (cb_name b)))
         else (b\<lparr>half_open_in_flight := half_open_in_flight b + 1\<rparr>, Inr ()))
      else (b, Inr ()))"
  using assms by (cases e) (simp_all add: before_request_def Let_def)

text \<open>Half-open admits a bounded number of probes: however often and whenever it is asked,
  until an outcome is reported it lets through exactly the first
  \<open>half_open_max_requests - half_open_in_flight\<close> requests and rejects all further ones.\<close>

theorem breaker_half_open_admits_exactly:
  assumes "cb_state b = HALF_OPEN" and "list_all only_asks es"
  shows "admitted es b = min (length (filter is_before_request es))
      (nat (half_open_max_requests (cb_config b) - half_open_in_flight b))
    \<and> cb_state (cb_run es b) = HALF_OPEN"
  using assms
proof (induction es arbitrary: b)
  case Nil
  then show ?case by simp
next
  case (Cons e es)
  let ?b = "fst (cb_apply e b)"
  have ask: "only_asks e" "list_all only_asks es" using Cons.prems(2) by simp_all
  note call = half_open_ask [OF Cons.prems(1) ask(1)]
  have "cb_state ?b = HALF_OPEN" using Cons.prems(1) by (simp add: call)
  note IH = Cons.IH [OF this ask(2)]
  show ?case
  proof (cases e)
    case (Before_Request t)
    then show ?thesis using IH call by (auto simp: raised_def)
  next
    case (Read_State t)
    then show ?thesis using IH Cons.prems(1) by simp
  qed (use ask(1) in simp_all)
qed

theorem breaker_half_open_admits_exactly_witness:
  "admitted [Before_Request 13, Before_Request 14, Read_State 15, Before_Request 99]
     (read_state 12
       (cb_run [Record_Failure 1 1, Record_Failure 2 2] (new_breaker ''users'' small_config))) = 2"
proof -
  let ?es = "[Before_Request 13, Before_Request 14, Read_State 15, Before_Request 99]"
  let ?b = "read_state 12
       (cb_run [Record_Failure 1 1, Record_Failure 2 2] (new_breaker ''users'' small_config))"
  have h: "cb_state ?b = HALF_OPEN" "list_all only_asks ?es" by (code_simp, code_simp)
  have "nat (half_open_max_requests (cb_config ?b) - half_open_in_flight ?b) = 2" by code_simp
  with breaker_half_open_admits_exactly [OF h] show ?thesis by simp
qed

lemma half_open_success_below:
  assumes "cb_state b = HALF_OPEN"
    and "half_open_successes b + 1 < half_open_max_requests (cb_config b)"
  shows "cb_state (record_success t b) = HALF_OPEN
    \<and> half_open_successes (record_success t b) = half_open_successes b + 1"
  using assms by (simp add: record_success_def Let_def append_outcome_def)

lemma half_open_success_last:
  assumes "cb_state b = HALF_OPEN"
    and "half_open_successes b + 1 \<ge> half_open_max_requests (cb_config b)"
  shows "cb_state (record_success t b) = CLOSED \<and> cb_outcomes (record_success t b) = []
    \<and> cb_opened_at (record_success t b) = None"
  using assms
  by (simp add: record_success_def Let_def append_outcome_def transition_to_closed_def)

lemma half_open_successes_run:
  assumes "cb_state b = HALF_OPEN"
    and "half_open_successes b + int (length ts) < half_open_max_requests (cb_config b)"
  shows "cb_state (cb_run (map Record_Success ts) b) = HALF_OPEN
    \<and> half_open_successes (cb_run (map Record_Success ts) b)
        = half_open_successes b + int (length ts)"
  using assms
proof (induction ts arbitrary: b)
  case Nil
  then show ?case by simp
next
  case (Cons t ts)
  have one: "cb_state (record_success t b) = HALF_OPEN"
    "half_open_successes (record_success t b) = half_open_successes b + 1"
    using half_open_success_below [of b t] Cons.prems by auto
  have cfg: "cb_config (record_success t b) = cb_config b"
    using cb_config_apply [of "Record_Success t" b] by simp
  show ?case using Cons.IH [OF one(1)] one(2) cfg Cons.prems(2) by simp
qed

text \<open>C21. A half-open circuit resolves: after exactly \<^verbatim>\<open>half_open_max_requests\<close> probe
  successes it is closed with an empty window, and a failure reported after fewer successes
  reopens it at once, with the clock value of that moment as its opening time.\<close>

theorem breaker_half_open_resolves:
  assumes "cb_state b = HALF_OPEN" and "half_open_successes b = 0"
    and "0 < half_open_max_requests (cb_config b)"
  shows "(int (length ts) = half_open_max_requests (cb_config b) \<longrightarrow>
            cb_state (cb_run (map Record_Success ts) b) = CLOSED
            \<and> cb_outcomes (cb_run (map Record_Success ts) b) = [])
    \<and> (int (length ts) < half_open_max_requests (cb_config b) \<longrightarrow>
            cb_state (cb_run (map Record_Success ts @ [Record_Failure t t']) b) = OPEN
            \<and> cb_opened_at (cb_run (map Record_Success ts @ [Record_Failure t t']) b) = Some t')"
proof (intro conjI impI)
  assume len: "int (length ts) = half_open_max_requests (cb_config b)"
  then obtain us u where ts: "ts = us @ [u]" using assms(3) by (cases ts rule: rev_cases) auto
  have "cb_state (cb_run (map Record_Success us) b) = HALF_OPEN"
    "half_open_successes (cb_run (map Record_Success us) b) = int (length us)"
    using half_open_successes_run [OF assms(1), of us] len assms(2) ts by auto
  then show "cb_state (cb_run (map Record_Success ts) b) = CLOSED"
    and "cb_outcomes (cb_run (map Record_Success ts) b) = []"
    using half_open_success_last [of "cb_run (map Record_Success us) b" u] len ts by auto
next
  assume "int (length ts) < half_open_max_requests (cb_config b)"
  then have "cb_state (cb_run (map Record_Success ts) b) = HALF_OPEN"
    using half_open_successes_run [OF assms(1), of ts] assms(2) by simp
  then show "cb_state (cb_run (map Record_Success ts @ [Record_Failure t t']) b) = OPEN"
    and "cb_opened_at (cb_run (map Record_Success ts @ [Record_Failure t t']) b) = Some t'"
    by (simp_all add: record_failure_def Let_def transition_to_open_def)
qed

theorem breaker_half_open_resolves_witness:
  "cb_state (cb_run (map Record_Success [13, 14]) (read_state 12
     (cb_run [Record_Failure 1 1, Record_Failure 2 2] (new_breaker ''users'' small_config)))) = CLOSED"
proof -
  let ?b = "read_state 12
       (cb_run [Record_Failure 1 1, Record_Failure 2 2] (new_breaker ''users'' small_config))"
  have h: "cb_state ?b = HALF_OPEN" "half_open_successes ?b = 0"
    "0 < half_open_max_requests (cb_config ?b)"
    by (code_simp, code_simp, code_simp)
  have "int (length [13, 14 :: rat]) = half_open_max_requests (cb_config ?b)" by code_simp
  with breaker_half_open_resolves [OF h, of "[13, 14]" 0 0] show ?thesis by blast
qed

text \<open>A half-open breaker all of whose probe slots are taken has no time-out of its own: if
  no outcome is ever reported for those probes, it rejects every request at every later time and
  never changes again.\<close>

lemma breaker_half_open_wedged:
  assumes "cb_state b = HALF_OPEN"
    and "half_open_in_flight b \<ge> half_open_max_requests (cb_config b)"
    and "list_all only_asks es"
  shows "admitted es b = 0 \<and> cb_run es b = b"
  using assms(3)
proof (induction es)
  case Nil
  then show ?case by simp
next
  case (Cons e es)
  then have "only_asks e" by simp
  then have "fst (cb_apply e b) = b" "is_before_request e \<Longrightarrow> raised (cb_apply e b)"
    using half_open_ask [OF assms(1), of e] assms(2) by (simp_all add: raised_def)
  with Cons show ?case by (cases e) simp_all
qed

section \<open>All runs\<close>

text \<open>C11. In every state a breaker can reach, whatever is called on it: the deque and the number
  of probes in flight stay within their configured bounds, the probe counters are zero outside
  HALF_OPEN, and an opening time is recorded exactly when the circuit is not closed.\<close>

theorem breaker_reachable_invariant:
  assumes "reach (started c) cb_step b"
  shows "cb_config b = c \<and> length (cb_outcomes b) \<le> nat (rolling_window_size c)
    \<and> 0 \<le> half_open_in_flight b \<and> half_open_in_flight b \<le> max 0 (half_open_max_requests c)
    \<and> (cb_state b \<noteq> HALF_OPEN \<longrightarrow> half_open_in_flight b = 0 \<and> half_open_successes b = 0)
    \<and> (cb_state b = CLOSED \<longleftrightarrow> cb_opened_at b = None)"
  using cb.reach_inv [OF assms] by (simp add: breaker_inv_def)

theorem breaker_reachable_invariant_witness:
  "cb_opened_at (fst (cb_apply (Record_Success 1) (new_breaker ''users'' small_config))) = None"
proof -
  let ?b = "fst (cb_apply (Record_Success 1) (new_breaker ''users'' small_config))"
  have "started small_config (new_breaker ''users'' small_config)"
    by (rule started_new) (simp add: small_config_def)
  then have "reach (started small_config) cb_step ?b"
    by (blast intro: reach.intros cb_call)
  moreover have "cb_state ?b = CLOSED" by code_simp
  ultimately show ?thesis using breaker_reachable_invariant [of small_config ?b] by blast
qed

lemma closed_kept_when_window_short:
  assumes "breaker_inv c b" and "cb_state b = CLOSED" and "0 \<le> rolling_window_size c"
    and "rolling_window_size c < minimum_requests c"
  shows "cb_state (fst (cb_apply e b)) = CLOSED"
proof (cases e)
  case (Record_Failure t t')
  have "int (length (cb_outcomes (append_outcome False t b))) < minimum_requests (cb_config b)"
    using assms by (simp add: breaker_inv_def append_outcome_def)
  then show ?thesis
    using assms(2) Record_Failure by (simp add: cb_state_record_failure maybe_open_def Let_def)
qed (use assms(2) in \<open>simp_all add: cb_state_record_success\<close>)

text \<open>A configuration whose \<^verbatim>\<open>minimum_requests\<close> exceeds its
  \<^verbatim>\<open>rolling_window_size\<close> disables the breaker: no sequence of failures ever opens it.\<close>

theorem breaker_never_opens_if_window_too_short:
  assumes "started c b" and "rolling_window_size c < minimum_requests c"
  shows "cb_state (cb_run es b) = CLOSED"
proof -
  have start: "breaker_inv c b" "cb_state b = CLOSED" "0 \<le> rolling_window_size c"
    using started_inv [OF assms(1)] assms(1)
    by (auto simp: started_def init_breaker_def new_breaker_def split: if_splits)
  then show ?thesis
    using assms(2)
    by (induction es arbitrary: b) (simp_all add: closed_kept_when_window_short cb_apply_inv)
qed

theorem breaker_never_opens_if_window_too_short_witness:
  "cb_state (cb_run (replicate 50 (Record_Failure 1 1))
     (new_breaker ''users'' (small_config\<lparr>minimum_requests := 5\<rparr>))) = CLOSED"
proof -
  have "started (small_config\<lparr>minimum_requests := 5\<rparr>)
      (new_breaker ''users'' (small_config\<lparr>minimum_requests := 5\<rparr>))"
    by (rule started_new) (simp add: small_config_def)
  then show ?thesis
    by (rule breaker_never_opens_if_window_too_short) (simp add: small_config_def)
qed

end
