(* ===== verification/Backpressure.thy ===== *)
theory Backpressure
  imports Sentinel_Prelude
begin

text \<open>
  Bounded concurrency of \<^verbatim>\<open>src/apps/gateway/backpressure/semaphores.py\<close>.

  \<open>semaphore\<close> is the standard library's \<^verbatim>\<open>asyncio.Semaphore\<close> (Python 3.12): a
  value and a FIFO of waiters, each marked when its future has been set. What a task does between
  two suspension points is one atomic operation: \<open>sem_acquire\<close> up to a possible suspension,
  \<open>sem_resume\<close> when a woken task runs again, \<open>sem_cancel\<close> when
  \<^verbatim>\<open>asyncio.wait_for\<close> cancels a waiting task at its time-out, \<open>sem_release\<close>.
  \<open>gate\<close> is \<^verbatim>\<open>BoundedConcurrencyGate\<close> and \<open>manager\<close>
  \<^verbatim>\<open>ConcurrencyManager\<close>. A request in \<^verbatim>\<open>acquire_all\<close> is a \<open>client\<close> that
  moves from gate to gate; \<open>con_step\<close> interleaves any number of requests at every suspension point.

  The lemmas show that every operation keeps the count \<open>value + woken + in_flight = limit\<close>,
  that in every reachable state each gate's \<^verbatim>\<open>in_flight\<close> is the number of requests that
  hold it and never exceeds its limit, that no free slot is left idle while a request waits, and
  that a rejected or finished request holds nothing.
\<close>

section \<open>asyncio.Semaphore\<close>

type_synonym task = nat

record semaphore =
  sem_value :: int
  sem_waiters :: "(task \<times> bool) list"

definition sem_locked :: "semaphore \<Rightarrow> bool" where
  "sem_locked s \<longleftrightarrow> sem_value s = 0 \<or> sem_waiters s \<noteq> []"

fun wake_first :: "(task \<times> bool) list \<Rightarrow> (task \<times> bool) list option" where
  "wake_first [] = None"
| "wake_first ((t, woken) # ws) =
     (if woken then map_option ((#) (t, woken)) (wake_first ws) else Some ((t, True) # ws))"

definition wake_up_next :: "semaphore \<Rightarrow> semaphore option" where
  "wake_up_next s =
     (case wake_first (sem_waiters s) of
        None \<Rightarrow> None
      | Some ws \<Rightarrow> Some (s\<lparr>sem_value := sem_value s - 1, sem_waiters := ws\<rparr>))"

definition asleep :: "(task \<times> bool) list \<Rightarrow> nat" where
  "asleep ws = length (filter (\<lambda>(t, woken). \<not> woken) ws)"

definition awake :: "(task \<times> bool) list \<Rightarrow> nat" where
  "awake ws = length (filter (\<lambda>(t, woken). woken) ws)"

lemma wake_first_asleep: "wake_first ws = Some ws' \<Longrightarrow> asleep ws = Suc (asleep ws')"
  by (induction ws arbitrary: ws' rule: wake_first.induct) (auto simp: asleep_def split: if_splits)

text \<open>The loop that wakes as many waiters as the value allows.\<close>

function wake_while :: "semaphore \<Rightarrow> semaphore" where
  "wake_while s =
     (if sem_value s > 0
      then (case wake_up_next s of None \<Rightarrow> s | Some s' \<Rightarrow> wake_while s')
      else s)"
  by pat_completeness auto
termination
  by (relation "measure (\<lambda>s. asleep (sem_waiters s))")
    (auto simp: wake_up_next_def dest: wake_first_asleep split: option.splits)

declare wake_while.simps [simp del]

definition sem_acquire :: "task \<Rightarrow> semaphore \<Rightarrow> semaphore \<times> bool" where
  "sem_acquire t s =
     (if \<not> sem_locked s then (s\<lparr>sem_value := sem_value s - 1\<rparr>, True)
      else (s\<lparr>sem_waiters := sem_waiters s @ [(t, False)]\<rparr>, False))"

definition sem_remove :: "task \<Rightarrow> semaphore \<Rightarrow> semaphore" where
  "sem_remove t s = s\<lparr>sem_waiters := filter (\<lambda>w. fst w \<noteq> t) (sem_waiters s)\<rparr>"

definition sem_resume :: "task \<Rightarrow> semaphore \<Rightarrow> semaphore" where
  "sem_resume t s = wake_while (sem_remove t s)"

definition sem_cancel :: "task \<Rightarrow> semaphore \<Rightarrow> semaphore" where
  "sem_cancel t s =
     (let s1 = sem_remove t s;
          s2 = (if (t, True) \<in> set (sem_waiters s) then s1\<lparr>sem_value := sem_value s1 + 1\<rparr> else s1)
      in wake_while s2)"

definition sem_release :: "semaphore \<Rightarrow> semaphore" where
  "sem_release s =
     (let s1 = s\<lparr>sem_value := sem_value s + 1\<rparr> in
      case wake_up_next s1 of None \<Rightarrow> s1 | Some s2 \<Rightarrow> s2)"

section \<open>Gates\<close>

datatype Priority = LOW | NORMAL | HIGH

record ConcurrencyLimits =
  max_global :: int
  max_per_tenant :: int
  max_per_route :: int
  max_per_backend :: int
  queue_timeout_ms :: int

definition default_limits :: ConcurrencyLimits where
  "default_limits = \<lparr>max_global = 1000, max_per_tenant = 100, max_per_route = 200,
     max_per_backend = 100, queue_timeout_ms = 500\<rparr>"

record gate =
  g_name :: string
  g_limit :: int
  g_queue_timeout_ms :: int
  g_semaphore :: semaphore
  g_in_flight :: int

text \<open>\<^verbatim>\<open>asyncio.Semaphore\<close> raises \<^verbatim>\<open>ValueError\<close> for a negative value.\<close>

definition new_gate :: "string \<Rightarrow> int \<Rightarrow> int \<Rightarrow> exn + gate" where
  "new_gate name limit timeout_ms =
     (if limit < 0 then Inl (ValueError ''Semaphore initial value must be >= 0'')
      else Inr \<lparr>g_name = name, g_limit = limit, g_queue_timeout_ms = timeout_ms,
                g_semaphore = \<lparr>sem_value = limit, sem_waiters = []\<rparr>, g_in_flight = 0\<rparr>)"

datatype attempt = Entered | Suspended | Rejected exn

text \<open>
  \<^verbatim>\<open>acquire\<close> up to its first suspension. \<^verbatim>\<open>wait_for\<close> with a time-out of zero or
  less cancels the acquisition before it has started, so it always times out.
  \<open>waited\<close> is the time the rejection reports.
\<close>

definition gate_enter :: "task \<Rightarrow> py_float \<Rightarrow> gate \<Rightarrow> gate \<times> attempt" where
  "gate_enter t waited g =
     (if g_queue_timeout_ms g \<le> 0 then (g, Rejected (BackpressureRejected (g_name g) waited))
      else
        case sem_acquire t (g_semaphore g) of
          (s, True) \<Rightarrow> (g\<lparr>g_semaphore := s, g_in_flight := g_in_flight g + 1\<rparr>, Entered)
        | (s, False) \<Rightarrow> (g\<lparr>g_semaphore := s\<rparr>, Suspended))"

definition gate_resume :: "task \<Rightarrow> gate \<Rightarrow> gate" where
  "gate_resume t g =
     g\<lparr>g_semaphore := sem_resume t (g_semaphore g), g_in_flight := g_in_flight g + 1\<rparr>"

definition gate_timeout :: "task \<Rightarrow> py_float \<Rightarrow> gate \<Rightarrow> gate \<times> exn" where
  "gate_timeout t waited g =
     (g\<lparr>g_semaphore := sem_cancel t (g_semaphore g)\<rparr>, BackpressureRejected (g_name g) waited)"

definition gate_exit :: "gate \<Rightarrow> gate" where
  "gate_exit g =
     g\<lparr>g_in_flight := g_in_flight g - 1, g_semaphore := sem_release (g_semaphore g)\<rparr>"

definition gate_inv :: "gate \<Rightarrow> bool" where
  "gate_inv g \<longleftrightarrow>
     0 \<le> sem_value (g_semaphore g) \<and> 0 \<le> g_in_flight g
   \<and> sem_value (g_semaphore g) + int (awake (sem_waiters (g_semaphore g))) + g_in_flight g
       = g_limit g
   \<and> distinct (map fst (sem_waiters (g_semaphore g)))
   \<and> (0 < sem_value (g_semaphore g) \<and> 0 < asleep (sem_waiters (g_semaphore g)) \<longrightarrow>
        0 < awake (sem_waiters (g_semaphore g)))"

section \<open>The manager\<close>

type_synonym registry = "(string, gate) dict"

definition get_or_create :: "int \<Rightarrow> registry \<Rightarrow> string \<Rightarrow> int \<Rightarrow> (exn + gate) \<times> registry" where
  "get_or_create timeout_ms reg key limit =
     (case dict_get reg key of
        Some g \<Rightarrow> (Inr g, reg)
      | None \<Rightarrow>
          (case new_gate key limit timeout_ms of
             Inl e \<Rightarrow> (Inl e, reg)
           | Inr g \<Rightarrow> (Inr g, dict_set reg key g)))"

record manager =
  m_limits :: ConcurrencyLimits
  m_global :: gate
  m_tenant :: registry
  m_route :: registry
  m_backend :: registry

definition new_manager :: "ConcurrencyLimits \<Rightarrow> exn + manager" where
  "new_manager l =
     (case new_gate ''global'' (max_global l) (queue_timeout_ms l) of
        Inl e \<Rightarrow> Inl e
      | Inr g \<Rightarrow> Inr \<lparr>m_limits = l, m_global = g, m_tenant = [], m_route = [], m_backend = []\<rparr>)"

datatype gate_ref = Global_Gate | Tenant_Gate string | Route_Gate string | Backend_Gate string

fun gate_at :: "manager \<Rightarrow> gate_ref \<Rightarrow> gate option" where
  "gate_at m Global_Gate = Some (m_global m)"
| "gate_at m (Tenant_Gate k) = dict_get (m_tenant m) k"
| "gate_at m (Route_Gate k) = dict_get (m_route m) k"
| "gate_at m (Backend_Gate k) = dict_get (m_backend m) k"

fun put_gate :: "manager \<Rightarrow> gate_ref \<Rightarrow> gate \<Rightarrow> manager" where
  "put_gate m Global_Gate g = m\<lparr>m_global := g\<rparr>"
| "put_gate m (Tenant_Gate k) g = m\<lparr>m_tenant := dict_set (m_tenant m) k g\<rparr>"
| "put_gate m (Route_Gate k) g = m\<lparr>m_route := dict_set (m_route m) k g\<rparr>"
| "put_gate m (Backend_Gate k) g = m\<lparr>m_backend := dict_set (m_backend m) k g\<rparr>"

fun ref_name :: "gate_ref \<Rightarrow> string" where
  "ref_name Global_Gate = ''global''"
| "ref_name (Tenant_Gate k) = k"
| "ref_name (Route_Gate k) = k"
| "ref_name (Backend_Gate k) = k"

fun limit_of :: "ConcurrencyLimits \<Rightarrow> gate_ref \<Rightarrow> int" where
  "limit_of l Global_Gate = max_global l"
| "limit_of l (Tenant_Gate _) = max_per_tenant l"
| "limit_of l (Route_Gate _) = max_per_route l"
| "limit_of l (Backend_Gate _) = max_per_backend l"

definition gate_path :: "string \<Rightarrow> string \<Rightarrow> string \<Rightarrow> gate_ref list" where
  "gate_path tenant_id route_id backend_id =
     [Global_Gate, Tenant_Gate (''tenant:'' @ tenant_id), Route_Gate (''route:'' @ route_id),
      Backend_Gate (''backend:'' @ backend_id)]"

text \<open>The first three statements of \<^verbatim>\<open>acquire_all\<close>: the gates the request will need.\<close>

definition create_gates :: "string \<Rightarrow> string \<Rightarrow> string \<Rightarrow> manager \<Rightarrow> (manager, unit) outcome" where
  "create_gates tenant_id route_id backend_id m =
     (let l = m_limits m; t = queue_timeout_ms l in
      case get_or_create t (m_tenant m) (''tenant:'' @ tenant_id) (max_per_tenant l) of
        (Inl e, _) \<Rightarrow> (m, Inl e)
      | (Inr _, reg1) \<Rightarrow>
      let m1 = m\<lparr>m_tenant := reg1\<rparr> in
      case get_or_create t (m_route m1) (''route:'' @ route_id) (max_per_route l) of
        (Inl e, _) \<Rightarrow> (m1, Inl e)
      | (Inr _, reg2) \<Rightarrow>
      let m2 = m1\<lparr>m_route := reg2\<rparr> in
      case get_or_create t (m_backend m2) (''backend:'' @ backend_id) (max_per_backend l) of
        (Inl e, _) \<Rightarrow> (m2, Inl e)
      | (Inr _, reg3) \<Rightarrow> (m2\<lparr>m_backend := reg3\<rparr>, Inr ()))"

text \<open>Leaving the nested \<^verbatim>\<open>async with\<close> blocks, innermost first.\<close>

fun release_gates :: "gate_ref list \<Rightarrow> manager \<Rightarrow> manager" where
  "release_gates [] m = m"
| "release_gates (r # rs) m =
     release_gates rs (case gate_at m r of None \<Rightarrow> m | Some g \<Rightarrow> put_gate m r (gate_exit g))"

section \<open>Requests competing for the gates\<close>

datatype con_status = Acquiring | Waiting | Inside | Finished "exn option"

record client =
  c_path :: "gate_ref list"
  c_held :: nat
  c_status :: con_status

definition advance :: "client \<Rightarrow> client" where
  "advance c = c\<lparr>c_held := Suc (c_held c),
     c_status := (if Suc (c_held c) = length (c_path c) then Inside else Acquiring)\<rparr>"

definition leave :: "exn option \<Rightarrow> client \<Rightarrow> client" where
  "leave e c = c\<lparr>c_held := 0, c_status := Finished e\<rparr>"

definition held_gates :: "client \<Rightarrow> gate_ref list" where
  "held_gates c = take (c_held c) (c_path c)"

definition try_acquire :: "task \<Rightarrow> py_float \<Rightarrow> client \<Rightarrow> manager \<Rightarrow> manager \<times> client" where
  "try_acquire t waited c m =
     (let r = c_path c ! c_held c in
      case gate_at m r of
        None \<Rightarrow> (m, c)
      | Some g \<Rightarrow>
          (case gate_enter t waited g of
             (g', Entered) \<Rightarrow> (put_gate m r g', advance c)
           | (g', Suspended) \<Rightarrow> (put_gate m r g', c\<lparr>c_status := Waiting\<rparr>)
           | (g', Rejected e) \<Rightarrow>
               (release_gates (rev (held_gates c)) (put_gate m r g'), leave (Some e) c)))"

definition wake_client :: "task \<Rightarrow> client \<Rightarrow> manager \<Rightarrow> manager \<times> client" where
  "wake_client t c m =
     (let r = c_path c ! c_held c in
      case gate_at m r of
        None \<Rightarrow> (m, c)
      | Some g \<Rightarrow> (put_gate m r (gate_resume t g), advance c))"

definition timeout_client :: "task \<Rightarrow> py_float \<Rightarrow> client \<Rightarrow> manager \<Rightarrow> manager \<times> client" where
  "timeout_client t waited c m =
     (let r = c_path c ! c_held c in
      case gate_at m r of
        None \<Rightarrow> (m, c)
      | Some g \<Rightarrow>
          (case gate_timeout t waited g of
             (g', e) \<Rightarrow> (release_gates (rev (held_gates c)) (put_gate m r g'), leave (Some e) c)))"

definition finish_client :: "client \<Rightarrow> manager \<Rightarrow> manager \<times> client" where
  "finish_client c m = (release_gates (rev (held_gates c)) m, leave None c)"

record con_system =
  cs_manager :: manager
  cs_clients :: "task \<Rightarrow> client option"

definition set_client :: "con_system \<Rightarrow> task \<Rightarrow> manager \<times> client \<Rightarrow> con_system" where
  "set_client s t mc =
     s\<lparr>cs_manager := fst mc, cs_clients := (cs_clients s)(t := Some (snd mc))\<rparr>"

datatype con_event =
    Arrive task string string string
  | Try task py_float
  | Wake task
  | Expire task py_float
  | Finish task

fun event_task :: "con_event \<Rightarrow> task" where
  "event_task (Arrive t _ _ _) = t"
| "event_task (Try t _) = t"
| "event_task (Wake t) = t"
| "event_task (Expire t _) = t"
| "event_task (Finish t) = t"

definition is_woken :: "manager \<Rightarrow> client \<Rightarrow> task \<Rightarrow> bool" where
  "is_woken m c t \<longleftrightarrow>
     (case gate_at m (c_path c ! c_held c) of
        None \<Rightarrow> False | Some g \<Rightarrow> (t, True) \<in> set (sem_waiters (g_semaphore g)))"

inductive con_step :: "con_system \<Rightarrow> con_event \<Rightarrow> con_system \<Rightarrow> bool" where
  con_arrive: "cs_clients s t = None \<Longrightarrow> create_gates te ro ba (cs_manager s) = (m, Inr ()) \<Longrightarrow>
     con_step s (Arrive t te ro ba)
       (set_client s t (m, \<lparr>c_path = gate_path te ro ba, c_held = 0, c_status = Acquiring\<rparr>))"
| con_try: "cs_clients s t = Some c \<Longrightarrow> c_status c = Acquiring \<Longrightarrow>
     con_step s (Try t w) (set_client s t (try_acquire t w c (cs_manager s)))"
| con_wake: "cs_clients s t = Some c \<Longrightarrow> c_status c = Waiting \<Longrightarrow> is_woken (cs_manager s) c t \<Longrightarrow>
     con_step s (Wake t) (set_client s t (wake_client t c (cs_manager s)))"
| con_expire: "cs_clients s t = Some c \<Longrightarrow> c_status c = Waiting \<Longrightarrow>
     con_step s (Expire t w) (set_client s t (timeout_client t w c (cs_manager s)))"
| con_finish: "cs_clients s t = Some c \<Longrightarrow> c_status c = Inside \<Longrightarrow>
     con_step s (Finish t) (set_client s t (finish_client c (cs_manager s)))"

text \<open>The same steps as a function: \<open>None\<close> where no step is possible.\<close>

fun con_apply :: "con_event \<Rightarrow> con_system \<Rightarrow> con_system option" where
  "con_apply (Arrive t te ro ba) s =
     (case (cs_clients s t, create_gates te ro ba (cs_manager s)) of
        (None, (m, Inr _)) \<Rightarrow>
          Some (set_client s t
            (m, \<lparr>c_path = gate_path te ro ba, c_held = 0, c_status = Acquiring\<rparr>))
      | _ \<Rightarrow> None)"
| "con_apply (Try t w) s =
     (case cs_clients s t of
        Some c \<Rightarrow> (if c_status c = Acquiring
          then Some (set_client s t (try_acquire t w c (cs_manager s))) else None)
      | None \<Rightarrow> None)"
| "con_apply (Wake t) s =
     (case cs_clients s t of
        Some c \<Rightarrow> (if c_status c = Waiting \<and> is_woken (cs_manager s) c t
          then Some (set_client s t (wake_client t c (cs_manager s))) else None)
      | None \<Rightarrow> None)"
| "con_apply (Expire t w) s =
     (case cs_clients s t of
        Some c \<Rightarrow> (if c_status c = Waiting
          then Some (set_client s t (timeout_client t w c (cs_manager s))) else None)
      | None \<Rightarrow> None)"
| "con_apply (Finish t) s =
     (case cs_clients s t of
        Some c \<Rightarrow> (if c_status c = Inside
          then Some (set_client s t (finish_client c (cs_manager s))) else None)
      | None \<Rightarrow> None)"

fun con_exec :: "con_event list \<Rightarrow> con_system \<Rightarrow> con_system option" where
  "con_exec [] s = Some s"
| "con_exec (e # es) s = Option.bind (con_apply e s) (con_exec es)"

definition con_start :: "ConcurrencyLimits \<Rightarrow> con_system \<Rightarrow> bool" where
  "con_start l s \<longleftrightarrow> (\<exists>m. new_manager l = Inr m \<and> s = \<lparr>cs_manager = m, cs_clients = Map.empty\<rparr>)"

definition holders :: "con_system \<Rightarrow> gate_ref \<Rightarrow> task set" where
  "holders s r = {t. \<exists>c. cs_clients s t = Some c \<and> r \<in> set (held_gates c)}"

definition waiting_at :: "con_system \<Rightarrow> gate_ref \<Rightarrow> task set" where
  "waiting_at s r =
     {t. \<exists>c. cs_clients s t = Some c \<and> c_status c = Waiting \<and> c_path c ! c_held c = r}"

definition client_ok :: "client \<Rightarrow> bool" where
  "client_ok c \<longleftrightarrow> distinct (c_path c) \<and> c_path c \<noteq> [] \<and> c_held c \<le> length (c_path c)
   \<and> (c_status c = Acquiring \<or> c_status c = Waiting \<longrightarrow> c_held c < length (c_path c))
   \<and> (c_status c = Inside \<longrightarrow> c_held c = length (c_path c))
   \<and> (\<forall>e. c_status c = Finished e \<longrightarrow> c_held c = 0)"

definition waits_for :: "client \<Rightarrow> gate_ref \<Rightarrow> bool" where
  "waits_for c r \<longleftrightarrow> c_status c = Waiting \<and> c_path c ! c_held c = r"

definition gate_fits :: "ConcurrencyLimits \<Rightarrow> con_system \<Rightarrow> gate_ref \<Rightarrow> gate \<Rightarrow> bool" where
  "gate_fits l s r g \<longleftrightarrow>
     gate_inv g \<and> g_limit g = limit_of l r \<and> g_name g = ref_name r
   \<and> g_in_flight g = int (card (holders s r))
   \<and> fst ` set (sem_waiters (g_semaphore g)) = waiting_at s r"

definition con_inv :: "ConcurrencyLimits \<Rightarrow> con_system \<Rightarrow> bool" where
  "con_inv l s \<longleftrightarrow>
     m_limits (cs_manager s) = l \<and> finite (dom (cs_clients s))
   \<and> (\<forall>r g. gate_at (cs_manager s) r = Some g \<longrightarrow> gate_fits l s r g)
   \<and> (\<forall>t c. cs_clients s t = Some c \<longrightarrow>
        client_ok c \<and> (\<forall>r \<in> set (c_path c). gate_at (cs_manager s) r \<noteq> None))"

section \<open>Load shedding\<close>

record LoadShedder =
  high_watermark_low :: int
  high_watermark_normal :: int

definition should_shed :: "LoadShedder \<Rightarrow> Priority \<Rightarrow> int \<Rightarrow> bool" where
  "should_shed s priority current_in_flight =
     (if priority = HIGH then False
      else if priority = LOW then current_in_flight \<ge> high_watermark_low s
      else current_in_flight \<ge> high_watermark_normal s)"

lemmas [gate_defs] =
  sem_locked_def wake_up_next_def sem_acquire_def sem_remove_def sem_resume_def sem_cancel_def
  sem_release_def gate_enter_def gate_resume_def gate_timeout_def gate_exit_def Let_def

section \<open>Semaphore lemmas\<close>

lemma asleep_simps [simp]:
  "asleep [] = 0" "asleep (w # ws) = (if snd w then 0 else 1) + asleep ws"
  "asleep (ws @ vs) = asleep ws + asleep vs"
  by (auto simp: asleep_def split: prod.splits)

lemma awake_simps [simp]:
  "awake [] = 0" "awake (w # ws) = (if snd w then 1 else 0) + awake ws"
  "awake (ws @ vs) = awake ws + awake vs"
  by (auto simp: awake_def split: prod.splits)

lemma wake_first_Some:
  "wake_first ws = Some ws' \<Longrightarrow> awake ws' = Suc (awake ws) \<and> map fst ws' = map fst ws"
  by (induction ws arbitrary: ws' rule: wake_first.induct) (auto split: if_splits)

lemma wake_first_None: "wake_first ws = None \<longleftrightarrow> asleep ws = 0"
  by (induction ws rule: wake_first.induct) auto

lemma no_sleeper_all_awake: "asleep ws = 0 \<Longrightarrow> awake ws = length ws"
  by (induction ws) (auto split: if_splits)

lemma wake_while_props:
  assumes "0 \<le> sem_value s"
  shows "0 \<le> sem_value (wake_while s)
    \<and> sem_value (wake_while s) + int (awake (sem_waiters (wake_while s)))
        = sem_value s + int (awake (sem_waiters s))
    \<and> map fst (sem_waiters (wake_while s)) = map fst (sem_waiters s)
    \<and> (sem_value (wake_while s) = 0 \<or> asleep (sem_waiters (wake_while s)) = 0)"
  using assms
proof (induction s rule: wake_while.induct)
  case (1 s)
  show ?case
  proof (cases "0 < sem_value s")
    case False
    then show ?thesis using 1(2) by (simp add: wake_while.simps [of s])
  next
    case pos: True
    show ?thesis
    proof (cases "wake_up_next s")
      case None
      then have "asleep (sem_waiters s) = 0"
        by (simp add: wake_up_next_def wake_first_None split: option.splits)
      then show ?thesis using pos None by (simp add: wake_while.simps [of s])
    next
      case (Some s')
      then obtain ws where ws: "wake_first (sem_waiters s) = Some ws"
        "s' = s\<lparr>sem_value := sem_value s - 1, sem_waiters := ws\<rparr>"
        by (auto simp: wake_up_next_def split: option.splits)
      with 1(1) [OF pos Some] pos show ?thesis
        using Some wake_first_Some [OF ws(1)] by (simp add: wake_while.simps [of s])
    qed
  qed
qed

lemma awake_remove:
  "distinct (map fst ws) \<Longrightarrow>
   awake (filter (\<lambda>w. fst w \<noteq> t) ws) = awake ws - (if (t, True) \<in> set ws then 1 else 0)
   \<and> ((t, True) \<in> set ws \<longrightarrow> 0 < awake ws)"
proof (induction ws)
  case (Cons w ws)
  have "filter (\<lambda>w. fst w \<noteq> t) ws = ws" if "fst w = t"
    using Cons.prems that by (auto simp: filter_id_conv) (metis fst_conv image_eqI)
  with Cons show ?case by (cases w) (auto simp: rev_image_eqI)
qed simp

section \<open>Every gate operation keeps the count\<close>

lemma new_gate_inv:
  "new_gate name limit ms = Inr g \<Longrightarrow> gate_inv g \<and> g_limit g = limit \<and> g_name g = name"
  by (auto simp: new_gate_def gate_inv_def split: if_splits)

lemma gate_enter_cases:
  assumes "gate_inv g"
  obtains (entered) g' where "gate_enter t w g = (g', Entered)" "gate_inv g'"
      "g_in_flight g' = g_in_flight g + 1" "g_limit g' = g_limit g" "g_name g' = g_name g"
      "sem_waiters (g_semaphore g') = sem_waiters (g_semaphore g)"
      "sem_waiters (g_semaphore g) = []"
  | (suspended) g' where "gate_enter t w g = (g', Suspended)"
      "t \<notin> fst ` set (sem_waiters (g_semaphore g)) \<Longrightarrow> gate_inv g'"
      "g_in_flight g' = g_in_flight g" "g_limit g' = g_limit g" "g_name g' = g_name g"
      "sem_waiters (g_semaphore g') = sem_waiters (g_semaphore g) @ [(t, False)]"
  | (rejected) "gate_enter t w g = (g, Rejected (BackpressureRejected (g_name g) w))"
      "g_queue_timeout_ms g \<le> 0"
proof (cases "g_queue_timeout_ms g \<le> 0")
  case True
  then show thesis by (intro rejected) (simp_all add: gate_enter_def)
next
  case False
  let ?s = "g_semaphore g"
  show thesis
  proof (cases "sem_locked ?s")
    case free: False
    then have "0 < sem_value ?s" "sem_waiters ?s = []"
      using assms by (auto simp: sem_locked_def gate_inv_def)
    then show thesis
      using False free assms
      by (intro entered [of "g\<lparr>g_semaphore := ?s\<lparr>sem_value := sem_value ?s - 1\<rparr>,
            g_in_flight := g_in_flight g + 1\<rparr>"])
        (simp_all add: gate_enter_def sem_acquire_def gate_inv_def)
  next
    case locked: True
    have "0 < sem_value ?s \<longrightarrow> 0 < awake (sem_waiters ?s)"
      using locked assms no_sleeper_all_awake [of "sem_waiters ?s"]
      by (cases "asleep (sem_waiters ?s)") (auto simp: sem_locked_def gate_inv_def)
    then show thesis
      using False locked assms
      by (intro suspended [of "g\<lparr>g_semaphore := ?s\<lparr>sem_waiters := sem_waiters ?s @ [(t, False)]\<rparr>\<rparr>"])
        (simp_all add: gate_enter_def sem_acquire_def gate_inv_def)
  qed
qed

lemma wake_while_waiters:
  "0 \<le> sem_value s \<Longrightarrow> fst ` set (sem_waiters (wake_while s)) = fst ` set (sem_waiters s)"
  using wake_while_props [of s] by (metis image_set)

lemma distinct_map_fst_filter: "distinct (map fst ws) \<Longrightarrow> distinct (map fst (filter P ws))"
  by (simp add: distinct_map_filter)

lemma gate_resume_inv:
  assumes "gate_inv g" and "(t, True) \<in> set (sem_waiters (g_semaphore g))"
  shows "gate_inv (gate_resume t g)"
    and "fst ` set (sem_waiters (g_semaphore (gate_resume t g)))
           = fst ` set (sem_waiters (g_semaphore g)) - {t}"
proof -
  let ?s = "sem_remove t (g_semaphore g)"
  have v: "0 \<le> sem_value ?s" using assms(1) by (simp add: sem_remove_def gate_inv_def)
  have "awake (sem_waiters ?s) = awake (sem_waiters (g_semaphore g)) - 1"
    "0 < awake (sem_waiters (g_semaphore g))"
    using awake_remove [of "sem_waiters (g_semaphore g)" t] assms
    by (auto simp: sem_remove_def gate_inv_def)
  with wake_while_props [OF v] assms show "gate_inv (gate_resume t g)"
    by (auto simp: gate_inv_def gate_resume_def sem_resume_def sem_remove_def
        distinct_map_fst_filter)
  show "fst ` set (sem_waiters (g_semaphore (gate_resume t g)))
           = fst ` set (sem_waiters (g_semaphore g)) - {t}"
    using wake_while_waiters [OF v] by (auto simp: gate_resume_def sem_resume_def sem_remove_def)
qed

lemma gate_timeout_inv:
  assumes "gate_inv g"
  shows "gate_inv (fst (gate_timeout t w g))"
    and "fst ` set (sem_waiters (g_semaphore (fst (gate_timeout t w g))))
           = fst ` set (sem_waiters (g_semaphore g)) - {t}"
proof -
  let ?s = "g_semaphore g"
  let ?r = "sem_remove t ?s"
  let ?u = "if (t, True) \<in> set (sem_waiters ?s) then ?r\<lparr>sem_value := sem_value ?r + 1\<rparr> else ?r"
  have v: "0 \<le> sem_value ?u" using assms by (simp add: sem_remove_def gate_inv_def)
  have sum: "sem_value ?u + int (awake (sem_waiters ?u))
      = sem_value ?s + int (awake (sem_waiters ?s))"
    using awake_remove [of "sem_waiters ?s" t] assms by (auto simp: sem_remove_def gate_inv_def)
  have eq: "g_semaphore (fst (gate_timeout t w g)) = wake_while ?u"
    by (simp add: gate_timeout_def sem_cancel_def Let_def)
  have "distinct (map fst (sem_waiters ?u))"
    using assms by (auto simp: sem_remove_def gate_inv_def distinct_map_fst_filter)
  with wake_while_props [OF v] assms sum show "gate_inv (fst (gate_timeout t w g))"
    by (auto simp: gate_inv_def eq) (simp_all add: gate_timeout_def)
  show "fst ` set (sem_waiters (g_semaphore (fst (gate_timeout t w g))))
           = fst ` set (sem_waiters (g_semaphore g)) - {t}"
    using wake_while_waiters [OF v] by (auto simp: eq sem_remove_def)
qed

lemma gate_exit_inv:
  assumes "gate_inv g" and "0 < g_in_flight g"
  shows "gate_inv (gate_exit g)"
    and "fst ` set (sem_waiters (g_semaphore (gate_exit g))) = fst ` set (sem_waiters (g_semaphore g))"
proof -
  let ?ws = "sem_waiters (g_semaphore g)"
  have "gate_inv (gate_exit g) \<and> fst ` set (sem_waiters (g_semaphore (gate_exit g))) = fst ` set ?ws"
  proof (cases "wake_first ?ws")
    case None
    then have "asleep ?ws = 0" by (simp add: wake_first_None)
    with None assms show ?thesis
      by (simp add: gate_inv_def gate_exit_def sem_release_def wake_up_next_def)
  next
    case (Some ws)
    then have "awake ws = Suc (awake ?ws)" "map fst ws = map fst ?ws"
      by (simp_all add: wake_first_Some)
    moreover from this(2) have "fst ` set ws = fst ` set ?ws" by (metis image_set)
    ultimately show ?thesis
      using Some assms by (simp add: gate_inv_def gate_exit_def sem_release_def wake_up_next_def)
  qed
  then show "gate_inv (gate_exit g)"
    and "fst ` set (sem_waiters (g_semaphore (gate_exit g))) = fst ` set ?ws" by simp_all
qed

lemma gate_fields [simp]:
  "g_limit (gate_resume t g) = g_limit g" "g_in_flight (gate_resume t g) = g_in_flight g + 1"
  "g_limit (fst (gate_timeout t w g)) = g_limit g"
  "g_in_flight (fst (gate_timeout t w g)) = g_in_flight g"
  "g_name (gate_resume t g) = g_name g" "g_name (fst (gate_timeout t w g)) = g_name g"
  "g_name (gate_exit g) = g_name g"
  "g_limit (gate_exit g) = g_limit g" "g_in_flight (gate_exit g) = g_in_flight g - 1"
  by (simp_all add: gate_resume_def gate_timeout_def gate_exit_def)

section \<open>All interleavings\<close>

lemma gate_at_put_gate [simp]: "gate_at (put_gate m r g) r' = (if r' = r then Some g else gate_at m r')"
  by (cases r; cases r') simp_all

interpretation gates: py_store gate_at put_gate
  by unfold_locales simp

lemma m_limits_put_gate [simp]: "m_limits (put_gate m r g) = m_limits m"
  by (cases r) simp_all

lemma m_limits_release_gates [simp]: "m_limits (release_gates rs m) = m_limits m"
  by (induction rs arbitrary: m) (auto split: option.split)

lemma gate_at_release_gates:
  "distinct rs \<Longrightarrow> gate_at (release_gates rs m) r =
     (if r \<in> set rs then map_option gate_exit (gate_at m r) else gate_at m r)"
  by (induction rs arbitrary: m) (auto split: option.splits)

lemma holders_set_client:
  "holders (set_client s t (m, c)) r =
     (if r \<in> set (held_gates c) then insert t (holders s r) else holders s r - {t})"
  by (auto simp: holders_def set_client_def)

lemma waiting_at_set_client:
  "waiting_at (set_client s t (m, c)) r =
     (if waits_for c r then insert t (waiting_at s r) else waiting_at s r - {t})"
  by (auto simp: waiting_at_def set_client_def waits_for_def)

lemma finite_holders: "finite (dom (cs_clients s)) \<Longrightarrow> finite (holders s r)"
  by (rule finite_subset [of _ "dom (cs_clients s)"]) (auto simp: holders_def)

lemma card_holders_set_client:
  assumes "finite (dom (cs_clients s))" and "cs_clients s t = Some c"
  shows "int (card (holders (set_client s t (m, c')) r)) = int (card (holders s r))
    + (if r \<in> set (held_gates c') then 1 else 0) - (if r \<in> set (held_gates c) then 1 else 0)"
proof -
  have "t \<in> holders s r \<longleftrightarrow> r \<in> set (held_gates c)" using assms(2) by (auto simp: holders_def)
  moreover have "card (holders s r) \<ge> 1" if "t \<in> holders s r"
    using that finite_holders [OF assms(1), of r] by (metis One_nat_def Suc_leI card_gt_0_iff empty_iff)
  ultimately show ?thesis
    using finite_holders [OF assms(1), of r]
    by (auto simp: holders_set_client insert_absorb card_insert_if of_nat_diff)
qed

text \<open>
  What one client's step may do to the gates: every gate keeps its own invariant and limit, its
  count changes by what the client newly holds or no longer holds, and its waiters change by the
  client alone.
\<close>

definition gate_move :: "task \<Rightarrow> client \<Rightarrow> client \<Rightarrow> gate_ref \<Rightarrow> gate \<Rightarrow> gate \<Rightarrow> bool" where
  "gate_move t c c' r g g' \<longleftrightarrow>
     gate_inv g' \<and> g_limit g' = g_limit g \<and> g_name g' = g_name g
   \<and> g_in_flight g' = g_in_flight g + (if r \<in> set (held_gates c') then 1 else 0)
       - (if r \<in> set (held_gates c) then 1 else 0)
   \<and> fst ` set (sem_waiters (g_semaphore g')) =
       (if waits_for c' r then insert t (fst ` set (sem_waiters (g_semaphore g)))
        else fst ` set (sem_waiters (g_semaphore g)) - {t})"

lemma con_inv_move:
  assumes inv: "con_inv l s" and old: "cs_clients s t = Some c"
    and c': "c_path c' = c_path c" "client_ok c'" and lim: "m_limits m' = l"
    and gates: "\<And>r g'. gate_at m' r = Some g' \<Longrightarrow>
        \<exists>g. gate_at (cs_manager s) r = Some g \<and> gate_move t c c' r g g'"
    and kept: "\<And>r. gate_at (cs_manager s) r \<noteq> None \<Longrightarrow> gate_at m' r \<noteq> None"
  shows "con_inv l (set_client s t (m', c'))"
proof -
  let ?s = "set_client s t (m', c')"
  have fin: "finite (dom (cs_clients s))" using inv by (simp add: con_inv_def)
  have "gate_fits l ?s r g'" if "gate_at m' r = Some g'" for r g'
  proof -
    obtain g where g: "gate_at (cs_manager s) r = Some g" and move: "gate_move t c c' r g g'"
      using gates [OF \<open>gate_at m' r = Some g'\<close>] by blast
    from g inv have "gate_fits l s r g" by (simp add: con_inv_def)
    with move show ?thesis
      using card_holders_set_client [OF fin old, of m' c' r]
      by (simp add: gate_fits_def gate_move_def waiting_at_set_client)
  qed
  then show ?thesis
    using inv old c' lim kept
    by (auto simp: con_inv_def set_client_def split: if_splits)
qed

lemma held_in_flight:
  assumes "con_inv l s" and "cs_clients s t = Some c" and "r \<in> set (held_gates c)"
    and "gate_at (cs_manager s) r = Some g"
  shows "0 < g_in_flight g"
proof -
  have "gate_fits l s r g" "finite (dom (cs_clients s))" using assms by (simp_all add: con_inv_def)
  moreover have "t \<in> holders s r" using assms(2,3) by (auto simp: holders_def)
  ultimately show ?thesis
    using finite_holders [of s r] by (auto simp: gate_fits_def card_gt_0_iff)
qed

lemma next_not_held:
  "client_ok c \<Longrightarrow> c_held c < length (c_path c) \<Longrightarrow> c_path c ! c_held c \<notin> set (held_gates c)"
  by (auto simp: client_ok_def held_gates_def in_set_conv_nth nth_eq_iff_index_eq)

lemma held_advance:
  "c_held c < length (c_path c) \<Longrightarrow> held_gates (advance c) = held_gates c @ [c_path c ! c_held c]"
  by (simp add: held_gates_def advance_def take_Suc_conv_app_nth)

lemma client_ok_advance: "client_ok c \<Longrightarrow> c_held c < length (c_path c) \<Longrightarrow> client_ok (advance c)"
  by (auto simp: client_ok_def advance_def)

lemma client_ok_leave: "client_ok c \<Longrightarrow> client_ok (leave e c)"
  by (simp add: client_ok_def leave_def)

lemma held_leave [simp]: "held_gates (leave e c) = []"
  by (simp add: held_gates_def leave_def)

lemma no_wait [simp]: "\<not> waits_for (advance c) r" "\<not> waits_for (leave e c) r"
  by (simp_all add: waits_for_def advance_def leave_def)

lemma c_path_simps [simp]: "c_path (advance c) = c_path c" "c_path (leave e c) = c_path c"
  by (simp_all add: advance_def leave_def)

lemma waiter_iff:
  assumes "con_inv l s" and "cs_clients s t = Some c" and "gate_at (cs_manager s) r = Some g"
  shows "t \<in> fst ` set (sem_waiters (g_semaphore g)) \<longleftrightarrow> waits_for c r"
  using assms by (auto simp: con_inv_def gate_fits_def waiting_at_def waits_for_def)

lemma con_inv_gate: "con_inv l s \<Longrightarrow> gate_at (cs_manager s) r = Some g \<Longrightarrow> gate_inv g"
  by (simp add: con_inv_def gate_fits_def)

lemma con_inv_client:
  "con_inv l s \<Longrightarrow> cs_clients s t = Some c \<Longrightarrow>
   client_ok c \<and> (\<forall>r \<in> set (c_path c). \<exists>g. gate_at (cs_manager s) r = Some g)"
  by (auto simp: con_inv_def)

lemma next_gate:
  assumes "con_inv l s" and "cs_clients s t = Some c"
    and "c_status c = Acquiring \<or> c_status c = Waiting"
  obtains g where "c_held c < length (c_path c)"
    "gate_at (cs_manager s) (c_path c ! c_held c) = Some g" "gate_inv g"
proof -
  have ok: "c_held c < length (c_path c)"
    using con_inv_client [OF assms(1,2)] assms(3) by (auto simp: client_ok_def)
  then obtain g where "gate_at (cs_manager s) (c_path c ! c_held c) = Some g"
    using con_inv_client [OF assms(1,2)] nth_mem by blast
  with ok con_inv_gate [OF assms(1)] show thesis using that by blast
qed

lemma gate_move_same:
  assumes "con_inv l s" and "cs_clients s t = Some c" and "gate_at (cs_manager s) r = Some g"
    and "r \<in> set (held_gates c') \<longleftrightarrow> r \<in> set (held_gates c)" and "waits_for c' r \<longleftrightarrow> waits_for c r"
  shows "gate_move t c c' r g g"
  using assms con_inv_gate [OF assms(1,3)] waiter_iff [OF assms(1-3)]
  by (auto simp: gate_move_def insert_absorb)

text \<open>
  A client leaves: in \<open>m1\<close> it waits at no gate any more, then all it holds is released.
\<close>

lemma con_inv_leave:
  assumes inv: "con_inv l s" and old: "cs_clients s t = Some c" and lim: "m_limits m1 = l"
    and gates: "\<And>r h. gate_at m1 r = Some h \<Longrightarrow> \<exists>g. gate_at (cs_manager s) r = Some g
        \<and> gate_inv h \<and> g_limit h = g_limit g \<and> g_name h = g_name g
        \<and> g_in_flight h = g_in_flight g
        \<and> fst ` set (sem_waiters (g_semaphore h)) = fst ` set (sem_waiters (g_semaphore g)) - {t}"
    and kept: "\<And>r. gate_at (cs_manager s) r \<noteq> None \<Longrightarrow> gate_at m1 r \<noteq> None"
  shows "con_inv l (set_client s t (release_gates (rev (held_gates c)) m1, leave e c))"
proof (rule con_inv_move [OF inv old])
  have ok: "client_ok c" using con_inv_client [OF inv old] by blast
  then have dist: "distinct (rev (held_gates c))" by (simp add: held_gates_def client_ok_def)
  show "client_ok (leave e c)" using ok by (rule client_ok_leave)
  show "m_limits (release_gates (rev (held_gates c)) m1) = l" using lim by simp
  fix r
  show "gate_at (release_gates (rev (held_gates c)) m1) r \<noteq> None"
    if "gate_at (cs_manager s) r \<noteq> None"
    using kept [OF that] by (simp add: gate_at_release_gates [OF dist])
  fix g'
  assume "gate_at (release_gates (rev (held_gates c)) m1) r = Some g'"
  then obtain h where h: "gate_at m1 r = Some h"
    and g': "g' = (if r \<in> set (held_gates c) then gate_exit h else h)"
    by (auto simp: gate_at_release_gates [OF dist] split: if_splits)
  from gates [OF h] obtain g where g: "gate_at (cs_manager s) r = Some g"
    and gh: "gate_inv h" "g_limit h = g_limit g" "g_name h = g_name g" "g_in_flight h = g_in_flight g"
      "fst ` set (sem_waiters (g_semaphore h)) = fst ` set (sem_waiters (g_semaphore g)) - {t}"
    by blast
  have "gate_move t c (leave e c) r g g'"
  proof (cases "r \<in> set (held_gates c)")
    case True
    have "0 < g_in_flight h" using held_in_flight [OF inv old True g] gh(4) by simp
    with True g' gh show ?thesis by (simp add: gate_move_def gate_exit_inv)
  next
    case False
    with g' gh show ?thesis by (simp add: gate_move_def)
  qed
  with g show "\<exists>g. gate_at (cs_manager s) r = Some g \<and> gate_move t c (leave e c) r g g'" by blast
qed simp

text \<open>The same when only the gate \<open>r0\<close>, at which the client may wait, has changed.\<close>

lemma con_inv_leave_at:
  assumes inv: "con_inv l s" and old: "cs_clients s t = Some c"
    and g: "gate_at (cs_manager s) r0 = Some g"
    and g0: "gate_inv g0" "g_limit g0 = g_limit g" "g_name g0 = g_name g" "g_in_flight g0 = g_in_flight g"
      "fst ` set (sem_waiters (g_semaphore g0)) = fst ` set (sem_waiters (g_semaphore g)) - {t}"
    and others: "\<And>r. r \<noteq> r0 \<Longrightarrow> \<not> waits_for c r"
  shows "con_inv l (set_client s t
    (release_gates (rev (held_gates c)) (put_gate (cs_manager s) r0 g0), leave e c))"
proof (rule con_inv_leave [OF inv old])
  show "m_limits (put_gate (cs_manager s) r0 g0) = l" using inv by (simp add: con_inv_def)
  fix r h
  assume h: "gate_at (put_gate (cs_manager s) r0 g0) r = Some h"
  show "\<exists>g. gate_at (cs_manager s) r = Some g \<and> gate_inv h \<and> g_limit h = g_limit g
      \<and> g_name h = g_name g \<and> g_in_flight h = g_in_flight g
      \<and> fst ` set (sem_waiters (g_semaphore h)) = fst ` set (sem_waiters (g_semaphore g)) - {t}"
  proof (cases "r = r0")
    case True
    with h g g0 show ?thesis by simp
  next
    case False
    with h have "gate_at (cs_manager s) r = Some h" by simp
    with waiter_iff [OF inv old this] others [OF False] con_inv_gate [OF inv this]
    show ?thesis by auto
  qed
qed simp

lemma con_inv_enter:
  assumes inv: "con_inv l s" and old: "cs_clients s t = Some c"
    and held: "c_held c < length (c_path c)"
    and g: "gate_at (cs_manager s) (c_path c ! c_held c) = Some g"
    and g0: "gate_inv g0" "g_limit g0 = g_limit g" "g_name g0 = g_name g" "g_in_flight g0 = g_in_flight g + 1"
      "fst ` set (sem_waiters (g_semaphore g0)) = fst ` set (sem_waiters (g_semaphore g)) - {t}"
    and others: "\<And>r. r \<noteq> c_path c ! c_held c \<Longrightarrow> \<not> waits_for c r"
  shows "con_inv l (set_client s t (put_gate (cs_manager s) (c_path c ! c_held c) g0, advance c))"
proof (rule con_inv_move [OF inv old])
  have ok: "client_ok c" using con_inv_client [OF inv old] by blast
  show "client_ok (advance c)" using ok held by (rule client_ok_advance)
  show "m_limits (put_gate (cs_manager s) (c_path c ! c_held c) g0) = l"
    using inv by (simp add: con_inv_def)
  fix r
  show "gate_at (put_gate (cs_manager s) (c_path c ! c_held c) g0) r \<noteq> None"
    if "gate_at (cs_manager s) r \<noteq> None" using that by simp
  fix g'
  assume g': "gate_at (put_gate (cs_manager s) (c_path c ! c_held c) g0) r = Some g'"
  show "\<exists>g. gate_at (cs_manager s) r = Some g \<and> gate_move t c (advance c) r g g'"
  proof (cases "r = c_path c ! c_held c")
    case True
    with g' g g0 next_not_held [OF ok held] show ?thesis
      by (simp add: gate_move_def held_advance [OF held])
  next
    case False
    with g' have h: "gate_at (cs_manager s) r = Some g'" by simp
    with gate_move_same [OF inv old h, of "advance c"] False others [OF False] show ?thesis
      by (simp add: held_advance [OF held])
  qed
qed simp

lemma try_acquire_inv:
  assumes inv: "con_inv l s" and old: "cs_clients s t = Some c" and st: "c_status c = Acquiring"
  shows "con_inv l (set_client s t (try_acquire t w c (cs_manager s)))"
proof -
  let ?r = "c_path c ! c_held c"
  obtain g where held: "c_held c < length (c_path c)"
    and g: "gate_at (cs_manager s) ?r = Some g" "gate_inv g"
    using next_gate [OF inv old] st by blast
  have ok: "client_ok c" using con_inv_client [OF inv old] by blast
  have nw: "\<not> waits_for c r" for r using st by (simp add: waits_for_def)
  have t: "t \<notin> fst ` set (sem_waiters (g_semaphore g))"
    using waiter_iff [OF inv old g(1)] nw by simp
  from g(2) show ?thesis
  proof (cases rule: gate_enter_cases [of g t w])
    case (entered g')
    have "con_inv l (set_client s t (put_gate (cs_manager s) ?r g', advance c))"
      by (rule con_inv_enter [OF inv old held g(1)]) (use entered nw in simp_all)
    then show ?thesis using g entered by (simp add: try_acquire_def)
  next
    case (rejected)
    have "con_inv l (set_client s t
        (release_gates (rev (held_gates c)) (put_gate (cs_manager s) ?r g),
         leave (Some (BackpressureRejected (g_name g) w)) c))"
      by (rule con_inv_leave_at [OF inv old g(1) g(2)]) (use t nw in simp_all)
    then show ?thesis using g rejected by (simp add: try_acquire_def)
  next
    case (suspended g')
    let ?c = "c\<lparr>c_status := Waiting\<rparr>"
    have "con_inv l (set_client s t (put_gate (cs_manager s) ?r g', ?c))"
    proof (rule con_inv_move [OF inv old])
      show "client_ok ?c" using ok held by (simp add: client_ok_def)
      show "m_limits (put_gate (cs_manager s) ?r g') = l" using inv by (simp add: con_inv_def)
      fix r h
      assume h: "gate_at (put_gate (cs_manager s) ?r g') r = Some h"
      show "\<exists>g. gate_at (cs_manager s) r = Some g \<and> gate_move t c ?c r g h"
      proof (cases "r = ?r")
        case True
        with h g suspended t show ?thesis by (simp add: gate_move_def held_gates_def waits_for_def)
      next
        case False
        with h have "gate_at (cs_manager s) r = Some h" by simp
        with gate_move_same [OF inv old this, of ?c] False nw show ?thesis
          by (simp add: held_gates_def waits_for_def)
      qed
    qed simp_all
    then show ?thesis using g suspended by (simp add: try_acquire_def)
  qed
qed

lemma waits_only_next: "c_path c ! c_held c \<noteq> r \<Longrightarrow> \<not> waits_for c r"
  by (simp add: waits_for_def)

lemma wake_client_inv:
  assumes inv: "con_inv l s" and old: "cs_clients s t = Some c" and st: "c_status c = Waiting"
    and woken: "is_woken (cs_manager s) c t"
  shows "con_inv l (set_client s t (wake_client t c (cs_manager s)))"
proof -
  let ?r = "c_path c ! c_held c"
  obtain g where held: "c_held c < length (c_path c)"
    and g: "gate_at (cs_manager s) ?r = Some g" "gate_inv g"
    using next_gate [OF inv old] st by blast
  have "(t, True) \<in> set (sem_waiters (g_semaphore g))" using woken g(1) by (simp add: is_woken_def)
  note resumed = gate_resume_inv [OF g(2) this]
  have "con_inv l (set_client s t (put_gate (cs_manager s) ?r (gate_resume t g), advance c))"
    by (rule con_inv_enter [OF inv old held g(1) resumed(1)])
      (use resumed(2) waits_only_next in auto)
  then show ?thesis using g by (simp add: wake_client_def)
qed

lemma timeout_client_inv:
  assumes inv: "con_inv l s" and old: "cs_clients s t = Some c" and st: "c_status c = Waiting"
  shows "con_inv l (set_client s t (timeout_client t w c (cs_manager s)))"
proof -
  let ?r = "c_path c ! c_held c"
  obtain g where g: "gate_at (cs_manager s) ?r = Some g" "gate_inv g"
    using next_gate [OF inv old] st by blast
  note out = gate_timeout_inv [OF g(2), of t w]
  have "con_inv l (set_client s t (release_gates (rev (held_gates c))
      (put_gate (cs_manager s) ?r (fst (gate_timeout t w g))),
      leave (Some (snd (gate_timeout t w g))) c))"
    by (rule con_inv_leave_at [OF inv old g(1) out(1)]) (use out(2) waits_only_next in auto)
  then show ?thesis using g by (simp add: timeout_client_def case_prod_beta)
qed

lemma finish_client_inv:
  assumes inv: "con_inv l s" and old: "cs_clients s t = Some c" and st: "c_status c = Inside"
  shows "con_inv l (set_client s t (finish_client c (cs_manager s)))"
  unfolding finish_client_def
proof (rule con_inv_leave [OF inv old])
  show "m_limits (cs_manager s) = l" using inv by (simp add: con_inv_def)
  fix r h
  assume h: "gate_at (cs_manager s) r = Some h"
  have "t \<notin> fst ` set (sem_waiters (g_semaphore h))"
    using waiter_iff [OF inv old h] st by (simp add: waits_for_def)
  with h con_inv_gate [OF inv h] show "\<exists>g. gate_at (cs_manager s) r = Some g \<and> gate_inv h
      \<and> g_limit h = g_limit g \<and> g_name h = g_name g \<and> g_in_flight h = g_in_flight g
      \<and> fst ` set (sem_waiters (g_semaphore h)) = fst ` set (sem_waiters (g_semaphore g)) - {t}"
    by simp
qed simp

section \<open>Creating gates\<close>

text \<open>\<^verbatim>\<open>_get_or_create\<close> is a look-up-or-create registry for every limit that can be built.\<close>

lemma get_or_create_hit: "dict_get reg key = Some g \<Longrightarrow> get_or_create ms reg key n = (Inr g, reg)"
  by (simp add: get_or_create_def)

lemma get_or_create_find:
  "dict_get (snd (get_or_create ms reg key n)) k' =
     (if k' = key then (case fst (get_or_create ms reg key n) of Inl e \<Rightarrow> None | Inr g \<Rightarrow> Some g)
      else dict_get reg k')"
  by (auto simp: get_or_create_def split: option.splits sum.splits)

interpretation gate_registry: lazy_registry
  "\<lambda>reg k. map_option Inr (dict_get reg k)"
  "\<lambda>reg k. get_or_create ms reg k (int n)"
  "\<lambda>k. new_gate k (int n) ms" for ms :: int and n :: nat
proof unfold_locales
  fix r :: registry and k and v :: "exn + gate"
  assume "map_option Inr (dict_get r k) = Some v"
  then show "get_or_create ms r k (int n) = (v, r)" by (auto simp: get_or_create_hit)
next
  fix r :: registry and k
  assume "map_option (Inr :: gate \<Rightarrow> exn + gate) (dict_get r k) = None"
  then show "fst (get_or_create ms r k (int n)) = new_gate k (int n) ms"
    by (auto simp: get_or_create_def split: sum.split)
next
  fix r :: registry and k
  show "map_option Inr (dict_get (snd (get_or_create ms r k (int n))) k)
      = Some (fst (get_or_create ms r k (int n)))"
    by (auto simp: get_or_create_def new_gate_def split: option.split sum.split)
next
  fix r :: registry and k k'
  show "k' \<noteq> k \<Longrightarrow> map_option Inr (dict_get (snd (get_or_create ms r k (int n))) k')
      = map_option (Inr :: gate \<Rightarrow> exn + gate) (dict_get r k')"
    by (simp add: get_or_create_find)
qed

lemma get_or_create_Inr:
  assumes "get_or_create ms reg key n = (Inr g, reg')"
  shows "dict_get reg' k = (if k = key then Some g else dict_get reg k)"
    and "dict_get reg key = Some g \<or> dict_get reg key = None \<and> new_gate key n ms = Inr g"
  using assms get_or_create_find [of ms reg key n k]
  by (auto simp: get_or_create_def split: option.splits sum.splits)

lemma create_gates_gate:
  assumes "create_gates te ro ba m = (m', Inr ())"
  shows "m_limits m' = m_limits m"
    and "r \<in> set (gate_path te ro ba) \<Longrightarrow> gate_at m' r \<noteq> None"
    and "gate_at m r = Some g \<Longrightarrow> gate_at m' r = Some g"
    and "gate_at m r = None \<Longrightarrow> gate_at m' r = Some g \<Longrightarrow>
           new_gate (ref_name r) (limit_of (m_limits m) r) (queue_timeout_ms (m_limits m)) = Inr g"
proof -
  let ?l = "m_limits m"
  let ?ms = "queue_timeout_ms ?l"
  obtain g1 r1 g2 r2 g3 r3 where
    1: "get_or_create ?ms (m_tenant m) (''tenant:'' @ te) (max_per_tenant ?l) = (Inr g1, r1)" and
    2: "get_or_create ?ms (m_route m) (''route:'' @ ro) (max_per_route ?l) = (Inr g2, r2)" and
    3: "get_or_create ?ms (m_backend m) (''backend:'' @ ba) (max_per_backend ?l) = (Inr g3, r3)" and
    m': "m' = m\<lparr>m_tenant := r1, m_route := r2, m_backend := r3\<rparr>"
    using assms by (auto simp: create_gates_def Let_def split: prod.splits sum.splits)
  note find = get_or_create_Inr(1) [OF 1] get_or_create_Inr(1) [OF 2] get_or_create_Inr(1) [OF 3]
  note new = get_or_create_Inr(2) [OF 1] get_or_create_Inr(2) [OF 2] get_or_create_Inr(2) [OF 3]
  show "m_limits m' = m_limits m" by (simp add: m')
  show "r \<in> set (gate_path te ro ba) \<Longrightarrow> gate_at m' r \<noteq> None"
    by (auto simp: m' gate_path_def find)
  show "gate_at m r = Some g \<Longrightarrow> gate_at m' r = Some g"
    using new by (cases r) (auto simp: m' find)
  show "gate_at m r = None \<Longrightarrow> gate_at m' r = Some g \<Longrightarrow>
      new_gate (ref_name r) (limit_of (m_limits m) r) (queue_timeout_ms (m_limits m)) = Inr g"
    using new by (cases r) (auto simp: m' find split: if_splits)
qed

lemma distinct_gate_path: "distinct (gate_path te ro ba)"
  by (simp add: gate_path_def)

lemma arrive_inv:
  assumes inv: "con_inv l s" and free: "cs_clients s t = None"
    and created: "create_gates te ro ba (cs_manager s) = (m, Inr ())"
  shows "con_inv l (set_client s t
    (m, \<lparr>c_path = gate_path te ro ba, c_held = 0, c_status = Acquiring\<rparr>))"
proof -
  let ?c = "\<lparr>c_path = gate_path te ro ba, c_held = 0, c_status = Acquiring\<rparr>"
  let ?s = "set_client s t (m, ?c)"
  note made = create_gates_gate [OF created]
  have c: "client_ok ?c" using distinct_gate_path by (simp add: client_ok_def) (simp add: gate_path_def)
  have "t \<notin> holders s r" "t \<notin> waiting_at s r" for r
    using free by (simp_all add: holders_def waiting_at_def)
  then have same: "holders ?s r = holders s r" "waiting_at ?s r = waiting_at s r" for r
    by (simp_all add: holders_set_client waiting_at_set_client held_gates_def waits_for_def)
  have "gate_fits l ?s r g" if g: "gate_at m r = Some g" for r g
  proof (cases "gate_at (cs_manager s) r")
    case (Some h)
    then have "h = g" using made(3) [OF Some] g by simp
    then show ?thesis using inv Some same by (simp add: con_inv_def gate_fits_def)
  next
    case None
    have unused: "r \<notin> set (c_path d)" if "cs_clients s u = Some d" for u d
      using con_inv_client [OF inv that] None by force
    have "set (held_gates d) \<subseteq> set (c_path d)" for d by (simp add: held_gates_def set_take_subset)
    then have "holders s r = {}" using unused by (auto simp: holders_def)
    moreover have "waiting_at s r = {}"
      using unused inv by (auto simp: waiting_at_def con_inv_def client_ok_def) (metis nth_mem)
    moreover have ng: "new_gate (ref_name r) (limit_of l r) (queue_timeout_ms l) = Inr g"
      using made(4) [OF None g] inv by (simp add: con_inv_def)
    moreover have "g_in_flight g = 0" "sem_waiters (g_semaphore g) = []"
      using ng by (auto simp: new_gate_def split: if_splits)
    ultimately show ?thesis using new_gate_inv [OF ng] by (simp add: gate_fits_def same)
  qed
  moreover have "gate_at m r \<noteq> None" if "gate_at (cs_manager s) r \<noteq> None" for r
    using that made(3) by auto
  ultimately show ?thesis
    using inv c made(1,2) by (auto simp: con_inv_def set_client_def split: if_splits)
qed

lemma con_start_inv: "con_start l s \<Longrightarrow> con_inv l s"
proof -
  assume "con_start l s"
  then obtain m where m: "new_manager l = Inr m" "s = \<lparr>cs_manager = m, cs_clients = Map.empty\<rparr>"
    by (auto simp: con_start_def)
  then obtain g where g: "new_gate ''global'' (max_global l) (queue_timeout_ms l) = Inr g"
    "m = \<lparr>m_limits = l, m_global = g, m_tenant = [], m_route = [], m_backend = []\<rparr>"
    by (auto simp: new_manager_def split: sum.splits)
  have "g_in_flight g = 0 \<and> sem_waiters (g_semaphore g) = []"
    using g(1) by (auto simp: new_gate_def split: if_splits)
  then have "gate_fits l s r h" if "gate_at m r = Some h" for r h
    using that g new_gate_inv [OF g(1)] m(2)
    by (cases r) (auto simp: gate_fits_def holders_def waiting_at_def)
  with m g(2) show ?thesis by (simp add: con_inv_def)
qed

lemma con_step_inv: "con_step s e s' \<Longrightarrow> con_inv l s \<Longrightarrow> con_inv l s'"
  by (induction rule: con_step.induct)
    (simp_all add: arrive_inv try_acquire_inv wake_client_inv timeout_client_inv finish_client_inv)

interpretation con: invariant_system "con_start l" con_step "con_inv l" for l
  by unfold_locales (auto simp: con_start_inv intro: con_step_inv)

section \<open>What the manager promises\<close>

text \<open>C6. Bounded concurrency: whatever requests arrive and however their acquisitions,
  wake-ups, time-outs and releases interleave, the number of requests that hold a gate (the global
  one, or that of any tenant, route or backend) equals the gate's \<^verbatim>\<open>in_flight\<close> counter and
  never exceeds the configured limit.\<close>

theorem concurrency_bounded:
  assumes "reach (con_start l) con_step s" and "gate_at (cs_manager s) r = Some g"
  shows "g_in_flight g = int (card (holders s r)) \<and> int (card (holders s r)) \<le> limit_of l r"
proof -
  have "gate_fits l s r g" using con.reach_inv [OF assms(1)] assms(2) by (simp add: con_inv_def)
  then show ?thesis by (auto simp: gate_fits_def gate_inv_def)
qed

text \<open>A run to instantiate the properties with: two requests and one slot per tenant.\<close>

definition ex_limits :: ConcurrencyLimits where
  "ex_limits = default_limits\<lparr>max_per_tenant := 1\<rparr>"

definition ex_manager :: manager where
  "ex_manager = \<lparr>m_limits = ex_limits,
     m_global = \<lparr>g_name = ''global'', g_limit = 1000, g_queue_timeout_ms = 500,
       g_semaphore = \<lparr>sem_value = 1000, sem_waiters = []\<rparr>, g_in_flight = 0\<rparr>,
     m_tenant = [], m_route = [], m_backend = []\<rparr>"

definition ex_start :: con_system where
  "ex_start = \<lparr>cs_manager = ex_manager, cs_clients = Map.empty\<rparr>"

definition ex_events :: "con_event list" where
  "ex_events = [Arrive 0 ''acme'' ''r1'' ''users'', Try 0 0, Try 0 0, Try 0 0, Try 0 0,
     Arrive 1 ''acme'' ''r1'' ''users'', Try 1 0, Try 1 0]"

definition ex_busy :: con_system where
  "ex_busy = the (con_exec ex_events ex_start)"

definition ex_freed :: con_system where
  "ex_freed = the (con_exec (ex_events @ [Finish 0]) ex_start)"

lemma con_apply_step:
  assumes "con_apply e s = Some s'"
  shows "con_step s e s'"
proof (cases e)
  case (Arrive t te ro ba)
  obtain m x where created: "create_gates te ro ba (cs_manager s) = (m, x)" by fastforce
  show ?thesis
  proof (cases "cs_clients s t")
    case None
    with assms created Arrive show ?thesis by (cases x) (auto intro: con_arrive)
  next
    case (Some c)
    with assms Arrive show ?thesis by simp
  qed
next
  case (Try t w)
  with assms show ?thesis by (auto split: option.splits if_splits intro: con_try)
next
  case (Wake t)
  with assms show ?thesis by (auto split: option.splits if_splits intro: con_wake)
next
  case (Expire t w)
  with assms show ?thesis by (auto split: option.splits if_splits intro: con_expire)
next
  case (Finish t)
  with assms show ?thesis by (auto split: option.splits if_splits intro: con_finish)
qed

lemma con_exec_reach:
  "reach (con_start l) con_step s \<Longrightarrow> con_exec es s = Some s' \<Longrightarrow> reach (con_start l) con_step s'"
  by (induction es arbitrary: s)
    (auto simp: bind_eq_Some_conv intro: reach_step con_apply_step)

lemma ex_start_reach: "reach (con_start ex_limits) con_step ex_start"
proof (rule reach_start)
  show "con_start ex_limits ex_start"
    unfolding con_start_def
    by (rule exI [of _ ex_manager])
      (simp add: ex_start_def ex_manager_def ex_limits_def new_manager_def new_gate_def
        default_limits_def)
qed

lemma ex_reach:
  "\<not> Option.is_none (con_exec es ex_start) \<Longrightarrow>
   reach (con_start ex_limits) con_step (the (con_exec es ex_start))"
  using con_exec_reach [OF ex_start_reach] by (auto simp: Option.is_none_def)

lemma ex_busy_reach: "reach (con_start ex_limits) con_step ex_busy"
  unfolding ex_busy_def by (rule ex_reach) code_simp

lemma ex_freed_reach: "reach (con_start ex_limits) con_step ex_freed"
  unfolding ex_freed_def by (rule ex_reach) code_simp

theorem concurrency_bounded_witness:
  "g_in_flight (the (gate_at (cs_manager ex_busy) (Tenant_Gate ''tenant:acme''))) = 1
   \<and> int (card (holders ex_busy (Tenant_Gate ''tenant:acme''))) \<le> 1"
proof -
  let ?r = "Tenant_Gate ''tenant:acme''"
  have some: "gate_at (cs_manager ex_busy) ?r = Some (the (gate_at (cs_manager ex_busy) ?r))"
    and one: "g_in_flight (the (gate_at (cs_manager ex_busy) ?r)) = 1"
    and lim: "limit_of ex_limits ?r = 1"
    by (code_simp, code_simp, code_simp)
  from concurrency_bounded [OF ex_busy_reach some] one lim show ?thesis by simp
qed

text \<open>C36. No lost wake-up: in every reachable state in which a gate has a free slot and requests
  wait for it, the future of one of the waiting requests has already been set, so that request will
  run and take the slot; a slot is never left idle while somebody waits.\<close>

theorem no_lost_wakeup:
  assumes "reach (con_start l) con_step s" and "gate_at (cs_manager s) r = Some g"
    and "g_in_flight g < g_limit g" and "waiting_at s r \<noteq> {}"
  shows "\<exists>t \<in> waiting_at s r. (t, True) \<in> set (sem_waiters (g_semaphore g))"
proof -
  have fits: "gate_fits l s r g"
    using con.reach_inv [OF assms(1)] assms(2) by (simp add: con_inv_def)
  let ?ws = "sem_waiters (g_semaphore g)"
  have "?ws \<noteq> []" using assms(4) fits by (auto simp: gate_fits_def)
  then have "0 < awake ?ws"
    using fits assms(3) no_sleeper_all_awake [of ?ws]
    by (cases "asleep ?ws") (auto simp: gate_fits_def gate_inv_def)
  then obtain t where "(t, True) \<in> set ?ws"
    by (auto simp: awake_def filter_empty_conv)
  moreover from this have "t \<in> waiting_at s r"
    using fits by (force simp: gate_fits_def)
  ultimately show ?thesis by blast
qed

theorem no_lost_wakeup_witness:
  "\<exists>t \<in> waiting_at ex_freed (Tenant_Gate ''tenant:acme'').
     (t, True) \<in> set (sem_waiters (g_semaphore
        (the (gate_at (cs_manager ex_freed) (Tenant_Gate ''tenant:acme'')))))"
proof -
  let ?r = "Tenant_Gate ''tenant:acme''"
  let ?g = "the (gate_at (cs_manager ex_freed) ?r)"
  have some: "gate_at (cs_manager ex_freed) ?r = Some ?g" and free: "g_in_flight ?g < g_limit ?g"
    and w: "map_option (\<lambda>c. (c_status c, c_path c ! c_held c)) (cs_clients ex_freed 1) = Some (Waiting, ?r)"
    by (code_simp, code_simp, code_simp)
  from w have "waiting_at ex_freed ?r \<noteq> {}" by (auto simp: waiting_at_def)
  from no_lost_wakeup [OF ex_freed_reach some free this] show ?thesis .
qed

text \<open>
  Nothing leaks: when every request that ever arrived has finished or been rejected,
  every gate is back to zero requests in flight, an empty queue and its full value.\<close>

lemma all_slots_returned:
  assumes "reach (con_start l) con_step s" and "gate_at (cs_manager s) r = Some g"
    and "\<forall>t c. cs_clients s t = Some c \<longrightarrow> (\<exists>e. c_status c = Finished e)"
  shows "g_in_flight g = 0 \<and> sem_waiters (g_semaphore g) = []
    \<and> sem_value (g_semaphore g) = limit_of l r"
proof -
  have inv: "con_inv l s" using assms(1) by (rule con.reach_inv)
  then have fits: "gate_fits l s r g" using assms(2) by (simp add: con_inv_def)
  have "held_gates c = [] \<and> c_status c \<noteq> Waiting" if "cs_clients s t = Some c" for t c
    using con_inv_client [OF inv that] assms(3) that by (fastforce simp: client_ok_def held_gates_def)
  then have "holders s r = {}" "waiting_at s r = {}"
    by (auto simp: holders_def waiting_at_def)
  then show ?thesis using fits by (auto simp: gate_fits_def gate_inv_def)
qed

definition ex_done :: con_system where
  "ex_done = the (con_exec (ex_events @ [Expire 1 500, Finish 0]) ex_start)"

lemma con_step_other: "con_step s e s' \<Longrightarrow> u \<noteq> event_task e \<Longrightarrow> cs_clients s' u = cs_clients s u"
  by (induction rule: con_step.induct) (simp_all add: set_client_def)

lemma con_exec_other:
  "con_exec es s = Some s' \<Longrightarrow> u \<notin> event_task ` set es \<Longrightarrow> cs_clients s' u = cs_clients s u"
  by (induction es arbitrary: s)
    (auto simp: bind_eq_Some_conv dest!: con_apply_step con_step_other)

lemma all_slots_returned_example:
  "sem_value (g_semaphore (the (gate_at (cs_manager ex_done) (Tenant_Gate ''tenant:acme'')))) = 1"
proof -
  let ?r = "Tenant_Gate ''tenant:acme''"
  let ?es = "ex_events @ [Expire 1 500, Finish 0]"
  have run: "con_exec ?es ex_start = Some ex_done"
  proof -
    have "\<not> Option.is_none (con_exec ?es ex_start)" by code_simp
    then show ?thesis by (auto simp: ex_done_def Option.is_none_def)
  qed
  have some: "gate_at (cs_manager ex_done) ?r = Some (the (gate_at (cs_manager ex_done) ?r))"
    and lim: "limit_of ex_limits ?r = 1"
    and fin: "map_option c_status (cs_clients ex_done 0) = Some (Finished None)"
      "map_option c_status (cs_clients ex_done 1) =
         Some (Finished (Some (BackpressureRejected ''tenant:acme'' 500)))"
    by (code_simp, code_simp, code_simp, code_simp)
  have "cs_clients ex_done t = None" if "t \<noteq> 0" "t \<noteq> 1" for t
    using con_exec_other [OF run, of t] that by (simp add: ex_events_def ex_start_def)
  then have two: "t = 0 \<or> t = 1" if "cs_clients ex_done t = Some c" for t c
    using that by fastforce
  have "\<exists>e. c_status c = Finished e" if c: "cs_clients ex_done t = Some c" for t c
    using two [OF c] fin c by auto
  then have "\<forall>t c. cs_clients ex_done t = Some c \<longrightarrow> (\<exists>e. c_status c = Finished e)" by blast
  from all_slots_returned [OF con_exec_reach [OF ex_start_reach run] some this] lim
  show ?thesis by simp
qed

text \<open>A request whose wait expires is rejected with the name of the gate it was queued at,
  gives back every slot it held, and no other request is affected.\<close>

theorem expired_request_rejected:
  assumes "reach (con_start l) con_step s" and "con_step s (Expire t w) s'"
    and "cs_clients s t = Some c"
  shows "map_option c_status (cs_clients s' t) =
      Some (Finished (Some (BackpressureRejected (ref_name (c_path c ! c_held c)) w)))
    \<and> (\<forall>r. holders s' r = holders s r - {t})
    \<and> (\<forall>u. u \<noteq> t \<longrightarrow> cs_clients s' u = cs_clients s u)"
proof -
  have inv: "con_inv l s" using assms(1) by (rule con.reach_inv)
  have st: "c_status c = Waiting" and s': "s' = set_client s t (timeout_client t w c (cs_manager s))"
    using assms(2,3) by (auto elim: con_step.cases)
  obtain g where g: "gate_at (cs_manager s) (c_path c ! c_held c) = Some g"
    using next_gate [OF inv assms(3)] st by blast
  then have "g_name g = ref_name (c_path c ! c_held c)"
    using inv by (simp add: con_inv_def gate_fits_def)
  with g s' have eq: "s' = set_client s t (fst (timeout_client t w c (cs_manager s)),
      leave (Some (BackpressureRejected (ref_name (c_path c ! c_held c)) w)) c)"
    by (simp add: timeout_client_def gate_timeout_def Let_def)
  then have "\<forall>r. holders s' r = holders s r - {t}" by (simp add: holders_set_client)
  with eq show ?thesis by (simp add: set_client_def leave_def)
qed

theorem expired_request_rejected_witness:
  "map_option c_status (cs_clients
      (set_client ex_busy 1 (timeout_client 1 500 (the (cs_clients ex_busy 1)) (cs_manager ex_busy))) 1)
   = Some (Finished (Some (BackpressureRejected ''tenant:acme'' 500)))"
proof -
  let ?c = "the (cs_clients ex_busy 1)"
  have w: "map_option c_status (cs_clients ex_busy 1) = Some Waiting"
    and r: "ref_name (c_path ?c ! c_held ?c) = ''tenant:acme''"
    by (code_simp, code_simp)
  from w have c: "cs_clients ex_busy 1 = Some ?c" "c_status ?c = Waiting" by auto
  show ?thesis
    using expired_request_rejected [OF ex_busy_reach con_expire [OF c] c(1), of 500] r by simp
qed

definition wall_inv :: "ConcurrencyLimits \<Rightarrow> con_system \<Rightarrow> bool" where
  "wall_inv l s \<longleftrightarrow> m_limits (cs_manager s) = l
   \<and> (\<forall>r g. gate_at (cs_manager s) r = Some g \<longrightarrow> g_queue_timeout_ms g \<le> 0)
   \<and> (\<forall>t c. cs_clients s t = Some c \<longrightarrow>
        c_held c = 0 \<and> c_status c \<noteq> Waiting \<and> c_status c \<noteq> Inside)"

lemma wall_arrive:
  assumes "queue_timeout_ms l \<le> 0" and "wall_inv l s"
    and "create_gates te ro ba (cs_manager s) = (m, Inr ())"
  shows "wall_inv l (set_client s t
    (m, \<lparr>c_path = gate_path te ro ba, c_held = 0, c_status = Acquiring\<rparr>))"
proof -
  note made = create_gates_gate [OF assms(3)]
  have "g_queue_timeout_ms g \<le> 0" if g: "gate_at m r = Some g" for r g
  proof (cases "gate_at (cs_manager s) r")
    case None
    then show ?thesis
      using made(4) [OF None g] assms(1,2) by (auto simp: wall_inv_def new_gate_def split: if_splits)
  next
    case (Some h)
    then show ?thesis using made(3) [OF Some] g assms(2) by (auto simp: wall_inv_def)
  qed
  then show ?thesis using assms(2) made(1) by (auto simp: wall_inv_def set_client_def)
qed

lemma wall_try:
  assumes inv: "wall_inv l s" and c: "cs_clients s t = Some c"
  shows "wall_inv l (set_client s t (try_acquire t w c (cs_manager s)))"
proof (cases "gate_at (cs_manager s) (c_path c ! c_held c)")
  case None
  then show ?thesis using inv c by (auto simp: wall_inv_def set_client_def try_acquire_def Let_def)
next
  case (Some g)
  then have "g_queue_timeout_ms g \<le> 0" "held_gates c = []"
    using inv c by (auto simp: wall_inv_def held_gates_def)
  then show ?thesis
    using Some inv c
    by (auto simp: wall_inv_def set_client_def try_acquire_def Let_def gate_enter_def leave_def)
qed

lemma wall_step:
  assumes "con_step s e s'" and "queue_timeout_ms l \<le> 0" and "wall_inv l s"
  shows "wall_inv l s'"
  using assms
proof (induction rule: con_step.induct)
  case (con_arrive s t te ro ba m)
  then show ?case by (simp add: wall_arrive)
next
  case (con_try s t c w)
  then show ?case by (simp add: wall_try)
qed (auto simp: wall_inv_def)

lemma wall_start: "con_start l s \<Longrightarrow> queue_timeout_ms l \<le> 0 \<Longrightarrow> wall_inv l s"
proof -
  assume "con_start l s" "queue_timeout_ms l \<le> 0"
  then obtain g where "s = \<lparr>cs_manager = \<lparr>m_limits = l, m_global = g, m_tenant = [], m_route = [],
      m_backend = []\<rparr>, cs_clients = Map.empty\<rparr>" "g_queue_timeout_ms g \<le> 0"
    by (auto simp: con_start_def new_manager_def new_gate_def split: sum.splits if_splits)
  moreover have "gate_at \<lparr>m_limits = l, m_global = g, m_tenant = [], m_route = [], m_backend = []\<rparr> r
      = (if r = Global_Gate then Some g else None)" for r
    by (cases r) simp_all
  ultimately show ?thesis by (simp add: wall_inv_def)
qed

text \<open>A configured queue time-out of zero or less closes the gateway: no request ever gets
  past the gates, although all slots are free, because \<^verbatim>\<open>wait_for\<close> cancels the acquisition
  before it starts.\<close>

theorem nonpositive_timeout_admits_nobody:
  assumes "reach (con_start l) con_step s" and "queue_timeout_ms l \<le> 0"
    and "cs_clients s t = Some c"
  shows "c_status c \<noteq> Inside \<and> held_gates c = []"
proof -
  have "wall_inv l s"
    using assms(1)
    by (induction rule: reach.induct) (auto intro: wall_start wall_step assms(2))
  then show ?thesis using assms(3) by (simp add: wall_inv_def held_gates_def)
qed

definition ex_wall :: con_system where
  "ex_wall = \<lparr>cs_manager = ex_manager\<lparr>m_limits := ex_limits\<lparr>queue_timeout_ms := 0\<rparr>,
     m_global := m_global ex_manager\<lparr>g_queue_timeout_ms := 0\<rparr>\<rparr>, cs_clients = Map.empty\<rparr>"

theorem nonpositive_timeout_admits_nobody_witness:
  "c_status (the (cs_clients (the (con_exec [Arrive 0 ''acme'' ''r1'' ''users'', Try 0 0] ex_wall)) 0))
     \<noteq> Inside"
proof -
  let ?l = "ex_limits\<lparr>queue_timeout_ms := 0\<rparr>"
  let ?es = "[Arrive 0 ''acme'' ''r1'' ''users'', Try 0 0]"
  let ?s = "the (con_exec ?es ex_wall)"
  have "con_start ?l ex_wall"
    unfolding con_start_def
    by (rule exI [of _ "cs_manager ex_wall"])
      (simp add: ex_wall_def ex_manager_def ex_limits_def new_manager_def new_gate_def
        default_limits_def)
  moreover have "\<not> Option.is_none (con_exec ?es ex_wall)" by code_simp
  then have "con_exec ?es ex_wall = Some ?s" by (auto simp: Option.is_none_def)
  ultimately have r: "reach (con_start ?l) con_step ?s"
    by (blast intro: reach_start con_exec_reach)
  have c: "cs_clients ?s 0 = Some (the (cs_clients ?s 0))"
  proof -
    have "\<not> Option.is_none (cs_clients ?s 0)" by code_simp
    then show ?thesis by (auto simp: Option.is_none_def)
  qed
  from nonpositive_timeout_admits_nobody [OF r _ c] show ?thesis by simp
qed

text \<open>Load shedding follows the order of the priorities and of the load.\<close>

fun priority_rank :: "Priority \<Rightarrow> nat" where
  "priority_rank LOW = 0"
| "priority_rank NORMAL = 1"
| "priority_rank HIGH = 2"

instantiation Priority :: linorder
begin

definition less_eq_Priority :: "Priority \<Rightarrow> Priority \<Rightarrow> bool" where
  "less_eq_Priority p q \<longleftrightarrow> priority_rank p \<le> priority_rank q"

definition less_Priority :: "Priority \<Rightarrow> Priority \<Rightarrow> bool" where
  "less_Priority p q \<longleftrightarrow> priority_rank p < priority_rank q"

instance
proof
  fix p q :: Priority
  assume "p \<le> q" "q \<le> p"
  then show "p = q" by (cases p; cases q) (simp_all add: less_eq_Priority_def)
qed (auto simp: less_eq_Priority_def less_Priority_def)

end

text \<open>HIGH traffic is never shed; with the low watermark not above the normal one, whatever sheds a
  priority sheds every lower one; and what is shed at some load is shed at every higher load.\<close>

theorem shedding_ordered:
  assumes "high_watermark_low s \<le> high_watermark_normal s"
  shows "\<not> should_shed s HIGH n \<and> (p \<le> q \<and> n \<le> n' \<and> should_shed s q n \<longrightarrow> should_shed s p n')"
  using assms by (cases p; cases q) (auto simp: should_shed_def less_eq_Priority_def)

theorem shedding_ordered_witness:
  "should_shed \<lparr>high_watermark_low = 700, high_watermark_normal = 900\<rparr> LOW 950"
  using shedding_ordered [of "\<lparr>high_watermark_low = 700, high_watermark_normal = 900\<rparr>" 950 LOW NORMAL 950]
  by (simp add: should_shed_def less_eq_Priority_def)

end
