(* ===== verification/Retry_Policy.thy ===== *)
theory Retry_Policy
  imports Sentinel_Prelude
begin

text \<open>
  Retry classification, backoff and the request deadline of
  \<^verbatim>\<open>src/apps/gateway/retry/policy.py\<close>.

  \<^verbatim>\<open>random.uniform(0, ceiling)\<close> is \<open>ceiling * u\<close> for the value \<open>u\<close> the
  generator draws from the half-open unit interval; the draw is an argument. The clock values a
  \<^verbatim>\<open>DeadlineTracker\<close> reads are arguments in the same way. The lemmas characterise the
  retry decision, the jitter interval and its doubling, and the arithmetic of the shared deadline
  that the pipeline's bound on attempts rests on.
\<close>

section \<open>Data\<close>

datatype FailureKind =
    CONNECTION_ERROR
  | TIMEOUT
  | HTTP_502
  | HTTP_503
  | HTTP_504
  | HTTP_4XX
  | HTTP_OTHER_5XX
  | SUCCESS

definition DEFAULT_RETRYABLE :: "FailureKind list" where
  "DEFAULT_RETRYABLE = [CONNECTION_ERROR, TIMEOUT, HTTP_502, HTTP_503, HTTP_504]"

definition IDEMPOTENT_METHODS :: "string list" where
  "IDEMPOTENT_METHODS = [''GET'', ''HEAD'', ''PUT'', ''DELETE'', ''OPTIONS'']"

record RetryPolicy =
  max_attempts :: int
  base_backoff_ms :: int
  total_deadline_ms :: int
  retryable_failures :: "FailureKind list"
  allow_non_idempotent :: bool

definition default_retry_policy :: RetryPolicy where
  "default_retry_policy =
     \<lparr>max_attempts = 2, base_backoff_ms = 100, total_deadline_ms = 2000,
      retryable_failures = DEFAULT_RETRYABLE, allow_non_idempotent = False\<rparr>"

section \<open>Operations\<close>

definition is_retryable :: "string \<Rightarrow> FailureKind \<Rightarrow> RetryPolicy \<Rightarrow> bool \<Rightarrow> bool" where
  "is_retryable meth failure_kind policy circuit_is_open =
     (if circuit_is_open then False
      else if failure_kind \<notin> set (retryable_failures policy) then False
      else if py_upper meth \<notin> set IDEMPOTENT_METHODS \<and> \<not> allow_non_idempotent policy then False
      else True)"

definition compute_backoff_ms :: "py_float \<Rightarrow> int \<Rightarrow> int \<Rightarrow> py_float" where
  "compute_backoff_ms draw attempt base =
     (let ceiling = of_int base * (2 powi (attempt - 1)) in ceiling * draw)"

record DeadlineTracker =
  dl_start :: seconds
  dl_total :: seconds

definition new_deadline :: "int \<Rightarrow> seconds \<Rightarrow> DeadlineTracker" where
  "new_deadline total_ms clock = \<lparr>dl_start = clock, dl_total = of_int total_ms / 1000\<rparr>"

definition remaining_seconds :: "DeadlineTracker \<Rightarrow> seconds \<Rightarrow> seconds" where
  "remaining_seconds d clock = (let elapsed = clock - dl_start d in max 0 (dl_total d - elapsed))"

definition has_budget_for :: "DeadlineTracker \<Rightarrow> seconds \<Rightarrow> py_float \<Rightarrow> bool" where
  "has_budget_for d clock planned_ms \<longleftrightarrow> remaining_seconds d clock > planned_ms / 1000"

definition classify_http_status :: "int \<Rightarrow> FailureKind" where
  "classify_http_status status_code =
     (if status_code = 502 then HTTP_502
      else if status_code = 503 then HTTP_503
      else if status_code = 504 then HTTP_504
      else if 400 \<le> status_code \<and> status_code < 500 then HTTP_4XX
      else if 500 \<le> status_code \<and> status_code < 600 then HTTP_OTHER_5XX
      else SUCCESS)"

section \<open>Lemmas\<close>

lemma classify_success_iff:
  "classify_http_status s = SUCCESS \<longleftrightarrow> s < 400 \<or> 600 \<le> s"
  by (auto simp: classify_http_status_def)

lemma classify_retryable_iff:
  "classify_http_status s \<in> set DEFAULT_RETRYABLE \<longleftrightarrow> s \<in> {502, 503, 504}"
  by (auto simp: classify_http_status_def DEFAULT_RETRYABLE_def)

lemma remaining_nonneg [simp]: "0 \<le> remaining_seconds d t"
  by (simp add: remaining_seconds_def)

lemma remaining_antimono: "t \<le> u \<Longrightarrow> remaining_seconds d u \<le> remaining_seconds d t"
  by (simp add: remaining_seconds_def)

lemma remaining_pos_iff:
  "0 < remaining_seconds d t \<longleftrightarrow> t < dl_start d + dl_total d"
  by (auto simp: remaining_seconds_def)

lemma remaining_pos_value:
  "0 < remaining_seconds d t \<Longrightarrow> t + remaining_seconds d t = dl_start d + dl_total d"
  by (simp add: remaining_seconds_def)

lemma budget_leaves_time:
  "has_budget_for d t ms \<Longrightarrow> 0 \<le> ms \<Longrightarrow> t + ms / 1000 < dl_start d + dl_total d"
  by (auto simp: has_budget_for_def remaining_seconds_def Let_def max_def split: if_splits)

lemma ceiling_doubles:
  "1 \<le> attempt \<Longrightarrow> (2::rat) powi (attempt + 1 - 1) = 2 * 2 powi (attempt - 1)"
  by (simp add: power_int_diff)

text \<open>With the default policy a failed attempt is retried exactly when the circuit is not
  open, the failure is a connection error, a time-out or a status 502, 503 or 504, and the method
  is one of GET, HEAD, PUT, DELETE, OPTIONS in any letter case; in particular a POST or PATCH and
  a 4xx response are never retried.\<close>

theorem default_retry_decision:
  "(is_retryable meth kind default_retry_policy is_open \<longleftrightarrow>
      \<not> is_open \<and> kind \<notin> {HTTP_4XX, HTTP_OTHER_5XX, SUCCESS}
      \<and> py_upper meth \<in> {''GET'', ''HEAD'', ''PUT'', ''DELETE'', ''OPTIONS''})
   \<and> \<not> is_retryable ''POST'' kind default_retry_policy is_open
   \<and> \<not> is_retryable ''patch'' kind default_retry_policy is_open
   \<and> (is_retryable ''get'' (classify_http_status s) default_retry_policy False \<longleftrightarrow>
        s \<in> {502, 503, 504})"
proof -
  have up: "py_upper ''POST'' \<notin> set IDEMPOTENT_METHODS" "py_upper ''patch'' \<notin> set IDEMPOTENT_METHODS"
    "py_upper ''get'' \<in> set IDEMPOTENT_METHODS"
    by (code_simp, code_simp, code_simp)
  have "is_retryable meth kind default_retry_policy is_open \<longleftrightarrow>
      \<not> is_open \<and> kind \<notin> {HTTP_4XX, HTTP_OTHER_5XX, SUCCESS}
      \<and> py_upper meth \<in> {''GET'', ''HEAD'', ''PUT'', ''DELETE'', ''OPTIONS''}"
    by (cases kind)
      (auto simp: is_retryable_def default_retry_policy_def DEFAULT_RETRYABLE_def
        IDEMPOTENT_METHODS_def)
  moreover have "is_retryable ''get'' (classify_http_status s) default_retry_policy False \<longleftrightarrow>
      s \<in> {502, 503, 504}"
    using classify_retryable_iff [of s] up(3) by (simp add: is_retryable_def default_retry_policy_def)
  ultimately show ?thesis using up by (simp add: is_retryable_def default_retry_policy_def)
qed

text \<open>The backoff before attempt \<open>attempt + 1\<close> is full jitter: for a generator draw in
  the unit interval it lies between 0 and \<open>base * 2 ^ (attempt - 1)\<close> milliseconds, and that
  ceiling doubles from one attempt to the next.\<close>

theorem backoff_full_jitter:
  assumes "1 \<le> attempt" and "0 \<le> base" and "0 \<le> draw" and "draw < 1"
  shows "0 \<le> compute_backoff_ms draw attempt base
    \<and> compute_backoff_ms draw attempt base \<le> of_int base * 2 ^ nat (attempt - 1)
    \<and> (0 < base \<longrightarrow> compute_backoff_ms draw attempt base < of_int base * 2 ^ nat (attempt - 1))
    \<and> compute_backoff_ms draw (attempt + 1) base = 2 * compute_backoff_ms draw attempt base"
proof -
  have pw: "(2::rat) powi (attempt - 1) = 2 ^ nat (attempt - 1)"
    using assms(1) by (simp add: power_int_def)
  let ?c = "of_int base * 2 ^ nat (attempt - 1) :: rat"
  have c: "0 \<le> ?c" using assms(2) by simp
  have "?c * draw \<le> ?c" using c assms(4) by (simp add: mult_left_le)
  moreover have "0 < base \<longrightarrow> ?c * draw < ?c" using assms(4) by simp
  moreover have "(2::rat) powi (attempt + 1 - 1) = 2 * 2 ^ nat (attempt - 1)"
    using ceiling_doubles [OF assms(1)] pw by simp
  ultimately show ?thesis
    using c assms(3) pw by (simp add: compute_backoff_ms_def Let_def)
qed

theorem backoff_full_jitter_witness:
  "0 \<le> compute_backoff_ms (1/2) 3 100 \<and> compute_backoff_ms (1/2) 3 100 \<le> of_int 100 * 2 ^ nat (3 - 1)"
  using backoff_full_jitter [of 3 100 "1/2"] by simp

end
