(* ===== verification/Router.thy ===== *)
theory Router
  imports Sentinel_Prelude "HOL-Library.Multiset" "HOL-Library.Sublist"
begin

text \<open>
  Route matching and backend selection of \<^verbatim>\<open>src/apps/gateway/routing/router.py\<close>.

  \<open>fnmatch\<close> is the standard library's \<^verbatim>\<open>fnmatch.fnmatch\<close> on a POSIX system, where
  \<^verbatim>\<open>normcase\<close> is the identity: the pattern is translated (\<open>translate\<close>: stars,
  question marks, bracket sets with the library's rules for a leading \<^verbatim>\<open>!\<close> and
  \<^verbatim>\<open>]\<close>, for hyphens and for unclosed brackets) and the translation is matched against
  the whole path. \<^verbatim>\<open>random.shuffle\<close> is an argument of the selector, assumed to permute
  its list where that matters; \<^verbatim>\<open>itertools.cycle\<close> is a list with a position.
  Backend instances are shared mutable objects (the health checker writes the status the selector
  reads), so they live in a store and lists of instances are lists of references into it.

  The lemmas show that matching agrees with the language a pattern denotes, which for patterns that
  are a prefix and a star makes routing a choice by prefix, that a route is
  returned exactly when the tenant has a suitable one and is then the first such, that grouping by
  tenant is a filter, that a selected instance is healthy at the moment it is selected, that
  selection fails exactly when nothing is healthy, and that one full round visits every instance as
  often as its weight says.
\<close>

section \<open>Data\<close>

datatype InstanceStatus = HEALTHY | UNHEALTHY | DRAINING | UNKNOWN

record BackendInstance =
  bi_id :: string
  bi_host :: string
  bi_port :: int
  bi_weight :: int
  bi_status :: InstanceStatus
  bi_failure_count :: int

definition instance_url :: "BackendInstance \<Rightarrow> string" where
  "instance_url i = ''http://'' @ bi_host i @ '':'' @ py_str_int (bi_port i)"

definition is_routable :: "BackendInstance \<Rightarrow> bool" where
  "is_routable i \<longleftrightarrow> bi_status i = HEALTHY"

record RouteDefinition =
  rt_id :: string
  rt_tenant_id :: string
  rt_name :: string
  rt_path_pattern :: string
  rt_http_methods :: "string list"
  rt_backend_service_id :: string
  rt_timeout_ms :: int
  rt_priority :: string
  rt_enabled :: bool

section \<open>The standard library's fnmatch\<close>

datatype set_item = Single char | Range char char

datatype glob =
    Lit char
  | AnyChar
  | Star
  | CharSet bool "set_item list"

text \<open>A hyphen with a character on both sides makes a range; everything else stands for itself.\<close>

fun set_items :: "string \<Rightarrow> set_item list" where
  "set_items (a # CHR ''-'' # b # s) = Range a b # set_items s"
| "set_items (a # s) = Single a # set_items s"
| "set_items [] = []"

text \<open>
  The body of a bracket set and the rest of the pattern: a closing bracket in the first place (after
  an optional \<^verbatim>\<open>!\<close>) is a member; no closing bracket at all means the opening one is a
  literal.
\<close>

definition until_bracket :: "string \<Rightarrow> (string \<times> string) option" where
  "until_bracket s =
     (case dropWhile (\<lambda>c. c \<noteq> CHR '']'') s of
        [] \<Rightarrow> None
      | _ # rest \<Rightarrow> Some (takeWhile (\<lambda>c. c \<noteq> CHR '']'') s, rest))"

definition set_body :: "string \<Rightarrow> (string \<times> string) option" where
  "set_body s =
     (case s of
        CHR '']'' # s' \<Rightarrow>
          map_option (\<lambda>(body, rest). (CHR '']'' # body, rest)) (until_bracket s')
      | _ \<Rightarrow> until_bracket s)"

definition bracket :: "string \<Rightarrow> (glob \<times> string) option" where
  "bracket s =
     (case s of
        CHR ''!'' # s' \<Rightarrow>
          map_option (\<lambda>(body, rest). (CharSet True (set_items body), rest)) (set_body s')
      | _ \<Rightarrow> map_option (\<lambda>(body, rest). (CharSet False (set_items body), rest)) (set_body s))"

lemma length_until_bracket: "until_bracket s = Some (b, r) \<Longrightarrow> length r < length s"
proof -
  assume "until_bracket s = Some (b, r)"
  then obtain c where "dropWhile (\<lambda>c. c \<noteq> CHR '']'') s = c # r"
    by (auto simp: until_bracket_def split: list.splits)
  then show ?thesis using length_dropWhile_le [of "\<lambda>c. c \<noteq> CHR '']''" s] by simp
qed

lemma length_set_body: "set_body s = Some (b, r) \<Longrightarrow> length r < length s"
  by (auto simp: set_body_def split: list.splits char.splits if_splits bool.splits
      dest!: length_until_bracket)

lemma length_bracket: "bracket s = Some (g, r) \<Longrightarrow> length r < length s"
  by (auto simp: bracket_def split: list.splits char.splits if_splits bool.splits
      dest!: length_set_body)

function translate :: "string \<Rightarrow> glob list" where
  "translate [] = []"
| "translate (c # s) =
     (if c = CHR ''*'' then Star # translate s
      else if c = CHR ''?'' then AnyChar # translate s
      else if c = CHR ''['' then
        (case bracket s of None \<Rightarrow> Lit CHR ''['' # translate s | Some (g, r) \<Rightarrow> g # translate r)
      else Lit c # translate s)"
  by pat_completeness auto
termination
  by (relation "measure length") (auto dest: length_bracket)

fun in_item :: "char \<Rightarrow> set_item \<Rightarrow> bool" where
  "in_item c (Single a) \<longleftrightarrow> c = a"
| "in_item c (Range a b) \<longleftrightarrow>
     (of_char a :: nat) \<le> of_char c \<and> (of_char c :: nat) \<le> of_char b"

fun glob_match :: "glob list \<Rightarrow> string \<Rightarrow> bool" where
  "glob_match [] s \<longleftrightarrow> s = []"
| "glob_match (Star # gs) [] \<longleftrightarrow> glob_match gs []"
| "glob_match (Star # gs) (c # s) \<longleftrightarrow> glob_match gs (c # s) \<or> glob_match (Star # gs) s"
| "glob_match (Lit a # gs) (c # s) \<longleftrightarrow> c = a \<and> glob_match gs s"
| "glob_match (AnyChar # gs) (c # s) \<longleftrightarrow> glob_match gs s"
| "glob_match (CharSet neg its # gs) (c # s) \<longleftrightarrow>
     (list_ex (in_item c) its \<noteq> neg) \<and> glob_match gs s"
| "glob_match (_ # gs) [] \<longleftrightarrow> False"

definition fnmatch :: "string \<Rightarrow> string \<Rightarrow> bool" where
  "fnmatch path pat \<longleftrightarrow> glob_match (translate pat) path"

text \<open>The language of a translated pattern, as a set of strings.\<close>

fun glob_char :: "glob \<Rightarrow> string set" where
  "glob_char (Lit a) = {[a]}"
| "glob_char AnyChar = {[c] | c. True}"
| "glob_char (CharSet neg its) = {[c] | c. (\<exists>i \<in> set its. in_item c i) \<noteq> neg}"
| "glob_char Star = UNIV"

fun glob_lang :: "glob list \<Rightarrow> string set" where
  "glob_lang [] = {[]}"
| "glob_lang (g # gs) = {u @ v | u v. u \<in> glob_char g \<and> v \<in> glob_lang gs}"

section \<open>Route matching\<close>

type_synonym route_table = "(string, RouteDefinition list) dict"

fun by_tenant :: "RouteDefinition list \<Rightarrow> route_table \<Rightarrow> route_table" where
  "by_tenant [] d = d"
| "by_tenant (r # rs) d =
     by_tenant rs (dict_set d (rt_tenant_id r)
       ((case dict_get d (rt_tenant_id r) of None \<Rightarrow> [] | Some l \<Rightarrow> l) @ [r]))"

definition new_matcher :: "RouteDefinition list \<Rightarrow> route_table" where
  "new_matcher routes = by_tenant routes []"

fun match_candidates :: "RouteDefinition list \<Rightarrow> string \<Rightarrow> string \<Rightarrow> RouteDefinition option" where
  "match_candidates [] meth path = None"
| "match_candidates (route # rs) meth path =
     (if \<not> rt_enabled route then match_candidates rs meth path
      else if py_upper meth \<notin> set (map py_upper (rt_http_methods route))
        then match_candidates rs meth path
      else if fnmatch path (rt_path_pattern route) then Some route
      else match_candidates rs meth path)"

definition match_route :: "route_table \<Rightarrow> string \<Rightarrow> string \<Rightarrow> string \<Rightarrow> exn + RouteDefinition" where
  "match_route m tenant_id meth path =
     (let candidates = (case dict_get m tenant_id of None \<Rightarrow> [] | Some l \<Rightarrow> l) in
      case match_candidates candidates meth path of
        Some route \<Rightarrow> Inr route
      | None \<Rightarrow> Inl (RouteNotFoundError
          (''no route for '' @ tenant_id @ '' '' @ meth @ '' '' @ path)))"

definition serves :: "string \<Rightarrow> string \<Rightarrow> RouteDefinition \<Rightarrow> bool" where
  "serves meth path r \<longleftrightarrow>
     rt_enabled r \<and> py_upper meth \<in> py_upper ` set (rt_http_methods r)
   \<and> fnmatch path (rt_path_pattern r)"

section \<open>Backend selection\<close>

type_synonym instance_ref = nat

type_synonym instance_store = "instance_ref \<Rightarrow> BackendInstance"

record selector =
  sel_cycles :: "(string, instance_ref list \<times> nat) dict"
  sel_last_seen :: "(string, (string \<times> int) list) dict"

definition new_selector :: selector where
  "new_selector = \<lparr>sel_cycles = [], sel_last_seen = []\<rparr>"

definition expand :: "instance_store \<Rightarrow> instance_ref list \<Rightarrow> instance_ref list" where
  "expand st routable = concat (map (\<lambda>r. replicate (nat (max 1 (bi_weight (st r)))) r) routable)"

definition signature :: "instance_store \<Rightarrow> instance_ref list \<Rightarrow> (string \<times> int) list" where
  "signature st routable = map (\<lambda>r. (bi_id (st r), bi_weight (st r))) routable"

definition rebuild ::
  "instance_store \<Rightarrow> (instance_ref list \<Rightarrow> instance_ref list) \<Rightarrow> string \<Rightarrow> instance_ref list \<Rightarrow>
   selector \<Rightarrow> selector" where
  "rebuild st shuffle service_id routable sel =
     sel\<lparr>sel_cycles := dict_set (sel_cycles sel) service_id (shuffle (expand st routable), 0),
         sel_last_seen := dict_set (sel_last_seen sel) service_id (signature st routable)\<rparr>"

definition next_of_cycle :: "string \<Rightarrow> selector \<Rightarrow> (selector, instance_ref) outcome" where
  "next_of_cycle service_id sel =
     (case dict_get (sel_cycles sel) service_id of
        None \<Rightarrow> (sel, Inl (KeyError service_id))
      | Some (xs, pos) \<Rightarrow>
          if xs = [] then (sel, Inl (OtherException ''StopIteration''))
          else (sel\<lparr>sel_cycles := dict_set (sel_cycles sel) service_id (xs, Suc pos mod length xs)\<rparr>,
                Inr (xs ! pos)))"

definition select ::
  "instance_store \<Rightarrow> (instance_ref list \<Rightarrow> instance_ref list) \<Rightarrow> selector \<Rightarrow> string \<Rightarrow>
   instance_ref list \<Rightarrow> (selector, instance_ref) outcome" where
  "select st shuffle sel service_id instances =
     (let routable = filter (\<lambda>r. is_routable (st r)) instances in
      if routable = [] then (sel, Inl (NoHealthyBackendError service_id))
      else
        let sel1 = (if dict_get (sel_last_seen sel) service_id \<noteq> Some (signature st routable)
                    then rebuild st shuffle service_id routable sel else sel)
        in next_of_cycle service_id sel1)"

fun select_many ::
  "nat \<Rightarrow> instance_store \<Rightarrow> (instance_ref list \<Rightarrow> instance_ref list) \<Rightarrow> selector \<Rightarrow> string \<Rightarrow>
   instance_ref list \<Rightarrow> selector \<times> (exn + instance_ref) list" where
  "select_many 0 st shuffle sel service_id instances = (sel, [])"
| "select_many (Suc n) st shuffle sel service_id instances =
     (let (sel1, r) = select st shuffle sel service_id instances;
          (sel2, rs) = select_many n st shuffle sel1 service_id instances
      in (sel2, r # rs))"

text \<open>
  What the selector's fields mean, relative to the immutable parts of the instances (\<open>ids\<close>,
  \<open>weights\<close>) and the reference lists configured per service (\<open>conf\<close>): every cycle is a
  permutation of the weighted expansion of a list of that service's instances, and the recorded
  signature is the signature of that list.
\<close>

definition cycle_ok ::
  "(instance_ref \<Rightarrow> string) \<Rightarrow> (instance_ref \<Rightarrow> int) \<Rightarrow> instance_ref list \<Rightarrow>
   (string \<times> int) list \<Rightarrow> instance_ref list \<Rightarrow> nat \<Rightarrow> bool" where
  "cycle_ok ids weights insts sig xs pos \<longleftrightarrow>
     pos < length xs \<and>
     (\<exists>R. set R \<subseteq> set insts \<and> sig = map (\<lambda>r. (ids r, weights r)) R
        \<and> mset xs = mset (concat (map (\<lambda>r. replicate (nat (max 1 (weights r))) r) R)))"

definition selector_inv ::
  "(instance_ref \<Rightarrow> string) \<Rightarrow> (instance_ref \<Rightarrow> int) \<Rightarrow> (string \<Rightarrow> instance_ref list) \<Rightarrow>
   selector \<Rightarrow> bool" where
  "selector_inv ids weights conf sel \<longleftrightarrow>
     (\<forall>s sig. dict_get (sel_last_seen sel) s = Some sig \<longrightarrow>
        (\<exists>xs pos. dict_get (sel_cycles sel) s = Some (xs, pos)
           \<and> cycle_ok ids weights (conf s) sig xs pos))"

definition keeps_identity ::
  "(instance_ref \<Rightarrow> string) \<Rightarrow> (instance_ref \<Rightarrow> int) \<Rightarrow> instance_store \<Rightarrow> bool" where
  "keeps_identity ids weights st \<longleftrightarrow> (\<forall>r. bi_id (st r) = ids r \<and> bi_weight (st r) = weights r)"

lemmas [router_defs] =
  select_def rebuild_def next_of_cycle_def expand_def signature_def is_routable_def Let_def

section \<open>Matching a pattern\<close>

lemma glob_lang_Star_step:
  "c # s \<in> glob_lang (Star # gs) \<longleftrightarrow> c # s \<in> glob_lang gs \<or> s \<in> glob_lang (Star # gs)"
  by (auto simp: Cons_eq_append_conv)

lemma glob_lang_single:
  assumes "g \<noteq> Star"
  shows "c # s \<in> glob_lang (g # gs) \<longleftrightarrow> [c] \<in> glob_char g \<and> s \<in> glob_lang gs"
    and "[] \<notin> glob_lang (g # gs)"
proof -
  have one: "u \<in> glob_char g \<Longrightarrow> \<exists>d. u = [d]" for u
    using assms by (cases g) auto
  show "c # s \<in> glob_lang (g # gs) \<longleftrightarrow> [c] \<in> glob_char g \<and> s \<in> glob_lang gs"
  proof
    assume "c # s \<in> glob_lang (g # gs)"
    then obtain u v where uv: "c # s = u @ v" "u \<in> glob_char g" "v \<in> glob_lang gs" by auto
    with one [OF uv(2)] show "[c] \<in> glob_char g \<and> s \<in> glob_lang gs" by auto
  next
    assume "[c] \<in> glob_char g \<and> s \<in> glob_lang gs"
    then show "c # s \<in> glob_lang (g # gs)" by (simp, metis append_Cons append_Nil)
  qed
  show "[] \<notin> glob_lang (g # gs)" using one by fastforce
qed

lemma glob_match_lang: "glob_match gs s \<longleftrightarrow> s \<in> glob_lang gs"
proof (induction gs s rule: glob_match.induct)
  case (3 gs c s)
  then show ?case by (simp only: glob_match.simps glob_lang_Star_step)
next
  case (6 neg its gs c s)
  then show ?case by (auto simp: glob_lang_single list_ex_iff simp del: glob_lang.simps)
qed (simp_all add: glob_lang_single del: glob_lang.simps(2), simp)

text \<open>Characters that stand for themselves outside brackets.\<close>

definition plain_char :: "char \<Rightarrow> bool" where
  "plain_char c \<longleftrightarrow> c \<noteq> CHR ''*'' \<and> c \<noteq> CHR ''?'' \<and> c \<noteq> CHR ''[''"

lemma translate_plain:
  "list_all plain_char p \<Longrightarrow> translate (p @ s) = map Lit p @ translate s"
  by (induction p) (simp_all add: plain_char_def)

lemma glob_match_Lits: "glob_match (map Lit p @ gs) s \<longleftrightarrow> (\<exists>r. s = p @ r \<and> glob_match gs r)"
proof (induction p arbitrary: s)
  case (Cons a p)
  then show ?case by (cases s) auto
qed simp

lemma glob_match_Star_end: "glob_match [Star] s"
  by (induction s) simp_all

lemma translate_star: "translate ''*'' = [Star]"
  by simp

text \<open>\<^verbatim>\<open>fnmatch\<close> accepts exactly the strings of the language its pattern denotes;
  for the patterns the shipped routes use, a plain prefix followed by a star, that is every path
  with this prefix, whatever follows it (slashes and the empty string included), and for a plain
  pattern without wildcards it is equality.\<close>

lemma fnmatch_language:
  "(fnmatch path pat \<longleftrightarrow> path \<in> glob_lang (translate pat))
   \<and> (list_all plain_char p \<longrightarrow> (fnmatch path (p @ ''*'') \<longleftrightarrow> prefix p path))
   \<and> (list_all plain_char p \<longrightarrow> (fnmatch path p \<longleftrightarrow> path = p))"
proof (intro conjI impI)
  show "fnmatch path pat \<longleftrightarrow> path \<in> glob_lang (translate pat)"
    by (simp add: fnmatch_def glob_match_lang)
next
  assume "list_all plain_char p"
  then show "fnmatch path (p @ ''*'') \<longleftrightarrow> prefix p path"
    by (simp add: fnmatch_def translate_plain glob_match_Lits glob_match_Star_end prefix_def)
next
  assume "list_all plain_char p"
  then show "fnmatch path p \<longleftrightarrow> path = p"
    using translate_plain [of p "[]"] glob_match_Lits [of p "[]" path] by (simp add: fnmatch_def)
qed

section \<open>Finding a route\<close>

lemma dict_get_by_tenant:
  "dict_get (by_tenant rs d) t =
     (if dict_get d t = None \<and> filter (\<lambda>r. rt_tenant_id r = t) rs = [] then None
      else Some ((case dict_get d t of None \<Rightarrow> [] | Some l \<Rightarrow> l)
             @ filter (\<lambda>r. rt_tenant_id r = t) rs))"
  by (induction rs arbitrary: d) (auto split: option.splits)

lemma candidates_of_tenant:
  "(case dict_get (new_matcher rs) t of None \<Rightarrow> [] | Some l \<Rightarrow> l)
     = filter (\<lambda>r. rt_tenant_id r = t) rs"
  by (simp add: new_matcher_def dict_get_by_tenant)

lemma match_candidates_find: "match_candidates rs meth path = find (serves meth path) rs"
  by (induction rs) (simp_all add: serves_def)

lemma find_filter: "find P (filter Q xs) = find (\<lambda>x. Q x \<and> P x) xs"
  by (induction xs) simp_all

text \<open>C37. Matching a request is a linear search: it returns the first configured route of the
  request's own tenant that is enabled, lists the method (in any letter case) and whose pattern
  matches the path, and raises \<^verbatim>\<open>RouteNotFoundError\<close> exactly when there is none.\<close>

theorem match_route_first:
  "match_route (new_matcher routes) tenant meth path =
     (case find (\<lambda>r. rt_tenant_id r = tenant \<and> serves meth path r) routes of
        Some r \<Rightarrow> Inr r
      | None \<Rightarrow> Inl (RouteNotFoundError
          (''no route for '' @ tenant @ '' '' @ meth @ '' '' @ path)))"
  by (simp add: match_route_def Let_def candidates_of_tenant match_candidates_find find_filter)

text \<open>
  A pattern that is a prefix followed by a star, with no other character that \<^verbatim>\<open>fnmatch\<close> gives
  a meaning. All patterns of the shipped configuration have this form.
\<close>

definition prefix_pattern :: "string \<Rightarrow> bool" where
  "prefix_pattern pat \<longleftrightarrow> pat \<noteq> [] \<and> last pat = CHR ''*'' \<and> list_all plain_char (butlast pat)"

lemma fnmatch_prefix:
  assumes "prefix_pattern pat"
  shows "fnmatch path pat \<longleftrightarrow> prefix (butlast pat) path"
proof -
  have "pat = butlast pat @ ''*''" using assms append_butlast_last_id [of pat] by (simp add: prefix_pattern_def)
  then have "fnmatch path pat \<longleftrightarrow> fnmatch path (butlast pat @ ''*'')" by simp
  also have "\<dots> \<longleftrightarrow> prefix (butlast pat) path"
    using fnmatch_language [of path pat "butlast pat"] assms by (simp add: prefix_pattern_def)
  finally show ?thesis .
qed

lemma find_cong_set: "(\<And>x. x \<in> set xs \<Longrightarrow> P x \<longleftrightarrow> Q x) \<Longrightarrow> find P xs = find Q xs"
  by (induction xs) auto

text \<open>C38. Routing by prefix. Where every pattern is a prefix and a star, a request goes to the first
  configured route of its tenant that is enabled, lists its method (in any letter case) and whose
  prefix its path starts with, whatever follows (slashes and nothing included); if there is none,
  \<^verbatim>\<open>RouteNotFoundError\<close> is raised. A longer prefix further down does not win.\<close>

theorem prefix_routing:
  assumes "list_all (\<lambda>r. prefix_pattern (rt_path_pattern r)) routes"
  shows "match_route (new_matcher routes) tenant meth path =
     (case find (\<lambda>r. rt_tenant_id r = tenant \<and> rt_enabled r
          \<and> py_upper meth \<in> set (map py_upper (rt_http_methods r))
          \<and> prefix (butlast (rt_path_pattern r)) path) routes of
        Some r \<Rightarrow> Inr r
      | None \<Rightarrow> Inl (RouteNotFoundError (''no route for '' @ tenant @ '' '' @ meth @ '' '' @ path)))"
proof -
  have "find (\<lambda>r. rt_tenant_id r = tenant \<and> serves meth path r) routes
      = find (\<lambda>r. rt_tenant_id r = tenant \<and> rt_enabled r
          \<and> py_upper meth \<in> set (map py_upper (rt_http_methods r))
          \<and> prefix (butlast (rt_path_pattern r)) path) routes"
    by (rule find_cong_set) (use assms in \<open>auto simp: list_all_iff serves_def fnmatch_prefix\<close>)
  then show ?thesis
    by (simp add: match_route_def Let_def candidates_of_tenant match_candidates_find find_filter)
qed

definition ex_prefix_route :: "string \<Rightarrow> string \<Rightarrow> RouteDefinition" where
  "ex_prefix_route i pat =
     \<lparr> rt_id = i, rt_tenant_id = ''acme'', rt_name = i, rt_path_pattern = pat, rt_http_methods = [''GET''],
       rt_backend_service_id = ''users'', rt_timeout_ms = 2000, rt_priority = ''NORMAL'', rt_enabled = True \<rparr>"

theorem prefix_routing_witness:
  "match_route (new_matcher [ex_prefix_route ''r1'' ''/users/*'', ex_prefix_route ''r2'' ''/users/vip/*''])
     ''acme'' ''get'' ''/users/vip/7'' = Inr (ex_prefix_route ''r1'' ''/users/*'')"
proof -
  let ?rs = "[ex_prefix_route ''r1'' ''/users/*'', ex_prefix_route ''r2'' ''/users/vip/*'']"
  have "list_all (\<lambda>r. prefix_pattern (rt_path_pattern r)) ?rs" by code_simp
  moreover have "py_upper ''get'' = py_upper ''GET''" by code_simp
  ultimately show ?thesis using prefix_routing [of ?rs "''acme''" "''get''" "''/users/vip/7''"]
    by (simp add: ex_prefix_route_def)
qed

section \<open>Selecting an instance\<close>

lemma expand_nonempty: "R \<noteq> [] \<Longrightarrow> concat (map (\<lambda>r. replicate (nat (max 1 (w r))) r) R) \<noteq> []"
  by (cases R) simp_all

lemma signature_keeps:
  "keeps_identity ids weights st \<Longrightarrow> signature st R = map (\<lambda>r. (ids r, weights r)) R"
  by (simp add: signature_def keeps_identity_def)

lemma expand_keeps:
  "keeps_identity ids weights st \<Longrightarrow>
   expand st R = concat (map (\<lambda>r. replicate (nat (max 1 (weights r))) r) R)"
  by (simp add: expand_def keeps_identity_def)

lemma cycle_ok_advance:
  "cycle_ok ids weights insts sig xs pos \<Longrightarrow>
   cycle_ok ids weights insts sig xs (Suc pos mod length xs)"
  by (simp add: cycle_ok_def Suc_mod_less)

lemma rebuild_cycle_ok:
  assumes "keeps_identity ids weights st" and "mset (shuffle (expand st R)) = mset (expand st R)"
    and "R \<noteq> []" and "set R \<subseteq> set insts"
  shows "cycle_ok ids weights insts (signature st R) (shuffle (expand st R)) 0"
proof -
  have "shuffle (expand st R) \<noteq> []"
    using assms(2) expand_nonempty [OF assms(3), of "\<lambda>r. bi_weight (st r)"]
    by (metis expand_def mset_zero_iff)
  then show ?thesis
    using assms by (auto simp: cycle_ok_def signature_keeps expand_keeps)
qed

lemma rebuild_inv:
  assumes "selector_inv ids weights conf sel" and "keeps_identity ids weights st"
    and "mset (shuffle (expand st R)) = mset (expand st R)" and "R \<noteq> []"
    and "set R \<subseteq> set (conf s)"
  shows "selector_inv ids weights conf (rebuild st shuffle s R sel)"
  using assms(1) rebuild_cycle_ok [where shuffle = shuffle, OF assms(2-5)]
  by (auto simp: selector_inv_def rebuild_def)

lemma next_of_cycle_Some:
  assumes "dict_get (sel_cycles sel) s = Some (xs, pos)" and "pos < length xs"
  shows "next_of_cycle s sel =
    (sel\<lparr>sel_cycles := dict_set (sel_cycles sel) s (xs, Suc pos mod length xs)\<rparr>, Inr (xs ! pos))"
  using assms by (auto simp: next_of_cycle_def)

lemma advance_inv:
  assumes "selector_inv ids weights conf sel"
    and "dict_get (sel_cycles sel) s = Some (xs, pos)"
  shows "selector_inv ids weights conf
    (sel\<lparr>sel_cycles := dict_set (sel_cycles sel) s (xs, Suc pos mod length xs)\<rparr>)"
  using assms cycle_ok_advance by (fastforce simp: selector_inv_def)

text \<open>The selector the code reaches before it draws: rebuilt if the signature changed.\<close>

definition prepared ::
  "instance_store \<Rightarrow> (instance_ref list \<Rightarrow> instance_ref list) \<Rightarrow> selector \<Rightarrow> string \<Rightarrow>
   instance_ref list \<Rightarrow> selector" where
  "prepared st shuffle sel s routable =
     (if dict_get (sel_last_seen sel) s \<noteq> Some (signature st routable)
      then rebuild st shuffle s routable sel else sel)"

lemma select_prepared:
  "filter (\<lambda>r. is_routable (st r)) insts \<noteq> [] \<Longrightarrow>
   select st shuffle sel s insts =
     next_of_cycle s (prepared st shuffle sel s (filter (\<lambda>r. is_routable (st r)) insts))"
  by (simp add: select_def prepared_def Let_def)

lemma prepared_cycle:
  assumes inv: "selector_inv ids weights conf sel" and st: "keeps_identity ids weights st"
    and sh: "mset (shuffle (expand st R)) = mset (expand st R)"
    and R: "R \<noteq> []" "set R \<subseteq> set (conf s)" and inj: "inj_on ids (set (conf s))"
  obtains xs pos where
    "selector_inv ids weights conf (prepared st shuffle sel s R)"
    "dict_get (sel_cycles (prepared st shuffle sel s R)) s = Some (xs, pos)"
    "dict_get (sel_last_seen (prepared st shuffle sel s R)) s = Some (signature st R)"
    "pos < length xs" "mset xs = mset (expand st R)"
proof -
  let ?sel = "prepared st shuffle sel s R"
  have inv': "selector_inv ids weights conf ?sel"
    using inv rebuild_inv [where shuffle = shuffle, OF inv st sh R] by (simp add: prepared_def)
  have seen: "dict_get (sel_last_seen ?sel) s = Some (signature st R)"
    by (simp add: prepared_def rebuild_def)
  then obtain R' xs pos where R': "set R' \<subseteq> set (conf s)"
      "signature st R = map (\<lambda>r. (ids r, weights r)) R'"
      "dict_get (sel_cycles ?sel) s = Some (xs, pos)" "pos < length xs"
      "mset xs = mset (concat (map (\<lambda>r. replicate (nat (max 1 (weights r))) r) R'))"
    using inv' unfolding selector_inv_def cycle_ok_def by blast
  have "map fst (signature st R) = map fst (map (\<lambda>r. (ids r, weights r)) R')"
    by (simp only: R'(2))
  then have "map ids R = map ids R'" by (simp add: signature_keeps [OF st] comp_def)
  then have "R = R'"
    using R(2) R'(1) inj by (meson inj_on_map_eq_map inj_on_subset le_sup_iff)
  with R' that [OF inv' R'(3) seen R'(4)] show thesis by (simp add: expand_keeps [OF st])
qed

lemma set_expand: "set (expand st R) = set R"
  by (auto simp: expand_def)

lemma select_healthy:
  assumes "selector_inv ids weights conf sel" and "keeps_identity ids weights st"
    and "\<And>xs. mset (shuffle xs) = mset xs" and "inj_on ids (set (conf s))"
  shows "selector_inv ids weights conf (fst (select st shuffle sel s (conf s)))
    \<and> (case snd (select st shuffle sel s (conf s)) of
         Inr r \<Rightarrow> r \<in> set (conf s) \<and> bi_status (st r) = HEALTHY
       | Inl e \<Rightarrow> e = NoHealthyBackendError s \<and> fst (select st shuffle sel s (conf s)) = sel
           \<and> (\<forall>r \<in> set (conf s). bi_status (st r) \<noteq> HEALTHY))"
proof (cases "filter (\<lambda>r. is_routable (st r)) (conf s) = []")
  case True
  then have "\<forall>r \<in> set (conf s). bi_status (st r) \<noteq> HEALTHY"
    by (auto simp: filter_empty_conv is_routable_def)
  then show ?thesis using True assms(1) by (simp add: select_def)
next
  case False
  let ?R = "filter (\<lambda>r. is_routable (st r)) (conf s)"
  let ?sel = "prepared st shuffle sel s ?R"
  obtain xs pos where c: "selector_inv ids weights conf ?sel"
      "dict_get (sel_cycles ?sel) s = Some (xs, pos)" "pos < length xs" "mset xs = mset (expand st ?R)"
    by (rule prepared_cycle [where shuffle = shuffle and R = ?R and s = s,
          OF assms(1,2) assms(3) False _ assms(4)]) auto
  have "xs ! pos \<in> set xs" using c(3) by simp
  also have "set xs = set ?R" using c(4) set_expand [of st ?R] by (metis set_mset_mset)
  finally have "xs ! pos \<in> set (conf s) \<and> bi_status (st (xs ! pos)) = HEALTHY"
    by (auto simp: is_routable_def)
  then show ?thesis
    using select_prepared [OF False, of shuffle sel s] next_of_cycle_Some [OF c(2,3)]
      advance_inv [OF c(1,2)] by simp
qed

text \<open>
  For a service whose instances have distinct ids, and a shuffle that permutes,
  \<^verbatim>\<open>select\<close> returns one of the service's instances that is HEALTHY at this very moment
  (never an unhealthy, draining or unknown one, also when statuses changed since the cycle was
  built), or raises \<^verbatim>\<open>NoHealthyBackendError\<close> with the selector untouched, and that exactly
  when no instance is healthy. The selector's invariant is kept.\<close>

lemma select_only_healthy:
  assumes "selector_inv ids weights conf sel" and "keeps_identity ids weights st"
    and "\<And>xs. mset (shuffle xs) = mset xs" and "inj_on ids (set (conf s))"
  shows "selector_inv ids weights conf (fst (select st shuffle sel s (conf s)))
    \<and> (case snd (select st shuffle sel s (conf s)) of
         Inr r \<Rightarrow> r \<in> set (conf s) \<and> bi_status (st r) = HEALTHY
       | Inl e \<Rightarrow> e = NoHealthyBackendError s \<and> fst (select st shuffle sel s (conf s)) = sel
           \<and> (\<forall>r \<in> set (conf s). bi_status (st r) \<noteq> HEALTHY))"
  by (rule select_healthy [OF assms])

definition ex_instance :: "string \<Rightarrow> int \<Rightarrow> InstanceStatus \<Rightarrow> BackendInstance" where
  "ex_instance i w s = \<lparr>bi_id = i, bi_host = ''10.0.0.1'', bi_port = 9001, bi_weight = w,
     bi_status = s, bi_failure_count = 0\<rparr>"

definition ex_store :: instance_store where
  "ex_store r = (if r = 0 then ex_instance ''a'' 2 HEALTHY
     else if r = 1 then ex_instance ''b'' 1 UNHEALTHY else ex_instance ''c'' 1 HEALTHY)"

lemma new_selector_inv: "selector_inv ids weights conf new_selector"
  by (simp add: selector_inv_def new_selector_def)

lemma keeps_identity_self: "keeps_identity (\<lambda>r. bi_id (st r)) (\<lambda>r. bi_weight (st r)) st"
  by (simp add: keeps_identity_def)

lemma select_only_healthy_example:
  "case snd (select ex_store rev new_selector ''users'' [0, 1, 2]) of
     Inr r \<Rightarrow> r \<in> set [0, 1, 2] \<and> bi_status (ex_store r) = HEALTHY
   | Inl e \<Rightarrow> False"
proof -
  have "inj_on (\<lambda>r. bi_id (ex_store r)) (set [0, 1, 2])"
    by (simp add: inj_on_def ex_store_def ex_instance_def)
  from select_only_healthy [OF new_selector_inv keeps_identity_self [of ex_store], where
      conf = "\<lambda>_. [0, 1, 2]" and s = "''users''" and shuffle = rev, OF _ this]
  have "case snd (select ex_store rev new_selector ''users'' [0, 1, 2]) of
     Inr r \<Rightarrow> r \<in> set [0, 1, 2] \<and> bi_status (ex_store r) = HEALTHY
   | Inl e \<Rightarrow> \<forall>r \<in> set [0, 1, 2]. bi_status (ex_store r) \<noteq> HEALTHY"
    by (auto split: sum.splits)
  then show ?thesis by (auto simp: ex_store_def ex_instance_def split: sum.splits)
qed

section \<open>A full round\<close>

lemma select_steady:
  assumes "dict_get (sel_last_seen sel) s =
      Some (signature st (filter (\<lambda>r. is_routable (st r)) insts))"
    and "filter (\<lambda>r. is_routable (st r)) insts \<noteq> []"
    and "dict_get (sel_cycles sel) s = Some (xs, pos)" and "pos < length xs"
  shows "select st shuffle sel s insts =
    (sel\<lparr>sel_cycles := dict_set (sel_cycles sel) s (xs, Suc pos mod length xs)\<rparr>, Inr (xs ! pos))"
  using select_prepared [OF assms(2), of shuffle sel s] next_of_cycle_Some [OF assms(3,4)] assms(1)
  by (simp add: prepared_def)

lemma select_many_steady:
  assumes "dict_get (sel_last_seen sel) s =
      Some (signature st (filter (\<lambda>r. is_routable (st r)) insts))"
    and "filter (\<lambda>r. is_routable (st r)) insts \<noteq> []"
    and "dict_get (sel_cycles sel) s = Some (xs, pos)" and "pos < length xs"
  shows "snd (select_many k st shuffle sel s insts) =
    map (\<lambda>j. Inr (xs ! ((pos + j) mod length xs))) [0..<k]"
  using assms
proof (induction k arbitrary: sel pos)
  case 0
  then show ?case by simp
next
  case (Suc k)
  let ?sel = "sel\<lparr>sel_cycles := dict_set (sel_cycles sel) s (xs, Suc pos mod length xs)\<rparr>"
  have pos': "Suc pos mod length xs < length xs" using Suc.prems(4) by (rule Suc_mod_less)
  have "snd (select_many k st shuffle ?sel s insts) =
      map (\<lambda>j. Inr (xs ! ((Suc pos mod length xs + j) mod length xs))) [0..<k]"
    by (rule Suc.IH) (use Suc.prems pos' in simp_all)
  also have "\<dots> = map (\<lambda>j. Inr (xs ! ((pos + Suc j) mod length xs))) [0..<k]"
    by (simp add: mod_simps)
  finally show ?case
    using select_steady [OF Suc.prems, of shuffle] Suc.prems(4)
    by (simp add: case_prod_beta upt_conv_Cons map_Suc_upt [symmetric] del: upt_Suc)
qed

lemma one_round_is_rotation:
  "pos < length xs \<Longrightarrow> map (\<lambda>j. xs ! ((pos + j) mod length xs)) [0..<length xs] = rotate pos xs"
  by (rule nth_equalityI) (simp_all add: nth_rotate)

lemma count_expand:
  "distinct R \<Longrightarrow> count (mset (expand st R)) r =
     (if r \<in> set R then nat (max 1 (bi_weight (st r))) else 0)"
  by (induction R) (auto simp: expand_def count_eq_zero_iff)

lemma mset_rotate_same: "mset (rotate n xs) = mset xs"
  by (simp add: rotate_drop_take) (metis append_take_drop_id mset_append union_commute)

lemma length_filter_Inr: "length (filter (\<lambda>x. x = Inr r) (map Inr ys)) = count (mset ys) r"
  by (induction ys) auto

text \<open>C32. Weighted round robin is exact: while the statuses of a service do not change, one round
  of as many selections as the healthy instances have weight in total serves every healthy
  instance exactly \<open>max 1 weight\<close> times, whatever the shuffle, and from any point of the
  cycle.\<close>

theorem round_robin_exact:
  assumes "selector_inv ids weights conf sel" and "keeps_identity ids weights st"
    and "\<And>xs. mset (shuffle xs) = mset xs" and "inj_on ids (set (conf s))"
    and "distinct (conf s)" and "r \<in> set (conf s)" and "bi_status (st r) = HEALTHY"
  shows "length (filter (\<lambda>x. x = Inr r)
      (snd (select_many (length (expand st (filter (\<lambda>r. is_routable (st r)) (conf s))))
         st shuffle sel s (conf s))))
    = nat (max 1 (bi_weight (st r)))"
proof -
  let ?R = "filter (\<lambda>r. is_routable (st r)) (conf s)"
  have r: "r \<in> set ?R" using assms(6,7) by (simp add: is_routable_def)
  then have ne: "?R \<noteq> []" by (auto simp: filter_empty_conv)
  let ?sel = "prepared st shuffle sel s ?R"
  obtain xs pos where c: "dict_get (sel_cycles ?sel) s = Some (xs, pos)"
      "dict_get (sel_last_seen ?sel) s = Some (signature st ?R)"
      "pos < length xs" "mset xs = mset (expand st ?R)"
    by (rule prepared_cycle [where shuffle = shuffle and R = ?R and s = s,
          OF assms(1,2) assms(3) ne _ assms(4)]) auto
  have n: "length (expand st ?R) = length xs" using c(4) by (metis size_mset)
  have "select st shuffle sel s (conf s) = select st shuffle ?sel s (conf s)"
    using select_prepared [OF ne, of shuffle] c(2) by (simp add: prepared_def)
  then have "select_many k st shuffle sel s (conf s) =
      (if k = 0 then (sel, []) else select_many k st shuffle ?sel s (conf s))" for k
    by (cases k) simp_all
  then have "snd (select_many (length xs) st shuffle sel s (conf s)) =
      snd (select_many (length xs) st shuffle ?sel s (conf s))"
    using c(3) by (cases xs) auto
  also have "\<dots> = map Inr (rotate pos xs)"
    using select_many_steady [OF c(2) ne c(1,3), of "length xs" shuffle]
      one_round_is_rotation [OF c(3)] by (metis (no_types, lifting) map_map comp_apply map_cong)
  finally have "length (filter (\<lambda>x. x = Inr r)
      (snd (select_many (length xs) st shuffle sel s (conf s)))) = count (mset (rotate pos xs)) r"
    by (simp only: length_filter_Inr)
  then show ?thesis
    using count_expand [of ?R st r] assms(5) r c(4) n by (simp add: mset_rotate_same)
qed

theorem round_robin_exact_witness:
  "length (filter (\<lambda>x. x = Inr 0)
      (snd (select_many 3 ex_store rev new_selector ''users'' [0, 1, 2]))) = 2"
proof -
  have inj: "inj_on (\<lambda>r. bi_id (ex_store r)) (set [0, 1, 2])"
    by (simp add: inj_on_def ex_store_def ex_instance_def)
  have n: "length (expand ex_store (filter (\<lambda>r. is_routable (ex_store r)) [0, 1, 2])) = 3"
    and h: "bi_status (ex_store 0) = HEALTHY" and w: "nat (max 1 (bi_weight (ex_store 0))) = 2"
    by (code_simp, code_simp, code_simp)
  have "distinct [0, 1, 2 :: nat]" "0 \<in> set [0, 1, 2 :: nat]" by simp_all
  from round_robin_exact [OF new_selector_inv keeps_identity_self [of ex_store], where
      conf = "\<lambda>_. [0, 1, 2]" and s = "''users''" and shuffle = rev, OF _ inj this h]
  show ?thesis unfolding n w by simp
qed

end
