(* ===== verification/Redis_Server.thy ===== *)
theory Redis_Server
  imports Sentinel_Prelude
begin

text \<open>
  The Redis server as the rate limiter's scripts see it. Redis is not part of this repository: its
  commands are the fields of a record the scripts receive, and \<open>redis_server\<close> collects what
  the Redis command reference documents about the commands the scripts issue. \<open>peek\<close> is the
  content of a key with its remaining time to live in milliseconds (\<^verbatim>\<open>TYPE\<close>,
  \<^verbatim>\<open>HGETALL\<close>, \<^verbatim>\<open>ZRANGE\<close>, \<^verbatim>\<open>PTTL\<close>); \<open>elapse\<close> is the passing of time
  on the server. A command on a key of another type fails with \<^verbatim>\<open>WRONGTYPE\<close>, which is
  \<open>None\<close> here. Hash fields hold the number that their text denotes.

  The locale is interpreted on \<open>memory_server\<close>, an executable in-memory store, which is also
  what the concrete instances in the other theories run on.
\<close>

datatype redis_value =
    RHash "string \<Rightarrow> rat option"
  | RZset "string \<Rightarrow> int option"

type_synonym redis_entry = "redis_value \<times> int option"

record 'db redis_ops =
  peek :: "'db \<Rightarrow> string \<Rightarrow> redis_entry option"
  elapse :: "'db \<Rightarrow> nat \<Rightarrow> 'db"
  hmget :: "'db \<Rightarrow> string \<Rightarrow> string list \<Rightarrow> rat option list option"
  hset :: "'db \<Rightarrow> string \<Rightarrow> (string \<times> rat) list \<Rightarrow> 'db option"
  expire :: "'db \<Rightarrow> string \<Rightarrow> int \<Rightarrow> 'db"
  zremrangebyscore_upto :: "'db \<Rightarrow> string \<Rightarrow> int \<Rightarrow> 'db option"
  zcard :: "'db \<Rightarrow> string \<Rightarrow> nat option"
  zadd :: "'db \<Rightarrow> string \<Rightarrow> int \<Rightarrow> string \<Rightarrow> 'db option"
  zrange_first_withscore :: "'db \<Rightarrow> string \<Rightarrow> (string \<times> int) option option"

text \<open>The contents of a key, as a hash or as a sorted set; an absent key counts as empty.\<close>

definition hash_of :: "redis_entry option \<Rightarrow> (string \<Rightarrow> rat option) option" where
  "hash_of e = (case e of None \<Rightarrow> Some (\<lambda>_. None) | Some (RHash h, _) \<Rightarrow> Some h | Some (RZset _, _) \<Rightarrow> None)"

definition zset_of :: "redis_entry option \<Rightarrow> (string \<Rightarrow> int option) option" where
  "zset_of e = (case e of None \<Rightarrow> Some (\<lambda>_. None) | Some (RHash _, _) \<Rightarrow> None | Some (RZset z, _) \<Rightarrow> Some z)"

definition ttl_of :: "redis_entry option \<Rightarrow> int option" where
  "ttl_of e = (case e of None \<Rightarrow> None | Some (_, t) \<Rightarrow> t)"

definition zset_entry :: "(string \<Rightarrow> int option) \<Rightarrow> int option \<Rightarrow> redis_entry option" where
  "zset_entry z t = (if dom z = {} then None else Some (RZset z, t))"

text \<open>The members that \<^verbatim>\<open>ZREMRANGEBYSCORE key -inf b\<close> leaves.\<close>

definition zset_above :: "int \<Rightarrow> (string \<Rightarrow> int option) \<Rightarrow> string \<Rightarrow> int option" where
  "zset_above b z = (\<lambda>m. case z m of None \<Rightarrow> None | Some s \<Rightarrow> if b < s then Some s else None)"

lemma zset_above_Some [simp]: "zset_above b z m = Some s \<longleftrightarrow> z m = Some s \<and> b < s"
  by (auto simp: zset_above_def split: option.splits)

lemma dom_zset_above: "dom (zset_above b z) = {m. \<exists>s. z m = Some s \<and> b < s}"
  by (auto simp: dom_def)

lemma finite_zset_above: "finite (dom z) \<Longrightarrow> finite (dom (zset_above b z))"
  by (rule finite_subset [of _ "dom z"]) (auto simp: dom_zset_above)

locale redis_server =
  fixes ops :: "'db redis_ops"
  assumes zset_finite: "peek ops db k = Some (RZset z, u) \<Longrightarrow> finite (dom z)"
    and hmget_law: "hmget ops db k fs = map_option (\<lambda>h. map h fs) (hash_of (peek ops db k))"
    and hset_error: "hset ops db k fvs = None \<longleftrightarrow> hash_of (peek ops db k) = None"
    and hset_law: "hset ops db k fvs = Some db' \<Longrightarrow> fvs \<noteq> [] \<Longrightarrow>
      hash_of (peek ops db k) = Some h \<Longrightarrow>
      peek ops db' k' = (if k' = k then Some (RHash (map_upds h (map fst fvs) (map snd fvs)), ttl_of (peek ops db k))
                         else peek ops db k')"
    and expire_law: "peek ops (expire ops db k s) k' =
      (if k' = k then (if s \<le> 0 then None else map_option (\<lambda>e. (fst e, Some (s * 1000))) (peek ops db k))
       else peek ops db k')"
    and elapse_keeps: "peek ops db k = Some (v, Some t) \<Longrightarrow> int d < t \<Longrightarrow>
      peek ops (elapse ops db d) k = Some (v, Some (t - int d))"
    and elapse_drops: "peek ops db k = Some (v, Some t) \<Longrightarrow> t < int d \<Longrightarrow>
      peek ops (elapse ops db d) k = None"
    and elapse_either: "peek ops db k = Some (v, Some (int d)) \<Longrightarrow>
      peek ops (elapse ops db d) k \<in> {None, Some (v, Some 0)}"
    and elapse_persistent: "peek ops db k = Some (v, None) \<Longrightarrow> peek ops (elapse ops db d) k = Some (v, None)"
    and elapse_absent: "peek ops db k = None \<Longrightarrow> peek ops (elapse ops db d) k = None"
    and zrem_error: "zremrangebyscore_upto ops db k b = None \<longleftrightarrow> zset_of (peek ops db k) = None"
    and zrem_law: "zremrangebyscore_upto ops db k b = Some db' \<Longrightarrow>
      zset_of (peek ops db k) = Some z \<Longrightarrow>
      peek ops db' k' = (if k' = k then zset_entry (zset_above b z) (ttl_of (peek ops db k)) else peek ops db k')"
    and zcard_law: "zcard ops db k = map_option (\<lambda>z. card (dom z)) (zset_of (peek ops db k))"
    and zadd_error: "zadd ops db k s m = None \<longleftrightarrow> zset_of (peek ops db k) = None"
    and zadd_law: "zadd ops db k s m = Some db' \<Longrightarrow> zset_of (peek ops db k) = Some z \<Longrightarrow>
      peek ops db' k' = (if k' = k then Some (RZset (z(m \<mapsto> s)), ttl_of (peek ops db k)) else peek ops db k')"
    and zrange_error: "zrange_first_withscore ops db k = None \<longleftrightarrow> zset_of (peek ops db k) = None"
    and zrange_empty: "zrange_first_withscore ops db k = Some None \<Longrightarrow> zset_of (peek ops db k) = Some z \<Longrightarrow> dom z = {}"
    and zrange_first: "zrange_first_withscore ops db k = Some (Some (m, s)) \<Longrightarrow> zset_of (peek ops db k) = Some z \<Longrightarrow>
      z m = Some s \<and> (\<forall>m' s'. z m' = Some s' \<longrightarrow> s \<le> s')"
begin

text \<open>After an idle time shorter than its time to live, or in any case if absent, a key is as it was.\<close>

lemma elapse_value:
  assumes "peek ops db k = Some (v, Some t)"
  obtains "peek ops (elapse ops db d) k = None" and "t \<le> int d"
    | t' where "peek ops (elapse ops db d) k = Some (v, Some t')" and "t' = t - int d" and "0 \<le> t'"
proof (cases "int d < t")
  case True
  show ?thesis by (rule that(2) [OF elapse_keeps [OF assms True]]) (use True in auto)
next
  case False
  show ?thesis
  proof (cases "t = int d")
    case True
    with assms elapse_either [of db k v d] consider
      "peek ops (elapse ops db d) k = None" | "peek ops (elapse ops db d) k = Some (v, Some 0)"
      by auto
    then show ?thesis using that True by cases auto
  next
    case ne: False
    show ?thesis by (rule that(1) [OF elapse_drops [OF assms]]) (use False ne in auto)
  qed
qed

lemma zset_finite': "zset_of (peek ops db k) = Some z \<Longrightarrow> finite (dom z)"
  by (auto simp: zset_of_def split: option.splits redis_value.splits intro: zset_finite)

end

section \<open>An in-memory server\<close>

datatype mem_value =
    MHash "(string, rat) dict"
  | MZset "(string, int) dict"

type_synonym mem_db = "(string, mem_value \<times> int option) dict"

definition mem_delete :: "mem_db \<Rightarrow> string \<Rightarrow> mem_db" where
  "mem_delete db k = filter (\<lambda>p. fst p \<noteq> k) db"

definition mem_peek :: "mem_db \<Rightarrow> string \<Rightarrow> redis_entry option" where
  "mem_peek db k =
     (case dict_get db k of
        None \<Rightarrow> None
      | Some (MHash h, t) \<Rightarrow> Some (RHash (dict_get h), t)
      | Some (MZset z, t) \<Rightarrow> Some (RZset (dict_get z), t))"

definition mem_alive :: "mem_db \<Rightarrow> nat \<Rightarrow> string \<Rightarrow> bool" where
  "mem_alive db d k = (case dict_get db k of Some (_, Some t) \<Rightarrow> int d < t | _ \<Rightarrow> True)"

definition mem_elapse :: "mem_db \<Rightarrow> nat \<Rightarrow> mem_db" where
  "mem_elapse db d =
     map (\<lambda>(k, v, ttl). (k, v, map_option (\<lambda>t. t - int d) ttl)) (filter (\<lambda>p. mem_alive db d (fst p)) db)"

definition mem_hmget :: "mem_db \<Rightarrow> string \<Rightarrow> string list \<Rightarrow> rat option list option" where
  "mem_hmget db k fs =
     (case dict_get db k of
        None \<Rightarrow> Some (map (\<lambda>_. None) fs)
      | Some (MHash h, _) \<Rightarrow> Some (map (dict_get h) fs)
      | Some (MZset _, _) \<Rightarrow> None)"

primrec mem_hset_fields :: "(string, rat) dict \<Rightarrow> (string \<times> rat) list \<Rightarrow> (string, rat) dict" where
  "mem_hset_fields h [] = h"
| "mem_hset_fields h (fv # fvs) = mem_hset_fields (dict_set h (fst fv) (snd fv)) fvs"

definition mem_hset :: "mem_db \<Rightarrow> string \<Rightarrow> (string \<times> rat) list \<Rightarrow> mem_db option" where
  "mem_hset db k fvs =
     (case dict_get db k of
        None \<Rightarrow> Some (dict_set db k (MHash (mem_hset_fields [] fvs), None))
      | Some (MHash h, t) \<Rightarrow> Some (dict_set db k (MHash (mem_hset_fields h fvs), t))
      | Some (MZset _, _) \<Rightarrow> None)"

definition mem_expire :: "mem_db \<Rightarrow> string \<Rightarrow> int \<Rightarrow> mem_db" where
  "mem_expire db k s =
     (if s \<le> 0 then mem_delete db k
      else case dict_get db k of None \<Rightarrow> db | Some (v, _) \<Rightarrow> dict_set db k (v, Some (s * 1000)))"

definition mem_zset :: "mem_db \<Rightarrow> string \<Rightarrow> ((string, int) dict \<times> int option) option" where
  "mem_zset db k =
     (case dict_get db k of
        None \<Rightarrow> Some ([], None)
      | Some (MHash _, _) \<Rightarrow> None
      | Some (MZset z, t) \<Rightarrow> Some (z, t))"

definition mem_keep :: "int \<Rightarrow> (string, int) dict \<Rightarrow> (string, int) dict" where
  "mem_keep b z = filter (\<lambda>p. case dict_get z (fst p) of None \<Rightarrow> False | Some s \<Rightarrow> b < s) z"

definition mem_zrem :: "mem_db \<Rightarrow> string \<Rightarrow> int \<Rightarrow> mem_db option" where
  "mem_zrem db k b =
     (case mem_zset db k of
        None \<Rightarrow> None
      | Some (z, t) \<Rightarrow> Some (if mem_keep b z = [] then mem_delete db k else dict_set db k (MZset (mem_keep b z), t)))"

definition mem_zcard :: "mem_db \<Rightarrow> string \<Rightarrow> nat option" where
  "mem_zcard db k = map_option (\<lambda>zt. length (remdups (map fst (fst zt)))) (mem_zset db k)"

definition mem_zadd :: "mem_db \<Rightarrow> string \<Rightarrow> int \<Rightarrow> string \<Rightarrow> mem_db option" where
  "mem_zadd db k s m =
     (case mem_zset db k of
        None \<Rightarrow> None
      | Some (z, t) \<Rightarrow> Some (dict_set db k (MZset (dict_set z m s), t)))"

fun least_score :: "(string \<times> int) list \<Rightarrow> (string \<times> int) option" where
  "least_score [] = None"
| "least_score (p # ps) =
     (case least_score ps of
        None \<Rightarrow> Some p
      | Some q \<Rightarrow> if snd q < snd p then Some q else Some p)"

definition mem_zfirst :: "mem_db \<Rightarrow> string \<Rightarrow> (string \<times> int) option option" where
  "mem_zfirst db k = map_option (\<lambda>zt. least_score (filter (\<lambda>p. dict_get (fst zt) (fst p) = Some (snd p)) (fst zt))) (mem_zset db k)"

definition memory_server :: "mem_db redis_ops" where
  "memory_server =
     \<lparr> peek = mem_peek, elapse = mem_elapse, hmget = mem_hmget, hset = mem_hset,
       expire = mem_expire, zremrangebyscore_upto = mem_zrem, zcard = mem_zcard,
       zadd = mem_zadd, zrange_first_withscore = mem_zfirst \<rparr>"

lemma memory_server_simps [simp]:
  "peek memory_server = mem_peek" "elapse memory_server = mem_elapse"
  "hmget memory_server = mem_hmget" "hset memory_server = mem_hset"
  "expire memory_server = mem_expire" "zremrangebyscore_upto memory_server = mem_zrem"
  "zcard memory_server = mem_zcard" "zadd memory_server = mem_zadd"
  "zrange_first_withscore memory_server = mem_zfirst"
  by (simp_all add: memory_server_def)

lemma dict_get_mem_hset_fields:
  "dict_get (mem_hset_fields h fvs) = map_upds (dict_get h) (map fst fvs) (map snd fvs)"
proof (induction fvs arbitrary: h)
  case Nil
  then show ?case by simp
next
  case (Cons fv fvs)
  have "dict_get (dict_set h (fst fv) (snd fv)) = (dict_get h)(fst fv \<mapsto> snd fv)"
    by (rule ext) simp
  then show ?case
    by (simp only: mem_hset_fields.simps Cons list.map map_upds_Cons)
qed

lemma dict_get_filter_keys:
  "dict_get (filter (\<lambda>p. P (fst p)) d) k = (if P k then dict_get d k else None)"
  by (induction d) (auto simp: dict_get_def)

lemma dict_get_mem_delete [simp]:
  "dict_get (mem_delete db k) k' = (if k' = k then None else dict_get db k')"
  using dict_get_filter_keys [of "\<lambda>x. x \<noteq> k" db k'] by (simp add: mem_delete_def)

lemma dict_get_mem_elapse:
  "dict_get (mem_elapse db d) k =
     (if mem_alive db d k then map_option (\<lambda>(v, ttl). (v, map_option (\<lambda>t. t - int d) ttl)) (dict_get db k)
      else None)"
proof -
  have "dict_get (map (\<lambda>(k, v, ttl). (k, v, map_option (\<lambda>t. t - int d) ttl)) l) k =
      map_option (\<lambda>(v, ttl). (v, map_option (\<lambda>t. t - int d) ttl)) (dict_get l k)" for l :: mem_db
    by (induction l) (auto simp: dict_get_def)
  then show ?thesis by (simp add: mem_elapse_def dict_get_filter_keys)
qed

lemma dict_get_mem_keep: "dict_get (mem_keep b z) = zset_above b (dict_get z)"
proof (rule ext)
  fix m
  show "dict_get (mem_keep b z) m = zset_above b (dict_get z) m"
    unfolding mem_keep_def
    using dict_get_filter_keys [of "\<lambda>k. case dict_get z k of None \<Rightarrow> False | Some s \<Rightarrow> b < s" z m]
    by (auto simp: zset_above_def split: option.splits)
qed

lemma dom_dict_get: "dom (dict_get d) = fst ` set d"
  using dom_map_of_conv_image_fst [of d] by (simp add: dom_def dict_get_def)

lemma dict_get_empty_iff: "dict_get d = (\<lambda>_. None) \<longleftrightarrow> d = []"
  using dom_dict_get [of d] by (auto simp: dom_def)

lemma card_dom_dict_get: "card (dom (dict_get d)) = length (remdups (map fst d))"
  by (simp add: dom_dict_get length_remdups_card_conv)

lemma mem_zset_peek:
  "zset_of (mem_peek db k) = map_option (\<lambda>zt. dict_get (fst zt)) (mem_zset db k)"
  by (auto simp: mem_peek_def mem_zset_def zset_of_def split: option.splits mem_value.splits)

lemma mem_zset_ttl: "mem_zset db k = Some (z, t) \<Longrightarrow> ttl_of (mem_peek db k) = t"
  by (auto simp: mem_peek_def mem_zset_def ttl_of_def split: option.splits mem_value.splits)

lemma least_score_None [simp]: "least_score ps = None \<longleftrightarrow> ps = []"
  by (cases ps) (auto split: option.splits)

lemma least_score_Some: "least_score ps = Some q \<Longrightarrow> q \<in> set ps \<and> (\<forall>p \<in> set ps. snd q \<le> snd p)"
  by (induction ps arbitrary: q) (fastforce split: option.splits if_splits)+

lemma own_entries_empty:
  assumes "filter (\<lambda>p. dict_get z (fst p) = Some (snd p)) z = []"
  shows "z = []"
proof (cases z)
  case (Cons p ps)
  then have "dict_get z (fst p) = Some (snd p)" by (simp add: dict_get_def)
  with assms Cons show ?thesis by simp
qed

lemma mem_zfirst_law:
  assumes "mem_zfirst db k = Some (Some (m, s))" and "zset_of (mem_peek db k) = Some z"
  shows "z m = Some s \<and> (\<forall>m' s'. z m' = Some s' \<longrightarrow> s \<le> s')"
proof -
  obtain l t where l: "mem_zset db k = Some (l, t)" and z: "z = dict_get l"
    using assms(2) by (auto simp: mem_zset_peek)
  let ?own = "filter (\<lambda>p. dict_get l (fst p) = Some (snd p)) l"
  have "least_score ?own = Some (m, s)" using assms(1) l by (simp add: mem_zfirst_def)
  from least_score_Some [OF this] have ms: "(m, s) \<in> set ?own"
    and least: "\<And>p. p \<in> set ?own \<Longrightarrow> s \<le> snd p" by auto
  have "s \<le> s'" if "dict_get l m' = Some s'" for m' s'
    using least [of "(m', s')"] dict_get_in_set [OF that] that by simp
  with ms z show ?thesis by auto
qed

lemma mem_hset_law:
  assumes "mem_hset db k fvs = Some db'" and "hash_of (mem_peek db k) = Some h"
  shows "mem_peek db' k' =
    (if k' = k then Some (RHash (map_upds h (map fst fvs) (map snd fvs)), ttl_of (mem_peek db k))
     else mem_peek db k')"
proof -
  have none: "dict_get [] = (\<lambda>_. None)" by (rule ext) simp
  show ?thesis
  proof (cases "dict_get db k")
    case None
    with assms show ?thesis
      by (auto simp: mem_hset_def mem_peek_def hash_of_def ttl_of_def dict_get_mem_hset_fields none)
  next
    case (Some e)
    with assms show ?thesis
      by (cases e; cases "fst e")
        (auto simp: mem_hset_def mem_peek_def hash_of_def ttl_of_def dict_get_mem_hset_fields)
  qed
qed

lemma mem_zrem_law:
  assumes "mem_zrem db k b = Some db'" and "zset_of (mem_peek db k) = Some z"
  shows "mem_peek db' k' =
    (if k' = k then zset_entry (zset_above b z) (ttl_of (mem_peek db k)) else mem_peek db k')"
proof -
  obtain l t where l: "mem_zset db k = Some (l, t)" and z: "z = dict_get l"
    using assms(2) by (auto simp: mem_zset_peek)
  have "ttl_of (mem_peek db k) = t" using l by (rule mem_zset_ttl)
  moreover have "dom (zset_above b z) = {} \<longleftrightarrow> mem_keep b l = []"
    by (simp add: z dict_get_mem_keep [symmetric] dict_get_empty_iff)
  ultimately show ?thesis
    using assms(1) l by (auto simp: mem_zrem_def mem_peek_def zset_entry_def z dict_get_mem_keep)
qed

lemma mem_zadd_law:
  assumes "mem_zadd db k s m = Some db'" and "zset_of (mem_peek db k) = Some z"
  shows "mem_peek db' k' =
    (if k' = k then Some (RZset (z(m \<mapsto> s)), ttl_of (mem_peek db k)) else mem_peek db k')"
proof -
  obtain l t where l: "mem_zset db k = Some (l, t)" and z: "z = dict_get l"
    using assms(2) by (auto simp: mem_zset_peek)
  have "ttl_of (mem_peek db k) = t" using l by (rule mem_zset_ttl)
  moreover have "dict_get (dict_set l m s) = z(m \<mapsto> s)" by (rule ext) (simp add: z)
  ultimately show ?thesis using assms(1) l by (auto simp: mem_zadd_def mem_peek_def)
qed

interpretation memory: redis_server memory_server
proof (unfold_locales, goal_cases)
  case (1 db k z t)
  then show ?case
    by (auto simp: mem_peek_def dom_dict_get split: option.splits mem_value.splits)
next
  case (2 db k fs)
  then show ?case
    by (auto simp: mem_peek_def mem_hmget_def hash_of_def split: option.splits mem_value.splits)
next
  case (3 db k fvs)
  then show ?case
    by (auto simp: mem_peek_def mem_hset_def hash_of_def split: option.splits mem_value.splits)
next
  case (4 db k fvs db' h k')
  then show ?case using mem_hset_law by simp
next
  case (5 db k s k')
  then show ?case
    by (auto simp: mem_peek_def mem_expire_def split: option.splits mem_value.splits)
next
  case (6 db k v t d)
  then show ?case
    by (auto simp: mem_peek_def dict_get_mem_elapse mem_alive_def split: option.splits mem_value.splits)
next
  case (7 db k v t d)
  then show ?case
    by (auto simp: mem_peek_def dict_get_mem_elapse mem_alive_def split: option.splits mem_value.splits)
next
  case (8 db k v d)
  then show ?case
    by (auto simp: mem_peek_def dict_get_mem_elapse mem_alive_def split: option.splits mem_value.splits)
next
  case (9 db k v d)
  then show ?case
    by (auto simp: mem_peek_def dict_get_mem_elapse mem_alive_def split: option.splits mem_value.splits)
next
  case (10 db k d)
  then show ?case
    by (auto simp: mem_peek_def dict_get_mem_elapse mem_alive_def split: option.splits mem_value.splits prod.splits)
next
  case (11 db k b)
  then show ?case by (auto simp: mem_zset_peek mem_zrem_def split: option.splits)
next
  case (12 db k b db' z k')
  then show ?case using mem_zrem_law by simp
next
  case (13 db k)
  then show ?case by (cases "mem_zset db k") (simp_all add: mem_zset_peek mem_zcard_def card_dom_dict_get)
next
  case (14 db k s m)
  then show ?case by (auto simp: mem_zset_peek mem_zadd_def split: option.splits)
next
  case (15 db k s m db' z k')
  then show ?case using mem_zadd_law by simp
next
  case (16 db k)
  then show ?case by (auto simp: mem_zset_peek mem_zfirst_def)
next
  case (17 db k z)
  then show ?case
    by (auto simp: mem_zset_peek mem_zfirst_def dict_get_empty_iff dest: own_entries_empty)
next
  case (18 db k m s z)
  then show ?case using mem_zfirst_law by simp
qed

end
