(* ===== verification/Lua_Number.thy ===== *)
theory Lua_Number
  imports Sentinel_Prelude "HOL-Library.Log_Nat"
begin

text \<open>
  What survives when a Lua script stores a number in Redis: \<^verbatim>\<open>tostring\<close> of the Lua 5.1
  that Redis embeds prints 14 significant decimal digits (\<^verbatim>\<open>%.14g\<close>), and a later
  \<^verbatim>\<open>tonumber\<close> reads that text back. \<open>lua_tostring\<close> is the value the text denotes.
  The lemmas bound the error, and show that whole numbers below \<open>10 ^ 14\<close> are exact and that
  rounding never passes such a number.
\<close>

definition round_half_even :: "rat \<Rightarrow> int" where
  "round_half_even x =
     (let f = \<lfloor>x\<rfloor>; d = x - of_int f in
      if d < 1 / 2 then f else if d > 1 / 2 then f + 1 else if even f then f else f + 1)"

text \<open>The decimal exponent of a positive number: \<open>10 ^ e \<le> x\<close>, and \<open>x < 10 ^ (e + 1)\<close>.\<close>

definition dec_exponent :: "rat \<Rightarrow> int" where
  "dec_exponent x =
     (if x \<ge> 1 then int (floorlog 10 (nat \<lfloor>x\<rfloor>)) - 1
      else - int (floorlog 10 (nat (\<lceil>1 / x\<rceil> - 1))))"

text \<open>For evaluation the digits are counted on integers.\<close>

function int_digits :: "int \<Rightarrow> int" where
  "int_digits n = (if n \<le> 0 then 0 else int_digits (n div 10) + 1)"
  by pat_completeness auto
termination by (relation "measure nat") auto

declare int_digits.simps [simp del]

lemma int_digits_floorlog: "int_digits n = int (floorlog 10 (nat n))"
proof (induction n rule: int_digits.induct)
  case (1 n)
  show ?case
  proof (cases "n \<le> 0")
    case True
    then show ?thesis by (simp add: int_digits.simps floorlog_def)
  next
    case False
    with 1 show ?thesis
      by (subst int_digits.simps, subst compute_floorlog) (simp add: nat_div_distrib)
  qed
qed

lemma dec_exponent_code [code]:
  "dec_exponent x =
     (if x \<ge> 1 then int_digits \<lfloor>x\<rfloor> - 1 else - int_digits (\<lceil>1 / x\<rceil> - 1))"
  by (simp add: dec_exponent_def int_digits_floorlog)

definition round_digits :: "rat \<Rightarrow> rat" where
  "round_digits x =
     (let unit = 10 powi (dec_exponent x - 13) in of_int (round_half_even (x / unit)) * unit)"

definition lua_tostring :: "rat \<Rightarrow> rat" where
  "lua_tostring x = (if x = 0 then 0 else if x < 0 then - round_digits (- x) else round_digits x)"

section \<open>Lemmas\<close>

lemma round_half_even_error: "\<bar>of_int (round_half_even x) - x\<bar> \<le> 1 / 2"
proof -
  have "of_int \<lfloor>x\<rfloor> \<le> x" "x < of_int \<lfloor>x\<rfloor> + 1" by linarith+
  then show ?thesis by (auto simp: round_half_even_def Let_def abs_le_iff)
qed

lemma round_half_even_int [simp]: "round_half_even (of_int n) = n"
  by (simp add: round_half_even_def)

lemma round_half_even_le: "x \<le> of_int n \<Longrightarrow> round_half_even x \<le> n"
proof -
  assume le: "x \<le> of_int n"
  show ?thesis
  proof (cases "x = of_int n")
    case False
    with le have "\<lfloor>x\<rfloor> < n" by (simp add: floor_less_iff)
    then show ?thesis by (simp add: round_half_even_def Let_def)
  qed simp
qed

lemma round_half_even_nonneg: "0 \<le> x \<Longrightarrow> 0 \<le> round_half_even x"
  by (auto simp: round_half_even_def Let_def zero_le_floor)

lemma floorlog_lower: "0 < n \<Longrightarrow> (10::nat) ^ (floorlog 10 n - 1) \<le> n"
  using floorlog_bounds [of n 10] by simp

lemma floorlog_upper: "n < (10::nat) ^ floorlog 10 n"
  by (cases "n = 0") (use floorlog_bounds [of n 10] in auto)

lemma dec_exponent_lower:
  assumes "0 < x"
  shows "10 powi (dec_exponent x) \<le> x"
proof (cases "x \<ge> 1")
  case True
  let ?n = "nat \<lfloor>x\<rfloor>"
  have n: "0 < ?n" using True by simp
  then have "floorlog 10 ?n \<noteq> 0" by (simp add: floorlog_eq_zero_iff)
  then have e: "dec_exponent x = int (floorlog 10 ?n - 1)"
    using True by (simp add: dec_exponent_def of_nat_diff)
  have "(10::rat) ^ (floorlog 10 ?n - 1) = of_nat (10 ^ (floorlog 10 ?n - 1))" by simp
  also have "\<dots> \<le> of_nat ?n" using floorlog_lower [OF n] by (simp only: of_nat_le_iff)
  also have "\<dots> \<le> x" using True by simp
  finally show ?thesis by (simp add: e)
next
  case False
  let ?m = "nat (\<lceil>1 / x\<rceil> - 1)"
  let ?k = "floorlog 10 ?m"
  have e: "dec_exponent x = - int ?k" using False by (simp add: dec_exponent_def)
  have ceil: "1 \<le> \<lceil>1 / x\<rceil>" using assms by (simp add: one_le_ceiling)
  have "int ?m < int (10 ^ ?k)" using floorlog_upper [of ?m] by (simp only: of_nat_less_iff)
  with ceil have "\<lceil>1 / x\<rceil> \<le> 10 ^ ?k" by simp
  then have "1 / x \<le> of_int (10 ^ ?k)" by (simp only: ceiling_le_iff)
  then have "1 / x \<le> 10 ^ ?k" by simp
  then have "1 / 10 ^ ?k \<le> x" using assms by (simp add: field_simps)
  then show ?thesis by (simp add: e power_int_minus field_simps)
qed

lemma round_digits_error:
  assumes "0 < x"
  shows "\<bar>round_digits x - x\<bar> \<le> x * (1 / (2 * 10 ^ 13))"
proof -
  let ?u = "10 powi (dec_exponent x - 13) :: rat"
  have u: "0 < ?u" by simp
  have "round_digits x - x = (of_int (round_half_even (x / ?u)) - x / ?u) * ?u"
    using u by (simp add: round_digits_def Let_def left_diff_distrib)
  then have "\<bar>round_digits x - x\<bar> = \<bar>of_int (round_half_even (x / ?u)) - x / ?u\<bar> * ?u"
    using u by (simp add: abs_mult)
  also have "\<dots> \<le> 1 / 2 * ?u"
    using round_half_even_error u by (intro mult_right_mono) auto
  also have "?u = 10 powi (dec_exponent x) / 10 ^ 13" by (simp add: power_int_diff)
  also have "1 / 2 * (10 powi (dec_exponent x) / 10 ^ 13) \<le> x * (1 / (2 * 10 ^ 13))"
    using dec_exponent_lower [OF assms] by simp
  finally show ?thesis .
qed

text \<open>A whole number below \<open>10 ^ 14\<close> is a multiple of every rounding unit at or below it.\<close>

lemma unit_divides:
  assumes "e \<le> 13"
  shows "of_int c / (10 powi (e - 13)) = (of_int (c * 10 ^ nat (13 - e)) :: rat)"
proof -
  have "(10 :: rat) powi (e - 13) = 1 / 10 ^ nat (13 - e)"
    using assms by (simp add: power_int_def field_simps)
  then show ?thesis by simp
qed

lemma dec_exponent_small:
  assumes "0 < x" and "x < 10 ^ 14"
  shows "dec_exponent x \<le> 13"
proof (rule ccontr)
  assume "\<not> dec_exponent x \<le> 13"
  then have "(10::rat) powi 14 \<le> 10 powi (dec_exponent x)" by (intro power_int_increasing) auto
  with dec_exponent_lower [OF assms(1)] assms(2) show False by simp
qed

lemma round_digits_le:
  assumes "0 < x" and "x \<le> of_int c" and "c < 10 ^ 14"
  shows "round_digits x \<le> of_int c"
proof -
  let ?u = "10 powi (dec_exponent x - 13) :: rat"
  have "x < 10 ^ 14" using assms(2,3) by (metis of_int_less_iff of_int_numeral of_int_power order_le_less_trans)
  then have e: "dec_exponent x \<le> 13" by (rule dec_exponent_small [OF assms(1)])
  have "x / ?u \<le> of_int c / ?u" using assms(2) by (simp add: divide_right_mono)
  then have "round_half_even (x / ?u) \<le> c * 10 ^ nat (13 - dec_exponent x)"
    by (intro round_half_even_le) (simp only: unit_divides [OF e])
  then have "of_int (round_half_even (x / ?u)) \<le> of_int c / ?u"
    by (simp only: unit_divides [OF e] of_int_le_iff)
  then show ?thesis by (simp add: round_digits_def Let_def pos_le_divide_eq)
qed

lemma lua_tostring_nonneg: "0 \<le> x \<Longrightarrow> 0 \<le> lua_tostring x"
  by (simp add: lua_tostring_def round_digits_def Let_def round_half_even_nonneg)

lemma lua_tostring_le: "0 \<le> x \<Longrightarrow> x \<le> of_int c \<Longrightarrow> c < 10 ^ 14 \<Longrightarrow> lua_tostring x \<le> of_int c"
  by (auto simp: lua_tostring_def intro: round_digits_le)

lemma lua_tostring_error:
  "0 \<le> x \<Longrightarrow> \<bar>lua_tostring x - x\<bar> \<le> x * (1 / (2 * 10 ^ 13))"
  using round_digits_error [of x] by (auto simp: lua_tostring_def)

lemma lua_tostring_int:
  assumes "\<bar>n\<bar> < 10 ^ 14"
  shows "lua_tostring (of_int n) = of_int n"
proof -
  have exact: "round_digits (of_int m) = of_int m" if "0 < m" "m < 10 ^ 14" for m
  proof -
    have "(of_int m :: rat) < 10 ^ 14" using that(2) by (metis of_int_less_iff of_int_numeral of_int_power)
    then have e: "dec_exponent (of_int m) \<le> 13" using that(1) by (intro dec_exponent_small) simp_all
    show ?thesis
      unfolding round_digits_def Let_def unit_divides [OF e] round_half_even_int
      unfolding unit_divides [OF e, symmetric] by simp
  qed
  show ?thesis
    using exact [of n] exact [of "- n"] assms by (auto simp: lua_tostring_def)
qed

end
