(* ===== verification/Rate_Limiter.thy ===== *)
theory Rate_Limiter
  imports Redis_Server Lua_Number
begin

text \<open>
  The distributed rate limiter: \<^verbatim>\<open>packages/redis/client.py\<close> and the two Lua scripts
  \<^verbatim>\<open>token_bucket.lua\<close> and \<^verbatim>\<open>sliding_window.lua\<close>. A script runs atomically on
  the server, so it is one function from the server's state to its new state and its reply; any
  interleaving of gateway instances is a list of \<open>limiter_event\<close>s, which also contains the
  passing of server time and says for each check whether the server was reached and whether its
  reply arrived. The server is a parameter with the laws of \<open>redis_server\<close>.

  The theorems: the number of requests a token bucket admits over any such history, whatever the
  clocks show, the exact size of a burst, that the advertised wait suffices, the sliding window's
  limit in every window of time less the lag of the clocks and its exact decision, the decisions taken without Redis, independence of keys, and what disagreeing gateway
  clocks do to a bucket.
\<close>

section \<open>Policies and decisions\<close>

datatype RedisFailureMode = FAIL_OPEN | FAIL_CLOSED

datatype Algorithm = TOKEN_BUCKET | SLIDING_WINDOW

record RateLimitDecision =
  allowed :: bool
  remaining :: int
  retry_after_ms :: int
  rl_limit :: int
  degraded :: bool

record TokenBucketPolicy =
  capacity :: int
  refill_rate :: py_float
  tb_cost :: int
  tb_ttl_seconds :: int
  tb_failure_mode :: RedisFailureMode

record SlidingWindowPolicy =
  sw_limit :: int
  window_seconds :: int
  sw_ttl_seconds :: int
  sw_failure_mode :: RedisFailureMode

definition token_bucket_policy :: "int \<Rightarrow> py_float \<Rightarrow> TokenBucketPolicy" where
  "token_bucket_policy c r =
     \<lparr> capacity = c, refill_rate = r, tb_cost = 1, tb_ttl_seconds = 3600,
       tb_failure_mode = FAIL_CLOSED \<rparr>"

definition sliding_window_policy :: "int \<Rightarrow> int \<Rightarrow> SlidingWindowPolicy" where
  "sliding_window_policy l w =
     \<lparr> sw_limit = l, window_seconds = w, sw_ttl_seconds = 3600, sw_failure_mode = FAIL_CLOSED \<rparr>"

section \<open>The scripts\<close>

definition refilled :: "int \<Rightarrow> rat \<Rightarrow> int \<Rightarrow> rat \<Rightarrow> rat \<Rightarrow> rat" where
  "refilled cap rate now tokens last_refill =
     (let elapsed_ms = of_int now - last_refill;
          elapsed_ms = (if elapsed_ms < 0 then 0 else elapsed_ms);
          refill = (elapsed_ms / 1000) * rate
      in min (of_int cap) (tokens + refill))"

text \<open>
  A refused request divides the deficit by the refill rate; a rate of zero gives an infinite wait,
  whose conversion to the integer reply is left to the server (\<open>inf_reply\<close>).
\<close>

definition consume :: "int \<Rightarrow> rat \<Rightarrow> int \<Rightarrow> rat \<Rightarrow> int \<times> rat \<times> int" where
  "consume inf_reply rate cost tokens =
     (if of_int cost \<le> tokens then (1, tokens - of_int cost, 0)
      else (0, tokens,
            (if rate = 0 then inf_reply else \<lceil>((of_int cost - tokens) / rate) * 1000\<rceil>)))"

definition token_bucket_script ::
  "'db redis_ops \<Rightarrow> int \<Rightarrow> 'db \<Rightarrow> string \<Rightarrow> int \<Rightarrow> rat \<Rightarrow> int \<Rightarrow> int \<Rightarrow> int
    \<Rightarrow> 'db \<times> (int \<times> int \<times> int) option" where
  "token_bucket_script ops inf_reply db key cap rate cost now ttl =
     (case hmget ops db key [''tokens'', ''last_refill_ms''] of
        Some [tokens, last_refill] \<Rightarrow>
          (case (case tokens of
                   None \<Rightarrow> Some (of_int cap, of_int now)
                 | Some t \<Rightarrow> map_option (Pair t) last_refill) of
             None \<Rightarrow> (db, None)
           | Some (tokens, last_refill) \<Rightarrow>
               let tokens = refilled cap rate now tokens last_refill;
                   (admit, tokens, retry) = consume inf_reply rate cost tokens
               in case hset ops db key [(''tokens'', lua_tostring tokens),
                                        (''last_refill_ms'', lua_tostring (of_int now))] of
                    None \<Rightarrow> (db, None)
                  | Some db' \<Rightarrow> (expire ops db' key ttl, Some (admit, \<lfloor>tokens\<rfloor>, retry)))
      | _ \<Rightarrow> (db, None))"

text \<open>The text of a whole number under Lua's \<^verbatim>\<open>..\<close>, again \<^verbatim>\<open>%.14g\<close>.\<close>

definition lua_int_text :: "int \<Rightarrow> string" where
  "lua_int_text n =
     (if \<bar>n\<bar> < 10 ^ 14 then py_str_int n
      else let r = round_digits (of_int \<bar>n\<bar>);
               e = dec_exponent r;
               ds = py_rstrip (CHR ''0'') (str_of_nat (nat \<lfloor>r / 10 powi (e - 13)\<rfloor>))
           in (if n < 0 then ''-'' else []) @ take 1 ds
              @ (if length ds = 1 then [] else CHR ''.'' # drop 1 ds)
              @ ''e+'' @ str_of_nat (nat e))"

definition window_member :: "string \<Rightarrow> int \<Rightarrow> string" where
  "window_member member_id now = member_id @ '':'' @ lua_int_text now"

definition sliding_window_script ::
  "'db redis_ops \<Rightarrow> 'db \<Rightarrow> string \<Rightarrow> int \<Rightarrow> int \<Rightarrow> int \<Rightarrow> string \<Rightarrow> int
    \<Rightarrow> 'db \<times> (int \<times> int \<times> int) option" where
  "sliding_window_script ops db key limit window_ms now member_id ttl =
     (let window_start = now - window_ms in
      case zremrangebyscore_upto ops db key window_start of
        None \<Rightarrow> (db, None)
      | Some db1 \<Rightarrow>
          (case zcard ops db1 key of
             None \<Rightarrow> (db1, None)
           | Some current_count \<Rightarrow>
               if int current_count < limit then
                 (case zadd ops db1 key now (window_member member_id now) of
                    None \<Rightarrow> (db1, None)
                  | Some db2 \<Rightarrow> (expire ops db2 key ttl, Some (1, int current_count + 1, 0)))
               else
                 (case zrange_first_withscore ops db1 key of
                    None \<Rightarrow> (db1, None)
                  | Some oldest \<Rightarrow>
                      (expire ops db1 key ttl,
                       Some (0, int current_count,
                             (case oldest of
                                None \<Rightarrow> 0
                              | Some (_, oldest_score) \<Rightarrow>
                                  let retry = oldest_score + window_ms - now
                                  in if retry < 0 then 0 else retry))))))"

section \<open>The client\<close>

text \<open>What happens to one call: it is answered, it never reaches Redis, or its reply is lost.\<close>

datatype redis_fault = Answered | Unreachable | ReplyLost

definition py_int :: "rat \<Rightarrow> int" where
  "py_int x = (if x < 0 then \<lceil>x\<rceil> else \<lfloor>x\<rfloor>)"

definition now_ms :: "seconds \<Rightarrow> int" where
  "now_ms t = py_int (t * 1000)"

definition degraded_decision :: "RedisFailureMode \<Rightarrow> int \<Rightarrow> RateLimitDecision" where
  "degraded_decision failure_mode l =
     (let allow = (failure_mode = FAIL_OPEN) in
      \<lparr> allowed = allow, remaining = (if \<not> allow then 0 else l),
        retry_after_ms = (if \<not> allow then 1000 else 0), rl_limit = l, degraded = True \<rparr>)"

definition check_token_bucket ::
  "'db redis_ops \<Rightarrow> int \<Rightarrow> 'db \<Rightarrow> seconds \<Rightarrow> redis_fault \<Rightarrow> string \<Rightarrow> TokenBucketPolicy
    \<Rightarrow> 'db \<times> RateLimitDecision" where
  "check_token_bucket ops inf_reply db t fault key p =
     (let failed = degraded_decision (tb_failure_mode p) (capacity p) in
      if fault = Unreachable then (db, failed)
      else case token_bucket_script ops inf_reply db key (capacity p) (refill_rate p) (tb_cost p)
                  (now_ms t) (tb_ttl_seconds p) of
             (db', None) \<Rightarrow> (db', failed)
           | (db', Some (admit, rem, retry)) \<Rightarrow>
               (db', if fault = ReplyLost then failed
                     else \<lparr> allowed = (admit \<noteq> 0), remaining = rem, retry_after_ms = retry,
                            rl_limit = capacity p, degraded = False \<rparr>))"

definition check_sliding_window ::
  "'db redis_ops \<Rightarrow> 'db \<Rightarrow> seconds \<Rightarrow> string \<Rightarrow> redis_fault \<Rightarrow> string \<Rightarrow> SlidingWindowPolicy
    \<Rightarrow> 'db \<times> RateLimitDecision" where
  "check_sliding_window ops db t member_id fault key p =
     (let failed = degraded_decision (sw_failure_mode p) (sw_limit p) in
      if fault = Unreachable then (db, failed)
      else case sliding_window_script ops db key (sw_limit p) (window_seconds p * 1000)
                  (now_ms t) member_id (sw_ttl_seconds p) of
             (db', None) \<Rightarrow> (db', failed)
           | (db', Some (admit, count, retry)) \<Rightarrow>
               (db', if fault = ReplyLost then failed
                     else \<lparr> allowed = (admit \<noteq> 0), remaining = max 0 (sw_limit p - count),
                            retry_after_ms = retry, rl_limit = sw_limit p, degraded = False \<rparr>))"

section \<open>Histories\<close>

datatype limiter_event =
    Tick nat
  | TokenCheck string TokenBucketPolicy seconds redis_fault
  | WindowCheck string SlidingWindowPolicy seconds string redis_fault

type_synonym limiter_log = "(limiter_event \<times> RateLimitDecision) list"

fun limiter_step ::
  "'db redis_ops \<Rightarrow> int \<Rightarrow> 'db \<Rightarrow> limiter_event \<Rightarrow> 'db \<times> limiter_log" where
  "limiter_step ops inf_reply db (Tick d) = (elapse ops db d, [])"
| "limiter_step ops inf_reply db (TokenCheck k p t f) =
     (let (db', r) = check_token_bucket ops inf_reply db t f k p
      in (db', [(TokenCheck k p t f, r)]))"
| "limiter_step ops inf_reply db (WindowCheck k p t m f) =
     (let (db', r) = check_sliding_window ops db t m f k p
      in (db', [(WindowCheck k p t m f, r)]))"

fun limiter_run ::
  "'db redis_ops \<Rightarrow> int \<Rightarrow> 'db \<Rightarrow> limiter_event list \<Rightarrow> 'db \<times> limiter_log" where
  "limiter_run ops inf_reply db [] = (db, [])"
| "limiter_run ops inf_reply db (e # es) =
     (let (db1, l1) = limiter_step ops inf_reply db e;
          (db2, l2) = limiter_run ops inf_reply db1 es
      in (db2, l1 @ l2))"

fun event_key :: "limiter_event \<Rightarrow> string option" where
  "event_key (Tick _) = None"
| "event_key (TokenCheck k _ _ _) = Some k"
| "event_key (WindowCheck k _ _ _ _) = Some k"

fun event_time :: "limiter_event \<Rightarrow> int" where
  "event_time (Tick _) = 0"
| "event_time (TokenCheck _ _ t _) = now_ms t"
| "event_time (WindowCheck _ _ t _ _) = now_ms t"

fun executed :: "limiter_event \<Rightarrow> bool" where
  "executed (Tick _) = False"
| "executed (TokenCheck _ _ _ f) = (f \<noteq> Unreachable)"
| "executed (WindowCheck _ _ _ _ f) = (f \<noteq> Unreachable)"

definition check_times :: "string \<Rightarrow> limiter_event list \<Rightarrow> int list" where
  "check_times k es = map event_time (filter (\<lambda>e. event_key e = Some k \<and> executed e) es)"

definition admitted_times :: "string \<Rightarrow> limiter_log \<Rightarrow> int list" where
  "admitted_times k l = map (event_time \<circ> fst) (filter (\<lambda>p. event_key (fst p) = Some k \<and> allowed (snd p)) l)"

definition admitted_count :: "string \<Rightarrow> limiter_log \<Rightarrow> nat" where
  "admitted_count k l = length (admitted_times k l)"

text \<open>
  Of these, the ones that Redis granted, and the ones that were let through without it
  (\<^verbatim>\<open>FAIL_OPEN\<close>) and are counted nowhere.
\<close>

definition granted_times :: "string \<Rightarrow> limiter_log \<Rightarrow> int list" where
  "granted_times k l =
     map (event_time \<circ> fst) (filter (\<lambda>p. event_key (fst p) = Some k \<and> allowed (snd p) \<and> \<not> degraded (snd p)) l)"

definition granted_count :: "string \<Rightarrow> limiter_log \<Rightarrow> nat" where
  "granted_count k l = length (granted_times k l)"

definition uncounted :: "string \<Rightarrow> limiter_log \<Rightarrow> nat" where
  "uncounted k l = length (filter (\<lambda>p. event_key (fst p) = Some k \<and> allowed (snd p) \<and> degraded (snd p)) l)"

text \<open>The checks that let a request through without Redis: its failure mode says so and no answer came.\<close>

fun fails_open :: "string \<Rightarrow> limiter_event \<Rightarrow> bool" where
  "fails_open k (Tick _) \<longleftrightarrow> False"
| "fails_open k (TokenCheck k' p _ f) \<longleftrightarrow> k' = k \<and> tb_failure_mode p = FAIL_OPEN \<and> f \<noteq> Answered"
| "fails_open k (WindowCheck k' p _ _ f) \<longleftrightarrow> k' = k \<and> sw_failure_mode p = FAIL_OPEN \<and> f \<noteq> Answered"

definition open_failures :: "string \<Rightarrow> limiter_event list \<Rightarrow> nat" where
  "open_failures k es = length (filter (fails_open k) es)"

text \<open>
  The checks of one key. A bucket is shared by gateways that may differ in their failure mode and in
  nothing else.
\<close>

definition same_bucket :: "TokenBucketPolicy \<Rightarrow> TokenBucketPolicy \<Rightarrow> bool" where
  "same_bucket p p' \<longleftrightarrow> p'\<lparr>tb_failure_mode := tb_failure_mode p\<rparr> = p"

fun of_bucket :: "TokenBucketPolicy \<Rightarrow> string \<Rightarrow> limiter_event \<Rightarrow> bool" where
  "of_bucket p k (Tick _) \<longleftrightarrow> True"
| "of_bucket p k (TokenCheck k' p' _ _) \<longleftrightarrow> k' \<noteq> k \<or> same_bucket p p'"
| "of_bucket p k (WindowCheck k' _ _ _ _) \<longleftrightarrow> k' \<noteq> k"

text \<open>Readings of at most 14 digits, that is up to the year 5138.\<close>

definition short_readings :: "int list \<Rightarrow> bool" where
  "short_readings ts \<longleftrightarrow> list_all (\<lambda>t. \<bar>t\<bar> < 10 ^ 14) ts"

text \<open>
  How far the clock readings of successive checks move forward, all forward moves added up. Clocks
  that agree make this the time that has passed; a reading behind an earlier one makes it more.
\<close>

fun climb :: "int list \<Rightarrow> int" where
  "climb (t # u # ts) = max 0 (u - t) + climb (u # ts)"
| "climb _ = 0"

definition span :: "int list \<Rightarrow> int" where
  "span ts = (case ts of [] \<Rightarrow> 0 | t # _ \<Rightarrow> last ts - t)"

text \<open>
  How often a bucket is lost because its key expires, \<^verbatim>\<open>ttl_seconds\<close> of the server's time after
  the latest check, although it would not have been full again.
\<close>

definition lapsed :: "TokenBucketPolicy \<Rightarrow> nat \<Rightarrow> int \<Rightarrow> int \<Rightarrow> bool" where
  "lapsed p idle l now \<longleftrightarrow>
     1000 * tb_ttl_seconds p \<le> int idle \<and> refill_rate p * of_int (max 0 (now - l)) / 1000 < of_int (capacity p)"

fun lapses :: "TokenBucketPolicy \<Rightarrow> string \<Rightarrow> int option \<Rightarrow> nat \<Rightarrow> limiter_event list \<Rightarrow> nat" where
  "lapses p k prev idle [] = 0"
| "lapses p k prev idle (Tick d # es) = lapses p k prev (idle + d) es"
| "lapses p k prev idle (TokenCheck k' p' t f # es) =
     (if k' \<noteq> k \<or> f = Unreachable then lapses p k prev idle es
      else (case prev of None \<Rightarrow> 0 | Some l \<Rightarrow> if lapsed p idle l (now_ms t) then 1 else 0)
           + lapses p k (Some (now_ms t)) 0 es)"
| "lapses p k prev idle (WindowCheck k' p' t m f # es) = lapses p k prev idle es"

text \<open>What the rate limiter's scripts leave under a key, if anything: a bucket that is not overdrawn.\<close>

definition sound_bucket :: "redis_entry option \<Rightarrow> bool" where
  "sound_bucket e \<longleftrightarrow>
     (case e of
        None \<Rightarrow> True
      | Some (RHash h, ttl) \<Rightarrow>
          (case (h ''tokens'', h ''last_refill_ms'') of (Some tk, Some l) \<Rightarrow> 0 \<le> tk | _ \<Rightarrow> False)
      | _ \<Rightarrow> False)"

definition sane_bucket :: "TokenBucketPolicy \<Rightarrow> bool" where
  "sane_bucket p \<longleftrightarrow>
     0 \<le> capacity p \<and> capacity p < 10 ^ 14 \<and> 0 \<le> refill_rate p \<and> 0 \<le> tb_cost p
     \<and> 0 < tb_ttl_seconds p"

text \<open>The loss of precision of one store of the token count, at most.\<close>

definition store_error :: "TokenBucketPolicy \<Rightarrow> rat" where
  "store_error p = of_int (capacity p) / (2 * 10 ^ 13)"

text \<open>The tokens a check at \<open>now\<close> finds in the bucket, from what the key holds.\<close>

definition available :: "TokenBucketPolicy \<Rightarrow> int \<Rightarrow> redis_entry option \<Rightarrow> rat option" where
  "available p now e =
     (case hash_of e of
        None \<Rightarrow> None
      | Some h \<Rightarrow>
          (case h ''tokens'' of
             None \<Rightarrow> Some (refilled (capacity p) (refill_rate p) now (of_int (capacity p)) (of_int now))
           | Some tk \<Rightarrow> map_option (refilled (capacity p) (refill_rate p) now tk) (h ''last_refill_ms'')))"

definition left_over :: "TokenBucketPolicy \<Rightarrow> rat \<Rightarrow> rat" where
  "left_over p tk = (if of_int (tb_cost p) \<le> tk then tk - of_int (tb_cost p) else tk)"

definition bucket_entry :: "TokenBucketPolicy \<Rightarrow> rat \<Rightarrow> int \<Rightarrow> redis_entry option \<Rightarrow> redis_entry option" where
  "bucket_entry p tk now e =
     (if tb_ttl_seconds p \<le> 0 then None
      else Some (RHash ((case hash_of e of None \<Rightarrow> Map.empty | Some h \<Rightarrow> h)
                         (''tokens'' \<mapsto> lua_tostring tk, ''last_refill_ms'' \<mapsto> lua_tostring (of_int now))),
                 Some (tb_ttl_seconds p * 1000)))"

text \<open>
  What the stored bucket can give at most: it holds \<open>tk\<close> tokens as of time \<open>l\<close>, or it is
  absent, and then either \<open>tk\<close> is the whole capacity or it has been idle for its whole life time.
\<close>

definition bucket_bound :: "TokenBucketPolicy \<Rightarrow> redis_entry option \<Rightarrow> rat \<Rightarrow> int \<Rightarrow> nat \<Rightarrow> bool" where
  "bucket_bound p e tk l idle \<longleftrightarrow>
     0 \<le> tk \<and> tk \<le> of_int (capacity p)
     \<and> (case e of
          None \<Rightarrow> tk = of_int (capacity p) \<or> 1000 * tb_ttl_seconds p \<le> int idle
        | Some (v, ttl) \<Rightarrow>
            ttl = Some (1000 * tb_ttl_seconds p - int idle)
            \<and> (\<exists>h. v = RHash h \<and> h ''tokens'' = Some tk \<and> h ''last_refill_ms'' = Some (of_int l)))"

text \<open>
  The same for a sliding window. \<open>lag\<close> is how far a reading is behind an earlier one, at most;
  request ids are the 32 characters of \<^verbatim>\<open>uuid4().hex\<close> and are not repeated.
\<close>

definition window_ms :: "SlidingWindowPolicy \<Rightarrow> int" where
  "window_ms p = window_seconds p * 1000"

definition same_window :: "SlidingWindowPolicy \<Rightarrow> SlidingWindowPolicy \<Rightarrow> bool" where
  "same_window p p' \<longleftrightarrow> p'\<lparr>sw_failure_mode := sw_failure_mode p\<rparr> = p"

fun of_window :: "SlidingWindowPolicy \<Rightarrow> string \<Rightarrow> limiter_event \<Rightarrow> bool" where
  "of_window p k (Tick _) \<longleftrightarrow> True"
| "of_window p k (TokenCheck k' _ _ _) \<longleftrightarrow> k' \<noteq> k"
| "of_window p k (WindowCheck k' p' _ _ _) \<longleftrightarrow> k' \<noteq> k \<or> same_window p p'"

fun lag_from :: "int \<Rightarrow> int list \<Rightarrow> int" where
  "lag_from l [] = 0"
| "lag_from l (t # ts) = max (l - t) (lag_from (max l t) ts)"

definition lag :: "int list \<Rightarrow> int" where
  "lag ts = (case ts of [] \<Rightarrow> 0 | t # ts \<Rightarrow> lag_from t ts)"

text \<open>How often the key expires while a request may still be in the window; \<open>l\<close> is the latest reading.\<close>

definition window_lapsed :: "SlidingWindowPolicy \<Rightarrow> nat \<Rightarrow> int \<Rightarrow> int \<Rightarrow> bool" where
  "window_lapsed p idle l now \<longleftrightarrow> 1000 * sw_ttl_seconds p \<le> int idle \<and> now - l < window_ms p"

fun window_lapses :: "SlidingWindowPolicy \<Rightarrow> string \<Rightarrow> int option \<Rightarrow> nat \<Rightarrow> limiter_event list \<Rightarrow> nat" where
  "window_lapses p k prev idle [] = 0"
| "window_lapses p k prev idle (Tick d # es) = window_lapses p k prev (idle + d) es"
| "window_lapses p k prev idle (TokenCheck k' p' t f # es) = window_lapses p k prev idle es"
| "window_lapses p k prev idle (WindowCheck k' p' t m f # es) =
     (if k' \<noteq> k \<or> f = Unreachable then window_lapses p k prev idle es
      else (case prev of
              None \<Rightarrow> window_lapses p k (Some (now_ms t)) 0 es
            | Some l \<Rightarrow> (if window_lapsed p idle l (now_ms t) then 1 else 0)
                + window_lapses p k (Some (max l (now_ms t))) 0 es))"

fun member_ids :: "string \<Rightarrow> limiter_event list \<Rightarrow> string list" where
  "member_ids k [] = []"
| "member_ids k (WindowCheck k' p t m f # es) =
     (if k' = k \<and> f \<noteq> Unreachable then m # member_ids k es else member_ids k es)"
| "member_ids k (_ # es) = member_ids k es"

definition uuid_hex_ids :: "string list \<Rightarrow> bool" where
  "uuid_hex_ids ids \<longleftrightarrow> distinct ids \<and> list_all (\<lambda>m. length m = 32) ids"

definition in_window :: "int \<Rightarrow> int \<Rightarrow> int list \<Rightarrow> nat" where
  "in_window w b ts = length (filter (\<lambda>t. b - w < t \<and> t \<le> b) ts)"

text \<open>
  What a sorted set knows of the admitted requests \<open>ts\<close>, after checks with readings up to \<open>l\<close>
  and \<open>idle\<close> milliseconds: at least as many members as admissions above every score in the
  window. \<open>d\<close> is the lag of the readings.
\<close>

definition window_inv ::
  "SlidingWindowPolicy \<Rightarrow> int \<Rightarrow> redis_entry option \<Rightarrow> int list \<Rightarrow> int \<Rightarrow> nat \<Rightarrow> string list \<Rightarrow> bool" where
  "window_inv p d e ts l idle ids \<longleftrightarrow>
     (\<forall>t \<in> set ts. t \<le> l) \<and> (\<forall>b. int (in_window (window_ms p - d) b ts) \<le> max 0 (sw_limit p))
     \<and> (case e of
          None \<Rightarrow> filter (\<lambda>t. l - window_ms p < t) ts = [] \<or> 1000 * sw_ttl_seconds p \<le> int idle
        | Some (v, ttl) \<Rightarrow>
            ttl = Some (1000 * sw_ttl_seconds p - int idle)
            \<and> (\<exists>z. v = RZset z \<and> (\<forall>m \<in> dom z. take 32 m \<notin> set ids)
                 \<and> (\<forall>lo \<ge> l - window_ms p.
                      length (filter (\<lambda>t. lo < t) ts) \<le> card (dom (zset_above lo z)))))"

lemmas [limiter_defs] =
  refilled_def consume_def token_bucket_script_def sliding_window_script_def
  check_token_bucket_def check_sliding_window_def degraded_decision_def

section \<open>Lemmas on the scripts\<close>

lemma refilled_le: "refilled cap rate now tk l \<le> of_int cap"
  by (simp add: refilled_def Let_def)

lemma refilled_nonneg:
  "0 \<le> tk \<Longrightarrow> 0 \<le> rate \<Longrightarrow> 0 \<le> cap \<Longrightarrow> 0 \<le> refilled cap rate now tk l"
  by (simp add: refilled_def Let_def)

lemma refilled_le_linear:
  "refilled cap rate now tk (of_int l) \<le> tk + rate * of_int (max 0 (now - l)) / 1000"
  by (cases "l \<le> now") (simp_all add: refilled_def Let_def min_def max_def mult.commute)

lemma refilled_fresh [simp]: "refilled cap rate now (of_int cap) (of_int now) = of_int cap"
  by (simp add: refilled_def)

lemma refilled_same_time: "tk \<le> of_int cap \<Longrightarrow> refilled cap rate now tk (of_int now) = tk"
  by (simp add: refilled_def)

lemma available_absent [simp]: "available p now None = Some (of_int (capacity p))"
  by (simp add: available_def hash_of_def)

lemma available_hash [simp]:
  "h ''tokens'' = Some tk \<Longrightarrow> h ''last_refill_ms'' = Some l \<Longrightarrow>
   available p now (Some (RHash h, ttl)) = Some (refilled (capacity p) (refill_rate p) now tk l)"
  by (simp add: available_def hash_of_def)

lemma available_le: "available p now e = Some tk \<Longrightarrow> tk \<le> of_int (capacity p)"
  by (auto simp: available_def refilled_le split: option.splits)

lemma left_over_store:
  assumes "0 \<le> tk" and "tk \<le> of_int (capacity p)" and "sane_bucket p"
  shows "0 \<le> lua_tostring (left_over p tk)"
    and "lua_tostring (left_over p tk) \<le> of_int (capacity p)"
    and "lua_tostring (left_over p tk) \<le> left_over p tk + store_error p"
    and "left_over p tk \<le> lua_tostring (left_over p tk) + store_error p"
proof -
  have nonneg: "0 \<le> left_over p tk" using assms by (simp add: left_over_def)
  have le: "left_over p tk \<le> of_int (capacity p)" using assms by (simp add: left_over_def sane_bucket_def)
  show "0 \<le> lua_tostring (left_over p tk)" by (rule lua_tostring_nonneg [OF nonneg])
  show "lua_tostring (left_over p tk) \<le> of_int (capacity p)"
    using assms(3) by (intro lua_tostring_le [OF nonneg le]) (simp add: sane_bucket_def)
  have "\<bar>lua_tostring (left_over p tk) - left_over p tk\<bar> \<le> left_over p tk * (1 / (2 * 10 ^ 13))"
    by (rule lua_tostring_error [OF nonneg])
  also have "\<dots> \<le> store_error p" using le by (simp add: store_error_def)
  finally have "\<bar>lua_tostring (left_over p tk) - left_over p tk\<bar> \<le> store_error p" .
  then show "lua_tostring (left_over p tk) \<le> left_over p tk + store_error p"
    and "left_over p tk \<le> lua_tostring (left_over p tk) + store_error p" by (simp_all add: abs_le_iff)
qed

lemma degraded_decision_simps [simp]:
  "allowed (degraded_decision m l) \<longleftrightarrow> m = FAIL_OPEN"
  "degraded (degraded_decision m l)"
  by (simp_all add: degraded_decision_def Let_def)

text \<open>What a check can find in a bucket: at most what the budget says, unless the key has expired.\<close>

lemma bucket_bound_available:
  assumes "bucket_bound p e tk l idle" and "sane_bucket p"
  obtains av where "available p now e = Some av" and "0 \<le> av" and "av \<le> of_int (capacity p)"
    and "av \<le> tk + of_int (capacity p) * (if lapsed p idle l now then 1 else 0) + refill_rate p * of_int (max 0 (now - l)) / 1000"
proof -
  have sane: "0 \<le> capacity p" "0 \<le> refill_rate p" using assms(2) by (simp_all add: sane_bucket_def)
  have tk: "0 \<le> tk" using assms(1) by (simp add: bucket_bound_def)
  have refill: "0 \<le> refill_rate p * of_int (max 0 (now - l)) / 1000" using sane by (simp add: max_def)
  show ?thesis
  proof (cases e)
    case None
    then have "tk = of_int (capacity p) \<or> 1000 * tb_ttl_seconds p \<le> int idle"
      using assms(1) by (simp add: bucket_bound_def)
    then have "of_int (capacity p) \<le> tk + of_int (capacity p) * (if lapsed p idle l now then 1 else 0)
        + refill_rate p * of_int (max 0 (now - l)) / 1000"
      using tk refill by (auto simp: lapsed_def not_less simp del: of_int_max)
    with None sane that show ?thesis by simp
  next
    case (Some x)
    then obtain h where h: "x = (RHash h, Some (1000 * tb_ttl_seconds p - int idle))"
      "h ''tokens'' = Some tk" "h ''last_refill_ms'' = Some (of_int l)"
      using assms(1) by (cases x) (auto simp: bucket_bound_def)
    let ?av = "refilled (capacity p) (refill_rate p) now tk (of_int l)"
    show ?thesis
    proof (rule that)
      show "available p now e = Some ?av" by (simp add: Some h)
      show "0 \<le> ?av" using sane tk by (simp add: refilled_nonneg)
      have "0 \<le> (of_int (capacity p) * (if lapsed p idle l now then 1 else 0) :: rat)" using sane by simp
      with refilled_le_linear [of "capacity p" "refill_rate p" now tk l]
      show "?av \<le> tk + of_int (capacity p) * (if lapsed p idle l now then 1 else 0)
          + refill_rate p * of_int (max 0 (now - l)) / 1000" by linarith
    qed (rule refilled_le)
  qed
qed

lemma sound_bucket_available:
  assumes "sound_bucket e" and "sane_bucket p"
  obtains av where "available p now e = Some av" and "0 \<le> av" and "av \<le> of_int (capacity p)"
proof (cases e)
  case None
  with that assms(2) show ?thesis by (simp add: sane_bucket_def)
next
  case (Some x)
  then obtain h ttl tk l where "e = Some (RHash h, ttl)" "h ''tokens'' = Some tk" "h ''last_refill_ms'' = Some l" "0 \<le> tk"
    using assms(1) by (auto simp: sound_bucket_def split: prod.splits redis_value.splits option.splits)
  with that [of "refilled (capacity p) (refill_rate p) now tk l"] assms(2) show ?thesis
    by (simp add: refilled_nonneg refilled_le sane_bucket_def)
qed

lemma bucket_bound_sound: "bucket_bound p e tk l idle \<Longrightarrow> sound_bucket e"
  by (auto simp: bucket_bound_def sound_bucket_def split: option.splits)

lemma bucket_bound_stored:
  assumes "sane_bucket p" and "0 \<le> av" and "av \<le> of_int (capacity p)" and "\<bar>now\<bar> < 10 ^ 14"
  shows "bucket_bound p (bucket_entry p (left_over p av) now e) (lua_tostring (left_over p av)) now 0"
  using assms left_over_store [OF assms(2,3,1)] lua_tostring_int [OF assms(4)]
  by (simp add: bucket_bound_def bucket_entry_def sane_bucket_def)

lemma check_times_simps:
  "check_times k [] = []"
  "check_times k (e # es) =
     (if event_key e = Some k \<and> executed e then event_time e # check_times k es else check_times k es)"
  by (simp_all add: check_times_def)

lemma admitted_append [simp]:
  "admitted_count k (l1 @ l2) = admitted_count k l1 + admitted_count k l2"
  by (simp add: admitted_count_def admitted_times_def)

lemma granted_append [simp]:
  "granted_count k (l1 @ l2) = granted_count k l1 + granted_count k l2"
  "granted_times k (l1 @ l2) = granted_times k l1 @ granted_times k l2"
  by (simp_all add: granted_count_def granted_times_def)

lemma granted_simps [simp]:
  "granted_count k [] = 0"
  "granted_count k [(e, d)] = (if event_key e = Some k \<and> allowed d \<and> \<not> degraded d then 1 else 0)"
  "granted_times k [] = []"
  "granted_times k [(e, d)] = (if event_key e = Some k \<and> allowed d \<and> \<not> degraded d then [event_time e] else [])"
  by (simp_all add: granted_count_def granted_times_def)

lemma admitted_granted: "admitted_count k l = granted_count k l + uncounted k l"
  unfolding admitted_count_def admitted_times_def granted_count_def granted_times_def uncounted_def
  by (induction l) auto

lemma uncounted_simps [simp]:
  "uncounted k [] = 0"
  "uncounted k [(e, d)] = (if event_key e = Some k \<and> allowed d \<and> degraded d then 1 else 0)"
  "uncounted k (l1 @ l2) = uncounted k l1 + uncounted k l2"
  by (simp_all add: uncounted_def)

lemma open_failures_simps [simp]:
  "open_failures k [] = 0"
  "open_failures k (e # es) = (if fails_open k e then 1 else 0) + open_failures k es"
  by (simp_all add: open_failures_def)

lemma admitted_simps [simp]:
  "admitted_count k [] = 0"
  "admitted_count k [(e, d)] = (if event_key e = Some k \<and> allowed d then 1 else 0)"
  by (simp_all add: admitted_count_def admitted_times_def)

lemma limiter_run_Cons:
  "fst (limiter_run ops ir db (e # es)) = fst (limiter_run ops ir (fst (limiter_step ops ir db e)) es)"
  "snd (limiter_run ops ir db (e # es)) =
     snd (limiter_step ops ir db e) @ snd (limiter_run ops ir (fst (limiter_step ops ir db e)) es)"
  by (simp_all split: prod.split)

lemma step_key: "(e', d) \<in> set (snd (limiter_step ops ir db e)) \<Longrightarrow> e' = e"
  by (cases e) (auto split: prod.splits)

lemma step_other_granted:
  "event_key e \<noteq> Some k \<or> \<not> executed e \<Longrightarrow>
   granted_count k (snd (limiter_step ops ir db e)) = 0 \<and> granted_times k (snd (limiter_step ops ir db e)) = []"
  by (cases e) (auto simp: check_token_bucket_def check_sliding_window_def split: prod.splits)

lemma check_times_skip: "event_key e \<noteq> Some k \<or> \<not> executed e \<Longrightarrow> check_times k (e # es) = check_times k es"
  by (auto simp: check_times_simps)

lemma climb_sorted: "sorted ts \<Longrightarrow> climb ts = span ts"
  by (induction ts rule: climb.induct) (auto simp: span_def)

lemma same_bucketD:
  "same_bucket p p' \<Longrightarrow> capacity p' = capacity p \<and> refill_rate p' = refill_rate p \<and> tb_cost p' = tb_cost p
     \<and> tb_ttl_seconds p' = tb_ttl_seconds p"
  by (metis TokenBucketPolicy.select_convs TokenBucketPolicy.surjective TokenBucketPolicy.update_convs(5) same_bucket_def)

lemma same_bucket_eqs:
  assumes "same_bucket p p'"
  shows "available p' = available p" "left_over p' = left_over p" "bucket_entry p' = bucket_entry p"
    "capacity p' = capacity p" "tb_cost p' = tb_cost p"
  using same_bucketD [OF assms]
  by (simp_all add: fun_eq_iff available_def left_over_def bucket_entry_def split: option.split)

context redis_server
begin

text \<open>One run of the token-bucket script, on what the key held before.\<close>

lemma token_script:
  assumes "available p now (peek ops db k) = Some tk"
  obtains db' where
    "token_bucket_script ops ir db k (capacity p) (refill_rate p) (tb_cost p) now (tb_ttl_seconds p)
      = (db', Some (if of_int (tb_cost p) \<le> tk then 1 else 0, \<lfloor>left_over p tk\<rfloor>,
                    snd (snd (consume ir (refill_rate p) (tb_cost p) tk))))"
    and "\<And>k'. peek ops db' k' =
      (if k' = k then bucket_entry p (left_over p tk) now (peek ops db k) else peek ops db k')"
proof -
  let ?fvs = "[(''tokens'', lua_tostring (left_over p tk)), (''last_refill_ms'', lua_tostring (of_int now))]"
  obtain h where h: "hash_of (peek ops db k) = Some h"
    using assms by (auto simp: available_def split: option.splits)
  then obtain db1 where db1: "hset ops db k ?fvs = Some db1"
    using hset_error [of db k ?fvs] by (cases "hset ops db k ?fvs") auto
  define r where "r = snd (snd (consume ir (refill_rate p) (tb_cost p) tk))"
  have cons: "consume ir (refill_rate p) (tb_cost p) tk =
      (if of_int (tb_cost p) \<le> tk then 1 else 0, left_over p tk, r)"
    by (simp add: consume_def left_over_def r_def)
  obtain a b where ab: "(case h ''tokens'' of None \<Rightarrow> Some (of_int (capacity p), of_int now)
        | Some t \<Rightarrow> map_option (Pair t) (h ''last_refill_ms'')) = Some (a, b)"
    and tk: "refilled (capacity p) (refill_rate p) now a b = tk"
    using assms h by (auto simp: available_def split: option.splits)
  have "token_bucket_script ops ir db k (capacity p) (refill_rate p) (tb_cost p) now (tb_ttl_seconds p)
      = (expire ops db1 k (tb_ttl_seconds p),
         Some (if of_int (tb_cost p) \<le> tk then 1 else 0, \<lfloor>left_over p tk\<rfloor>, r))"
    unfolding token_bucket_script_def hmget_law h option.map list.map option.case list.case ab
      prod.case Let_def tk cons db1 ..
  moreover have "peek ops (expire ops db1 k (tb_ttl_seconds p)) k' =
      (if k' = k then bucket_entry p (left_over p tk) now (peek ops db k) else peek ops db k')" for k'
    using hset_law [OF db1 _ h] by (simp add: expire_law bucket_entry_def h)
  ultimately show ?thesis unfolding r_def by (rule that)
qed

lemma token_script_error:
  assumes "available p now (peek ops db k) = None"
  shows "token_bucket_script ops ir db k (capacity p) (refill_rate p) (tb_cost p) now ttl = (db, None)"
proof (cases "hash_of (peek ops db k)")
  case None
  then show ?thesis by (simp add: token_bucket_script_def hmget_law)
next
  case (Some h)
  with assms show ?thesis
    by (auto simp: available_def token_bucket_script_def hmget_law split: option.splits)
qed

lemma token_check:
  assumes "available p (now_ms t) (peek ops db k) = Some tk" and "f \<noteq> Unreachable"
  obtains db' where
    "check_token_bucket ops ir db t f k p =
      (db', if f = ReplyLost then degraded_decision (tb_failure_mode p) (capacity p)
            else \<lparr> allowed = (of_int (tb_cost p) \<le> tk), remaining = \<lfloor>left_over p tk\<rfloor>,
                   retry_after_ms = snd (snd (consume ir (refill_rate p) (tb_cost p) tk)),
                   rl_limit = capacity p, degraded = False \<rparr>)"
    and "\<And>k'. peek ops db' k' =
      (if k' = k then bucket_entry p (left_over p tk) (now_ms t) (peek ops db k) else peek ops db k')"
proof -
  obtain db' where
    "token_bucket_script ops ir db k (capacity p) (refill_rate p) (tb_cost p) (now_ms t) (tb_ttl_seconds p)
      = (db', Some (if of_int (tb_cost p) \<le> tk then 1 else 0, \<lfloor>left_over p tk\<rfloor>,
                    snd (snd (consume ir (refill_rate p) (tb_cost p) tk))))"
    and frame: "\<And>k'. peek ops db' k' =
      (if k' = k then bucket_entry p (left_over p tk) (now_ms t) (peek ops db k) else peek ops db k')"
    by (rule token_script [OF assms(1), of ir]) blast
  with assms(2) show ?thesis by (intro that [OF _ frame]) (simp add: check_token_bucket_def Let_def)
qed

text \<open>One run of the sliding-window script: the decision, and what the key holds afterwards.\<close>

lemma window_script_error:
  "zset_of (peek ops db k) = None \<Longrightarrow> sliding_window_script ops db k l w now m ttl = (db, None)"
  using zrem_error [of db k "now - w"] by (simp add: sliding_window_script_def)

lemma window_zrem:
  assumes "zset_of (peek ops db k) = Some z"
  obtains db1 where "zremrangebyscore_upto ops db k b = Some db1"
    and "\<And>k'. peek ops db1 k' =
      (if k' = k then zset_entry (zset_above b z) (ttl_of (peek ops db k)) else peek ops db k')"
    and "zset_of (peek ops db1 k) = Some (zset_above b z)"
proof -
  obtain db1 where db1: "zremrangebyscore_upto ops db k b = Some db1"
    using assms zrem_error [of db k b] by (cases "zremrangebyscore_upto ops db k b") auto
  note law = zrem_law [OF db1 assms]
  have "zset_of (peek ops db1 k) = Some (zset_above b z)"
    by (auto simp: law zset_of_def zset_entry_def)
  with that db1 law show ?thesis by blast
qed

lemma window_script_admit:
  assumes "zset_of (peek ops db k) = Some z" and "z' = zset_above (now - w) z"
    and "int (card (dom z')) < l"
  obtains db' where
    "sliding_window_script ops db k l w now m ttl = (db', Some (1, int (card (dom z')) + 1, 0))"
    and "\<And>k'. peek ops db' k' =
      (if k' = k then (if ttl \<le> 0 then None
                       else Some (RZset (z'(window_member m now \<mapsto> now)), Some (ttl * 1000)))
       else peek ops db k')"
proof -
  obtain db1 where db1: "zremrangebyscore_upto ops db k (now - w) = Some db1"
    and peek1: "\<And>k'. peek ops db1 k' =
      (if k' = k then zset_entry z' (ttl_of (peek ops db k)) else peek ops db k')"
    and z1: "zset_of (peek ops db1 k) = Some z'"
    using window_zrem [OF assms(1), of "now - w"] unfolding assms(2) by blast
  obtain db2 where db2: "zadd ops db1 k now (window_member m now) = Some db2"
    using z1 zadd_error [of db1 k now "window_member m now"] by fastforce
  have "sliding_window_script ops db k l w now m ttl
      = (expire ops db2 k ttl, Some (1, int (card (dom z')) + 1, 0))"
    using assms(3) by (simp add: sliding_window_script_def db1 db2 zcard_law z1)
  then show ?thesis
    by (rule that) (simp add: expire_law zadd_law [OF db2 z1] peek1)
qed

lemma window_script_refuse:
  assumes "zset_of (peek ops db k) = Some z" and "z' = zset_above (now - w) z"
    and "\<not> int (card (dom z')) < l"
  obtains db' retry where
    "sliding_window_script ops db k l w now m ttl = (db', Some (0, int (card (dom z')), retry))"
    and "\<And>k'. peek ops db' k' =
      (if k' = k then (if ttl \<le> 0 then None else zset_entry z' (Some (ttl * 1000))) else peek ops db k')"
    and "dom z' = {} \<and> retry = 0
      \<or> (\<exists>mm s. z' mm = Some s \<and> (\<forall>mm' s'. z' mm' = Some s' \<longrightarrow> s \<le> s') \<and> retry = s + w - now)"
proof -
  obtain db1 where db1: "zremrangebyscore_upto ops db k (now - w) = Some db1"
    and peek1: "\<And>k'. peek ops db1 k' =
      (if k' = k then zset_entry z' (ttl_of (peek ops db k)) else peek ops db k')"
    and z1: "zset_of (peek ops db1 k) = Some z'"
    using window_zrem [OF assms(1), of "now - w"] unfolding assms(2) by blast
  obtain first where first: "zrange_first_withscore ops db1 k = Some first"
    using z1 zrange_error [of db1 k] by fastforce
  let ?retry = "case first of None \<Rightarrow> 0 | Some (_, s) \<Rightarrow> let r = s + w - now in if r < 0 then 0 else r"
  have "sliding_window_script ops db k l w now m ttl
      = (expire ops db1 k ttl, Some (0, int (card (dom z')), ?retry))"
    using assms(3) by (simp add: sliding_window_script_def db1 first zcard_law z1)
  then show ?thesis
  proof (rule that)
    show "peek ops (expire ops db1 k ttl) k' =
      (if k' = k then (if ttl \<le> 0 then None else zset_entry z' (Some (ttl * 1000))) else peek ops db k')" for k'
      by (simp add: expire_law peek1 zset_entry_def)
    show "dom z' = {} \<and> ?retry = 0
      \<or> (\<exists>mm s. z' mm = Some s \<and> (\<forall>mm' s'. z' mm' = Some s' \<longrightarrow> s \<le> s') \<and> ?retry = s + w - now)"
    proof (cases first)
      case None
      with zrange_empty [of db1 k z'] z1 first show ?thesis by simp
    next
      case (Some x)
      obtain mm s where x: "x = (mm, s)" by (cases x)
      have least: "z' mm = Some s \<and> (\<forall>mm' s'. z' mm' = Some s' \<longrightarrow> s \<le> s')"
        using zrange_first [of db1 k mm s z'] first Some x z1 by simp
      then have "now - w < s" using assms(2) by simp
      with least show ?thesis by (intro disjI2 exI [of _ mm] exI [of _ s]) (simp add: Some x)
    qed
  qed
qed

text \<open>No event touches another key; server time touches a key only through its expiry.\<close>

lemma step_other_key:
  assumes "event_key e \<noteq> Some k" and "event_key e \<noteq> None"
  shows "peek ops (fst (limiter_step ops ir db e)) k = peek ops db k"
proof (cases e)
  case (Tick d)
  with assms show ?thesis by simp
next
  case (TokenCheck k' p t f)
  with assms have ne: "k \<noteq> k'" by auto
  show ?thesis
  proof (cases "available p (now_ms t) (peek ops db k')")
    case None
    with TokenCheck show ?thesis by (simp add: check_token_bucket_def token_script_error Let_def)
  next
    case (Some tk)
    show ?thesis
    proof (cases "f = Unreachable")
      case False
      show ?thesis by (rule token_check [OF Some False, of ir]) (use TokenCheck ne in simp)
    qed (use TokenCheck in \<open>simp add: check_token_bucket_def\<close>)
  qed
next
  case (WindowCheck k' p t m f)
  with assms have ne: "k \<noteq> k'" by auto
  let ?s = "sliding_window_script ops db k' (sw_limit p) (window_seconds p * 1000) (now_ms t) m (sw_ttl_seconds p)"
  have "peek ops (fst ?s) k = peek ops db k"
  proof (cases "zset_of (peek ops db k')")
    case None
    then show ?thesis by (simp add: window_script_error)
  next
    case (Some z)
    show ?thesis
    proof (cases "int (card (dom (zset_above (now_ms t - window_seconds p * 1000) z))) < sw_limit p")
      case True
      show ?thesis
        by (rule window_script_admit [OF Some refl True, of m "sw_ttl_seconds p"]) (use ne in simp)
    next
      case False
      show ?thesis
        by (rule window_script_refuse [OF Some refl False, of m "sw_ttl_seconds p"]) (use ne in simp)
    qed
  qed
  with WindowCheck show ?thesis
    by (auto simp: check_sliding_window_def Let_def split: prod.splits option.splits)
qed

lemma bucket_bound_elapse:
  assumes "bucket_bound p (peek ops db k) tk l idle"
  shows "bucket_bound p (peek ops (elapse ops db d) k) tk l (idle + d)"
proof (cases "peek ops db k")
  case None
  then show ?thesis using assms elapse_absent [OF None, of d] by (auto simp: bucket_bound_def)
next
  case (Some x)
  then obtain h where h: "peek ops db k = Some (RHash h, Some (1000 * tb_ttl_seconds p - int idle))"
    "h ''tokens'' = Some tk" "h ''last_refill_ms'' = Some (of_int l)"
    using assms by (cases x) (auto simp: bucket_bound_def)
  show ?thesis
    by (rule elapse_value [OF h(1), of d])
      (use assms Some h in \<open>auto simp: bucket_bound_def\<close>)
qed

lemma sound_bucket_elapse:
  assumes "sound_bucket (peek ops db k)"
  shows "sound_bucket (peek ops (elapse ops db d) k)"
proof (cases "peek ops db k")
  case None
  then show ?thesis using elapse_absent [OF None, of d] by (simp add: sound_bucket_def)
next
  case (Some x)
  obtain v ttl where x: "x = (v, ttl)" by (cases x)
  show ?thesis
  proof (cases ttl)
    case None
    with assms Some x elapse_persistent [of db k v d] show ?thesis by (simp add: sound_bucket_def)
  next
    case (Some n)
    have p: "peek ops db k = Some (v, Some n)" using \<open>peek ops db k = Some x\<close> x Some by simp
    show ?thesis
      by (rule elapse_value [OF p, of d]) (use assms p in \<open>simp_all add: sound_bucket_def\<close>)
  qed
qed

text \<open>The effect of one reached check on the budget of a bucket.\<close>

lemma token_check_budget:
  assumes av: "available p (now_ms t) (peek ops db k) = Some av" "0 \<le> av" "av \<le> of_int (capacity p)" "av \<le> budget"
    and "sane_bucket p" and "same_bucket p p'" and "\<bar>now_ms t\<bar> < 10 ^ 14" and "f \<noteq> Unreachable"
  obtains db' r tk' where "limiter_step ops ir db (TokenCheck k p' t f) = (db', [(TokenCheck k p' t f, r)])"
    and "bucket_bound p (peek ops db' k) tk' (now_ms t) 0"
    and "of_int (tb_cost p) * (if allowed r \<and> \<not> degraded r then 1 else 0) + tk' \<le> budget + store_error p"
proof -
  note store = left_over_store [OF av(2,3) assms(5)]
  note eqs = same_bucket_eqs [OF assms(6)]
  have av': "available p' (now_ms t) (peek ops db k) = Some av" using av(1) eqs(1) by simp
  show ?thesis
  proof (rule token_check [OF av' assms(8), of ir])
    fix db'
    let ?r = "if f = ReplyLost then degraded_decision (tb_failure_mode p') (capacity p')
              else \<lparr> allowed = (of_int (tb_cost p') \<le> av), remaining = \<lfloor>left_over p' av\<rfloor>,
                     retry_after_ms = snd (snd (consume ir (refill_rate p') (tb_cost p') av)),
                     rl_limit = capacity p', degraded = False \<rparr>"
    assume "check_token_bucket ops ir db t f k p' = (db', ?r)"
    then have "limiter_step ops ir db (TokenCheck k p' t f) = (db', [(TokenCheck k p' t f, ?r)])" by simp
    moreover assume "\<And>k'. peek ops db' k' =
      (if k' = k then bucket_entry p' (left_over p' av) (now_ms t) (peek ops db k) else peek ops db k')"
    then have "bucket_bound p (peek ops db' k) (lua_tostring (left_over p av)) (now_ms t) 0"
      using bucket_bound_stored [OF assms(5) av(2,3) assms(7)] by (simp add: eqs)
    moreover have "of_int (tb_cost p) * (if allowed ?r \<and> \<not> degraded ?r then 1 else 0) \<le> av - left_over p av"
      using assms(5) by (auto simp: eqs left_over_def sane_bucket_def)
    then have "of_int (tb_cost p) * (if allowed ?r \<and> \<not> degraded ?r then 1 else 0) + lua_tostring (left_over p av)
        \<le> budget + store_error p"
      using store(3) av(4) by linarith
    ultimately show ?thesis by (rule that)
  qed
qed

text \<open>The events of a history, as the checks of one bucket see them.\<close>

lemma of_bucket_cases:
  assumes "of_bucket p k e"
  obtains (tick) d where "e = Tick d"
    | (skip) "event_key e \<noteq> Some k \<or> \<not> executed e" "\<And>d. e \<noteq> Tick d"
      "\<And>db. peek ops (fst (limiter_step ops ir db e)) k = peek ops db k"
      "\<And>prev idle es. lapses p k prev idle (e # es) = lapses p k prev idle es"
    | (check) p' t f where "e = TokenCheck k p' t f" "same_bucket p p'" "f \<noteq> Unreachable"
proof (cases e)
  case (Tick d)
  then show ?thesis by (rule tick)
next
  case (WindowCheck k' p' t m f)
  with assms skip step_other_key [of e k] show ?thesis by simp
next
  case (TokenCheck k' p' t f)
  show ?thesis
  proof (cases "k' = k \<and> f \<noteq> Unreachable")
    case True
    with TokenCheck assms show ?thesis by (intro check [of p' t f]) auto
  next
    case False
    then show ?thesis
    proof (cases "k' = k")
      case True
      with False TokenCheck show ?thesis by (intro skip) (simp_all add: check_token_bucket_def)
    next
      case False
      with TokenCheck step_other_key [of e k] show ?thesis by (intro skip) simp_all
    qed
  qed
qed

text \<open>Every check finds a bucket to count in, so only a missing answer lets a request through uncounted.\<close>

lemma token_step_counts:
  assumes "sound_bucket (peek ops db k)" and "of_bucket p k e" and "sane_bucket p"
  shows "uncounted k (snd (limiter_step ops ir db e)) = (if fails_open k e then 1 else 0)
    \<and> sound_bucket (peek ops (fst (limiter_step ops ir db e)) k)"
  using assms(2)
proof (cases rule: of_bucket_cases [where ir = ir])
  case (tick d)
  then show ?thesis using sound_bucket_elapse [OF assms(1)] by simp
next
  case skip
  have "uncounted k (snd (limiter_step ops ir db e)) = (if fails_open k e then 1 else 0)"
    using skip(1,2) assms(2) by (cases e) (auto simp: check_token_bucket_def split: prod.splits)
  with skip(3) assms(1) show ?thesis by simp
next
  case (check p' t f)
  obtain av where av: "available p (now_ms t) (peek ops db k) = Some av" "0 \<le> av" "av \<le> of_int (capacity p)"
    by (rule sound_bucket_available [OF assms(1,3)])
  note eqs = same_bucket_eqs [OF check(2)]
  have av': "available p' (now_ms t) (peek ops db k) = Some av" using av(1) eqs(1) by simp
  have sound: "sound_bucket (bucket_entry p (left_over p av) (now_ms t) (peek ops db k))"
    using left_over_store(1) [OF av(2,3) assms(3)] by (simp add: bucket_entry_def sound_bucket_def)
  show ?thesis
    by (rule token_check [OF av' check(3), of ir])
      (use check sound eqs in \<open>cases f; simp\<close>)
qed

lemma token_run_counts:
  assumes "sound_bucket (peek ops db k)" and "list_all (of_bucket p k) es" and "sane_bucket p"
  shows "uncounted k (snd (limiter_run ops ir db es)) = open_failures k es
    \<and> sound_bucket (peek ops (fst (limiter_run ops ir db es)) k)"
  using assms(1,2)
proof (induction es arbitrary: db)
  case (Cons e es)
  have es: "of_bucket p k e" "list_all (of_bucket p k) es" using Cons.prems(2) by simp_all
  note step = token_step_counts [OF Cons.prems(1) es(1) assms(3), of ir]
  from Cons.IH [OF conjunct2 [OF step] es(2)] step show ?case
    by (simp only: limiter_run_Cons uncounted_simps open_failures_simps)
qed simp

lemma token_bound_step:
  assumes step: "limiter_step ops ir db e = (db', [(e, r)])" and e: "e = TokenCheck k p' t f" "f \<noteq> Unreachable"
    and budget: "of_int (tb_cost p) * (if allowed r \<and> \<not> degraded r then 1 else 0) + tk' \<le> B + store_error p"
    and rest: "of_int (tb_cost p) * of_nat (granted_count k (snd (limiter_run ops ir db' es)))
      \<le> tk' + R + of_nat (length (check_times k es)) * store_error p"
  shows "of_int (tb_cost p) * of_nat (granted_count k (snd (limiter_run ops ir db (e # es))))
    \<le> B + R + of_nat (length (check_times k (e # es))) * store_error p"
proof -
  have times: "length (check_times k (e # es)) = Suc (length (check_times k es))"
    using e by (simp add: check_times_simps)
  have "of_int (tb_cost p) * of_nat (granted_count k (snd (limiter_run ops ir db (e # es))))
      = of_int (tb_cost p) * (if allowed r \<and> \<not> degraded r then 1 else 0)
        + of_int (tb_cost p) * of_nat (granted_count k (snd (limiter_run ops ir db' es)))"
    using step e by (simp only: limiter_run_Cons granted_append) (simp add: distrib_left)
  also have "\<dots> \<le> B + R + of_nat (length (check_times k (e # es))) * store_error p"
    using rest budget by (simp add: times distrib_right)
  finally show ?thesis .
qed

lemma granted_skip:
  assumes "event_key e \<noteq> Some k \<or> \<not> executed e"
  shows "granted_count k (snd (limiter_run ops ir db (e # es)))
      = granted_count k (snd (limiter_run ops ir (fst (limiter_step ops ir db e)) es))"
    and "granted_times k (snd (limiter_run ops ir db (e # es)))
      = granted_times k (snd (limiter_run ops ir (fst (limiter_step ops ir db e)) es))"
  using step_other_granted [OF assms, of ops ir db] by (simp_all only: limiter_run_Cons granted_append) simp_all

lemma token_bound_from:
  assumes "bucket_bound p (peek ops db k) tk l idle" and "list_all (of_bucket p k) es"
    and "sane_bucket p" and "short_readings (check_times k es)"
  shows "of_int (tb_cost p) * of_nat (granted_count k (snd (limiter_run ops ir db es)))
    \<le> tk + (of_int (capacity p) * of_nat (lapses p k (Some l) idle es)
         + refill_rate p * of_int (climb (l # check_times k es)) / 1000)
       + of_nat (length (check_times k es)) * store_error p"
  using assms(1,2,4)
proof (induction es arbitrary: db tk l idle)
  case Nil
  then show ?case by (simp add: bucket_bound_def check_times_simps)
next
  case (Cons e es)
  have es: "list_all (of_bucket p k) es" "of_bucket p k e" using Cons.prems(2) by simp_all
  from es(2) show ?case
  proof (cases rule: of_bucket_cases [where ir = ir])
    case (tick d)
    then have other: "event_key e \<noteq> Some k \<or> \<not> executed e" by simp
    note times = check_times_skip [OF other, of es]
    have "bucket_bound p (peek ops (fst (limiter_step ops ir db e)) k) tk l (idle + d)"
      using tick bucket_bound_elapse [OF Cons.prems(1)] by simp
    from Cons.IH [OF this es(1)] Cons.prems(3) show ?thesis
      by (simp only: granted_skip [OF other] times) (simp add: tick)
  next
    case skip
    note times = check_times_skip [OF skip(1), of es]
    have "bucket_bound p (peek ops (fst (limiter_step ops ir db e)) k) tk l idle"
      using Cons.prems(1) skip(3) by simp
    from Cons.IH [OF this es(1)] Cons.prems(3) show ?thesis
      by (simp only: granted_skip [OF skip(1)] times skip(4))
  next
    case (check p' t f)
    have times: "check_times k (e # es) = now_ms t # check_times k es" using check by (simp add: check_times_simps)
    have short: "\<bar>now_ms t\<bar> < 10 ^ 14" "short_readings (check_times k es)"
      using Cons.prems(3) by (simp_all add: times short_readings_def)
    let ?n = "if lapsed p idle l (now_ms t) then 1 else 0 :: rat"
    obtain av where av: "available p (now_ms t) (peek ops db k) = Some av" "0 \<le> av" "av \<le> of_int (capacity p)"
      "av \<le> tk + of_int (capacity p) * ?n + refill_rate p * of_int (max 0 (now_ms t - l)) / 1000"
      by (rule bucket_bound_available [OF Cons.prems(1) assms(3)])
    obtain db' r tk' where s: "limiter_step ops ir db e = (db', [(e, r)])"
      "bucket_bound p (peek ops db' k) tk' (now_ms t) 0"
      "of_int (tb_cost p) * (if allowed r \<and> \<not> degraded r then 1 else 0) + tk'
        \<le> tk + of_int (capacity p) * ?n + refill_rate p * of_int (max 0 (now_ms t - l)) / 1000 + store_error p"
      using token_check_budget [OF av assms(3) check(2) short(1) check(3)] check(1) by metis
    have "of_nat (lapses p k (Some l) idle (e # es)) = ?n + of_nat (lapses p k (Some (now_ms t)) 0 es)"
      using check by simp
    moreover have "climb (l # check_times k (e # es)) = max 0 (now_ms t - l) + climb (now_ms t # check_times k es)"
      by (simp add: times)
    ultimately show ?thesis
      using token_bound_step [OF s(1) check(1,3) s(3) Cons.IH [OF s(2) es(1) short(2)]]
      by (simp add: field_simps del: of_int_max)
  qed
qed

lemma token_bound:
  assumes "sound_bucket (peek ops db k)" and "list_all (of_bucket p k) es"
    and "sane_bucket p" and "short_readings (check_times k es)"
  shows "of_int (tb_cost p) * of_nat (granted_count k (snd (limiter_run ops ir db es)))
    \<le> of_int (capacity p) * (1 + of_nat (lapses p k None idle es))
       + refill_rate p * of_int (climb (check_times k es)) / 1000
       + of_nat (length (check_times k es)) * store_error p"
  using assms(1,2,4)
proof (induction es arbitrary: db idle)
  case Nil
  with assms(3) show ?case by (simp add: check_times_simps sane_bucket_def)
next
  case (Cons e es)
  have es: "list_all (of_bucket p k) es" "of_bucket p k e" using Cons.prems(2) by simp_all
  from es(2) show ?case
  proof (cases rule: of_bucket_cases [where ir = ir])
    case (tick d)
    then have other: "event_key e \<noteq> Some k \<or> \<not> executed e" by simp
    note times = check_times_skip [OF other, of es]
    have "sound_bucket (peek ops (fst (limiter_step ops ir db e)) k)"
      using tick sound_bucket_elapse [OF Cons.prems(1)] by simp
    from Cons.IH [OF this es(1)] Cons.prems(3) show ?thesis
      by (simp only: granted_skip [OF other] times) (simp add: tick)
  next
    case skip
    note times = check_times_skip [OF skip(1), of es]
    have "sound_bucket (peek ops (fst (limiter_step ops ir db e)) k)" using Cons.prems(1) skip(3) by simp
    from Cons.IH [OF this es(1)] Cons.prems(3) show ?thesis
      by (simp only: granted_skip [OF skip(1)] times skip(4))
  next
    case (check p' t f)
    have times: "check_times k (e # es) = now_ms t # check_times k es" using check by (simp add: check_times_simps)
    have short: "\<bar>now_ms t\<bar> < 10 ^ 14" "short_readings (check_times k es)"
      using Cons.prems(3) by (simp_all add: times short_readings_def)
    obtain av where av: "available p (now_ms t) (peek ops db k) = Some av" "0 \<le> av" "av \<le> of_int (capacity p)"
      by (rule sound_bucket_available [OF Cons.prems(1) assms(3)])
    obtain db' r tk' where s: "limiter_step ops ir db e = (db', [(e, r)])"
      "bucket_bound p (peek ops db' k) tk' (now_ms t) 0"
      "of_int (tb_cost p) * (if allowed r \<and> \<not> degraded r then 1 else 0) + tk' \<le> of_int (capacity p) + store_error p"
      using token_check_budget [OF av av(3) assms(3) check(2) short(1) check(3)] check(1) by metis
    have "lapses p k None idle (e # es) = lapses p k (Some (now_ms t)) 0 es" using check by simp
    then show ?thesis
      using token_bound_step [OF s(1) check(1,3) s(3) token_bound_from [OF s(2) es(1) assms(3) short(2)]]
      by (simp add: times field_simps)
  qed
qed

end

section \<open>The sliding window's bookkeeping\<close>

lemma zset_above_above: "b \<le> c \<Longrightarrow> zset_above c (zset_above b z) = zset_above c z"
  by (rule ext) (auto simp: zset_above_def split: option.splits)

lemma zset_above_empty [simp]: "dom (zset_above b (\<lambda>_. None)) = {}"
  by (simp add: dom_zset_above)

lemma dom_zset_above_upd:
  "m \<notin> dom z \<Longrightarrow> dom (zset_above b (z(m \<mapsto> s))) = (if b < s then insert m (dom (zset_above b z)) else dom (zset_above b z))"
  by (auto simp: dom_zset_above dom_def split: if_splits)

lemma take_window_member: "length m = 32 \<Longrightarrow> take 32 (window_member m now) = m"
  by (simp add: window_member_def)

lemma in_window_snoc:
  "in_window w b (ts @ [t]) = in_window w b ts + (if b - w < t \<and> t \<le> b then 1 else 0)"
  by (simp add: in_window_def)

lemma in_window_le: "t \<le> b \<Longrightarrow> in_window w b ts \<le> length (filter (\<lambda>x. t - w < x) ts)"
proof -
  assume "t \<le> b"
  then have "filter (\<lambda>x. b - w < x \<and> x \<le> b) ts = filter (\<lambda>x. b - w < x \<and> x \<le> b) (filter (\<lambda>x. t - w < x) ts)"
    by (induction ts) auto
  then show ?thesis unfolding in_window_def by (metis length_filter_le)
qed

text \<open>A check at \<open>now\<close> finds at least as many entries as requests were granted in its window.\<close>

lemma window_inv_entries:
  assumes "window_inv p d e ts l idle ids" and "max l now - window_ms p \<le> lo"
    and "ts = [] \<or> e \<noteq> None \<or> \<not> window_lapsed p idle l now"
  obtains z where "zset_of e = Some z" and "\<forall>m \<in> dom z. take 32 m \<notin> set ids"
    and "length (filter (\<lambda>t. lo < t) ts) \<le> card (dom (zset_above lo z))"
proof (cases e)
  case None
  have "filter (\<lambda>t. lo < t) ts = []"
    using assms None by (fastforce simp: window_inv_def window_lapsed_def filter_empty_conv)
  with None show ?thesis by (intro that [of "\<lambda>_. None"]) (simp_all add: zset_of_def)
next
  case (Some x)
  then obtain z where "e = Some (RZset z, Some (1000 * sw_ttl_seconds p - int idle))"
    "\<forall>m \<in> dom z. take 32 m \<notin> set ids"
    "\<forall>lo \<ge> l - window_ms p. length (filter (\<lambda>t. lo < t) ts) \<le> card (dom (zset_above lo z))"
    using assms(1) by (cases x) (auto simp: window_inv_def)
  with assms(2) show ?thesis by (intro that [of z]) (simp_all add: zset_of_def)
qed

lemma window_inv_refuse:
  assumes "window_inv p d e ts l idle ids" and "zset_of e = Some z" and "set ids' \<subseteq> set ids"
    and below: "\<And>lo. max l now - window_ms p \<le> lo \<Longrightarrow>
      length (filter (\<lambda>t. lo < t) ts) \<le> card (dom (zset_above lo z))"
  shows "window_inv p d (zset_entry (zset_above (now - window_ms p) z) (Some (sw_ttl_seconds p * 1000))) ts
    (max l now) 0 ids'"
proof -
  have fresh: "\<forall>m \<in> dom z. take 32 m \<notin> set ids"
    using assms(1,2) by (auto simp: window_inv_def zset_of_def split: option.splits redis_value.splits)
  have ts: "\<forall>t \<in> set ts. t \<le> max l now" using assms(1) by (fastforce simp: window_inv_def)
  have le: "now - window_ms p \<le> max l now - window_ms p" by simp
  show ?thesis
  proof (cases "dom (zset_above (now - window_ms p) z) = {}")
    case True
    then have "dom (zset_above (max l now - window_ms p) z) = {}"
      using le order_le_less_trans by (fastforce simp: dom_zset_above)
    then have "filter (\<lambda>t. max l now - window_ms p < t) ts = []"
      using below [of "max l now - window_ms p"] by simp
    with True ts assms(1) show ?thesis by (simp add: window_inv_def zset_entry_def)
  next
    case False
    have "\<forall>m \<in> dom (zset_above (now - window_ms p) z). take 32 m \<notin> set ids'"
      using fresh assms(3) by (auto simp: dom_zset_above)
    moreover have "length (filter (\<lambda>t. lo < t) ts) \<le> card (dom (zset_above lo (zset_above (now - window_ms p) z)))"
      if "max l now - window_ms p \<le> lo" for lo
      using below [OF that] zset_above_above [of "now - window_ms p" lo z] that by simp
    ultimately show ?thesis using False ts assms(1) by (simp add: window_inv_def zset_entry_def)
  qed
qed

lemma window_inv_admit:
  assumes "window_inv p d e ts l idle (m # ids)" and "zset_of e = Some z" and "finite (dom z)"
    and "length m = 32" and "m \<notin> set ids" and late: "l - now \<le> d" "0 \<le> d"
    and below: "\<And>lo. max l now - window_ms p \<le> lo \<Longrightarrow>
      length (filter (\<lambda>t. lo < t) ts) \<le> card (dom (zset_above lo z))"
    and room: "int (card (dom (zset_above (now - window_ms p) z))) < sw_limit p"
    and ts': "ts' = ts \<or> ts' = ts @ [now]"
  shows "window_inv p d (Some (RZset ((zset_above (now - window_ms p) z)(window_member m now \<mapsto> now)),
      Some (sw_ttl_seconds p * 1000))) ts' (max l now) 0 ids"
proof -
  let ?z = "zset_above (now - window_ms p) z"
  have "\<forall>m' \<in> dom z. take 32 m' \<notin> set (m # ids)"
    using assms(1,2) by (auto simp: window_inv_def zset_of_def split: option.splits redis_value.splits)
  then have fresh: "\<forall>m' \<in> dom ?z. take 32 m' \<notin> set (m # ids)" by (auto simp: dom_zset_above)
  then have new: "window_member m now \<notin> dom ?z" using take_window_member [OF assms(4), of now] by force
  have ids: "\<forall>m' \<in> dom (?z(window_member m now \<mapsto> now)). take 32 m' \<notin> set ids"
    using fresh assms(5) take_window_member [OF assms(4), of now] by auto
  have old: "\<forall>t \<in> set ts. t \<le> max l now" "\<And>b. int (in_window (window_ms p - d) b ts) \<le> max 0 (sw_limit p)"
    using assms(1) by (fastforce simp: window_inv_def)+
  have "dom (zset_above (max l now - window_ms p) z) \<subseteq> dom ?z" by (auto simp: dom_zset_above)
  then have "card (dom (zset_above (max l now - window_ms p) z)) \<le> card (dom ?z)"
    by (rule card_mono [OF finite_zset_above [OF assms(3)]])
  then have held: "int (length (filter (\<lambda>t. max l now - window_ms p < t) ts)) < sw_limit p"
    using below [of "max l now - window_ms p"] room by simp
  have more: "int (in_window (window_ms p - d) b ts) + 1 \<le> sw_limit p" if "now \<le> b" for b
  proof -
    have "max l now - d \<le> b" using that late by linarith
    from in_window_le [OF this, of "window_ms p - d" ts] held show ?thesis by simp
  qed
  have win: "int (in_window (window_ms p - d) b ts') \<le> max 0 (sw_limit p)" for b
    using ts' old(2) [of b] more [of b] by (auto simp: in_window_snoc)
  have entries: "length (filter (\<lambda>t. lo < t) ts') \<le> card (dom (zset_above lo (?z(window_member m now \<mapsto> now))))"
    if lo: "max l now - window_ms p \<le> lo" for lo
  proof -
    have lo': "now - window_ms p \<le> lo" using lo by simp
    have "finite (dom (zset_above lo z))" by (rule finite_zset_above [OF assms(3)])
    moreover have "window_member m now \<notin> dom (zset_above lo z)"
      using new lo' by (auto simp: dom_zset_above)
    ultimately show ?thesis
      using ts' below [OF lo] by (auto simp: dom_zset_above_upd [OF new] zset_above_above [OF lo'])
  qed
  show ?thesis using ts' old(1) win entries ids by (auto simp: window_inv_def)
qed

lemma same_windowD:
  "same_window p p' \<Longrightarrow> sw_limit p' = sw_limit p \<and> window_seconds p' = window_seconds p
     \<and> sw_ttl_seconds p' = sw_ttl_seconds p"
  by (metis SlidingWindowPolicy.select_convs SlidingWindowPolicy.surjective SlidingWindowPolicy.update_convs(4) same_window_def)

lemma lag_from_nonneg: "0 \<le> lag_from l ts"
  by (induction ts arbitrary: l) (auto simp: le_max_iff_disj)

lemma lag_fresh: "lag_from t (t # ts) = lag (t # ts)"
  using lag_from_nonneg [of t ts] by (simp add: lag_def)

lemma in_window_append: "in_window w b (ts @ us) = in_window w b ts + in_window w b us"
  by (simp add: in_window_def)

lemma in_window_admitted: "in_window w b (admitted_times k l) \<le> in_window w b (granted_times k l) + uncounted k l"
  unfolding in_window_def admitted_times_def granted_times_def uncounted_def by (induction l) auto

context redis_server
begin

lemma window_inv_elapse:
  assumes "window_inv p c (peek ops db k) ts l idle ids"
  shows "window_inv p c (peek ops (elapse ops db d) k) ts l (idle + d) ids"
proof (cases "peek ops db k")
  case None
  then show ?thesis using assms elapse_absent [OF None, of d] by (auto simp: window_inv_def)
next
  case (Some x)
  then obtain z where z: "peek ops db k = Some (RZset z, Some (1000 * sw_ttl_seconds p - int idle))"
    using assms by (cases x) (auto simp: window_inv_def)
  show ?thesis
    by (rule elapse_value [OF z, of d]) (use assms z in \<open>auto simp: window_inv_def\<close>)
qed

lemma zset_elapse:
  assumes "zset_of (peek ops db k) \<noteq> None"
  shows "zset_of (peek ops (elapse ops db d) k) \<noteq> None"
proof (cases "peek ops db k")
  case None
  then show ?thesis using elapse_absent [OF None, of d] by (simp add: zset_of_def)
next
  case (Some x)
  obtain v ttl where x: "x = (v, ttl)" by (cases x)
  show ?thesis
  proof (cases ttl)
    case None
    with assms Some x elapse_persistent [of db k v d] show ?thesis by (simp add: zset_of_def)
  next
    case (Some n)
    have p: "peek ops db k = Some (v, Some n)" using \<open>peek ops db k = Some x\<close> x Some by simp
    show ?thesis
      by (rule elapse_value [OF p, of d]) (use assms p in \<open>simp_all add: zset_of_def\<close>)
  qed
qed

text \<open>One reached check: what it grants is in the set.\<close>

lemma window_check:
  assumes inv: "window_inv p d (peek ops db k) ts l idle (m # ids)"
    and gap: "ts = [] \<or> peek ops db k \<noteq> None \<or> \<not> window_lapsed p idle l (now_ms t)"
    and late: "l - now_ms t \<le> d" "0 \<le> d"
    and "length m = 32" and "m \<notin> set ids" and "0 < sw_ttl_seconds p"
    and "f \<noteq> Unreachable" and "same_window p p'"
  shows "window_inv p d (peek ops (fst (limiter_step ops ir db (WindowCheck k p' t m f))) k)
    (ts @ granted_times k (snd (limiter_step ops ir db (WindowCheck k p' t m f)))) (max l (now_ms t)) 0 ids"
proof -
  let ?now = "now_ms t" and ?l = "sw_limit p" and ?ttl = "sw_ttl_seconds p"
  note same = same_windowD [OF assms(9)]
  obtain z where z: "zset_of (peek ops db k) = Some z"
    using window_inv_entries [OF inv order_refl gap] by blast
  have below: "length (filter (\<lambda>t. lo < t) ts) \<le> card (dom (zset_above lo z))"
    if "max l ?now - window_ms p \<le> lo" for lo
    using window_inv_entries [OF inv that gap] z by (metis option.inject)
  let ?z = "zset_above (?now - window_ms p) z"
  show ?thesis
  proof (cases "int (card (dom ?z)) < ?l")
    case True
    show ?thesis
      by (rule window_script_admit [OF z refl True, of m ?ttl],
          rule window_inv_admit [OF inv z zset_finite' [OF z] assms(5,6) late below True,
            THEN subst [rotated, where P = "\<lambda>x. window_inv p d x _ _ _ _"]])
        (use assms(7,8) same in \<open>auto simp: check_sliding_window_def Let_def window_ms_def\<close>)
  next
    case False
    have "set ids \<subseteq> set (m # ids)" by auto
    note stays = window_inv_refuse [OF inv z this below]
    show ?thesis
      by (rule window_script_refuse [OF z refl False, of m ?ttl])
        (use stays assms(7,8) same in \<open>auto simp: check_sliding_window_def Let_def window_ms_def\<close>)
  qed
qed

text \<open>A check that finds the key expired too early starts the count anew.\<close>

lemma window_check_any:
  assumes inv: "window_inv p d (peek ops db k) ts l idle (m # ids)" and late: "l - now_ms t \<le> d" "0 \<le> d"
    and "length m = 32" and "m \<notin> set ids" and "0 < sw_ttl_seconds p"
    and "f \<noteq> Unreachable" and "same_window p p'"
  obtains ts0 ts1 where "ts = ts0 @ ts1"
    and "int (in_window (window_ms p - d) b ts0) \<le> max 0 (sw_limit p) * (if window_lapsed p idle l (now_ms t) then 1 else 0)"
    and "window_inv p d (peek ops (fst (limiter_step ops ir db (WindowCheck k p' t m f))) k)
      (ts1 @ granted_times k (snd (limiter_step ops ir db (WindowCheck k p' t m f)))) (max l (now_ms t)) 0 ids"
proof (cases "peek ops db k = None \<and> window_lapsed p idle l (now_ms t)")
  case True
  then have "window_inv p d (peek ops db k) [] l idle (m # ids)"
    using inv by (simp add: window_inv_def in_window_def)
  note fresh = window_check [OF this _ late assms(4-8), where ir = ir]
  show ?thesis
    by (rule that [of ts "[]"]) (use True inv fresh in \<open>simp_all add: window_inv_def\<close>)
next
  case False
  then show ?thesis
    by (intro that [of "[]" ts] window_check [OF inv _ late assms(4-8)]) (auto simp: in_window_def)
qed

lemma of_window_cases:
  assumes "of_window p k e"
  obtains (tick) d where "e = Tick d"
    | (skip) "event_key e \<noteq> Some k \<or> \<not> executed e" "\<And>d. e \<noteq> Tick d"
      "\<And>db. peek ops (fst (limiter_step ops ir db e)) k = peek ops db k"
      "\<And>prev idle es. window_lapses p k prev idle (e # es) = window_lapses p k prev idle es"
      "\<And>es. member_ids k (e # es) = member_ids k es"
    | (check) p' t m f where "e = WindowCheck k p' t m f" "same_window p p'" "f \<noteq> Unreachable"
proof (cases e)
  case (Tick d)
  then show ?thesis by (rule tick)
next
  case (TokenCheck k' p' t f)
  with assms skip step_other_key [of e k] show ?thesis by simp
next
  case (WindowCheck k' p' t m f)
  show ?thesis
  proof (cases "k' = k \<and> f \<noteq> Unreachable")
    case True
    with WindowCheck assms show ?thesis by (intro check [of p' t m f]) auto
  next
    case False
    then show ?thesis
    proof (cases "k' = k")
      case True
      with False WindowCheck show ?thesis by (intro skip) (simp_all add: check_sliding_window_def)
    next
      case False
      with WindowCheck step_other_key [of e k] show ?thesis by (intro skip) simp_all
    qed
  qed
qed

lemma window_step_counts:
  assumes "zset_of (peek ops db k) \<noteq> None" and "of_window p k e"
  shows "uncounted k (snd (limiter_step ops ir db e)) = (if fails_open k e then 1 else 0)
    \<and> zset_of (peek ops (fst (limiter_step ops ir db e)) k) \<noteq> None"
  using assms(2)
proof (cases rule: of_window_cases [where ir = ir])
  case (tick d)
  have "zset_of (peek ops (elapse ops db d) k) \<noteq> None"
    using assms(1) by (rule zset_elapse)
  with tick show ?thesis by simp
next
  case skip
  have "uncounted k (snd (limiter_step ops ir db e)) = (if fails_open k e then 1 else 0)"
    using skip(1,2) assms(2) by (cases e) (auto simp: check_sliding_window_def split: prod.splits)
  with skip(3) assms(1) show ?thesis by simp
next
  case (check p' t m f)
  obtain z where z: "zset_of (peek ops db k) = Some z" using assms(1) by blast
  show ?thesis
  proof (cases "int (card (dom (zset_above (now_ms t - window_seconds p' * 1000) z))) < sw_limit p'")
    case True
    show ?thesis
      by (rule window_script_admit [OF z refl True, of m "sw_ttl_seconds p'"])
        (use check in \<open>cases f; simp add: check_sliding_window_def zset_of_def\<close>)
  next
    case False
    show ?thesis
      by (rule window_script_refuse [OF z refl False, of m "sw_ttl_seconds p'"])
        (use check in \<open>cases f; simp add: check_sliding_window_def zset_of_def zset_entry_def\<close>)
  qed
qed

lemma window_run_counts:
  assumes "zset_of (peek ops db k) \<noteq> None" and "list_all (of_window p k) es"
  shows "uncounted k (snd (limiter_run ops ir db es)) = open_failures k es"
  using assms
proof (induction es arbitrary: db)
  case (Cons e es)
  have es: "of_window p k e" "list_all (of_window p k) es" using Cons.prems(2) by simp_all
  note step = window_step_counts [OF Cons.prems(1) es(1), of ir]
  from Cons.IH [OF conjunct2 [OF step] es(2)] step show ?case
    by (simp only: limiter_run_Cons uncounted_simps open_failures_simps)
qed simp

lemma window_bound_from:
  assumes "window_inv p d (peek ops db k) ts l idle (member_ids k es)" and "list_all (of_window p k) es"
    and "uuid_hex_ids (member_ids k es)" and "lag_from l (check_times k es) \<le> d" and "0 < sw_ttl_seconds p"
  shows "int (in_window (window_ms p - d) b (ts @ granted_times k (snd (limiter_run ops ir db es))))
    \<le> max 0 (sw_limit p) * (1 + int (window_lapses p k (Some l) idle es))"
  using assms(1-4)
proof (induction es arbitrary: db ts l idle)
  case Nil
  then show ?case by (simp add: window_inv_def)
next
  case (Cons e es)
  have es: "list_all (of_window p k) es" "of_window p k e" using Cons.prems(2) by simp_all
  from es(2) show ?case
  proof (cases rule: of_window_cases [where ir = ir])
    case (tick c)
    then have other: "event_key e \<noteq> Some k \<or> \<not> executed e" by simp
    have "window_inv p d (peek ops (fst (limiter_step ops ir db e)) k) ts l (idle + c) (member_ids k es)"
      using tick window_inv_elapse Cons.prems(1) by simp
    from Cons.IH [OF this es(1)] Cons.prems(3,4) show ?thesis
      by (simp only: granted_skip [OF other] check_times_skip [OF other]) (simp add: tick)
  next
    case skip
    have "window_inv p d (peek ops (fst (limiter_step ops ir db e)) k) ts l idle (member_ids k es)"
      using Cons.prems(1) skip(3,5) by simp
    from Cons.IH [OF this es(1)] Cons.prems(3,4) show ?thesis
      by (simp only: granted_skip [OF skip(1)] check_times_skip [OF skip(1)] skip(4,5))
  next
    case (check p' t m f)
    have ids: "member_ids k (e # es) = m # member_ids k es" using check by simp
    have uuids: "length m = 32" "m \<notin> set (member_ids k es)" "uuid_hex_ids (member_ids k es)"
      using Cons.prems(3) unfolding ids by (simp_all add: uuid_hex_ids_def)
    have "check_times k (e # es) = now_ms t # check_times k es" using check by (simp add: check_times_simps)
    then have late: "l - now_ms t \<le> d" "lag_from (max l (now_ms t)) (check_times k es) \<le> d"
      using Cons.prems(4) by simp_all
    obtain ts0 ts1 where s: "ts = ts0 @ ts1"
      "int (in_window (window_ms p - d) b ts0) \<le> max 0 (sw_limit p) * (if window_lapsed p idle l (now_ms t) then 1 else 0)"
      "window_inv p d (peek ops (fst (limiter_step ops ir db e)) k)
        (ts1 @ granted_times k (snd (limiter_step ops ir db e))) (max l (now_ms t)) 0 (member_ids k es)"
      using window_check_any [OF Cons.prems(1) [unfolded ids] late(1) order_trans [OF lag_from_nonneg late(2)]
          uuids(1,2) assms(5) check(3,2), where ir = ir and b = b] check(1) by metis
    have "window_lapses p k (Some l) idle (e # es)
        = (if window_lapsed p idle l (now_ms t) then 1 else 0) + window_lapses p k (Some (max l (now_ms t))) 0 es"
      using check by simp
    then show ?thesis
      using s(2) Cons.IH [OF s(3) es(1) uuids(3) late(2)]
      by (simp only: limiter_run_Cons granted_append append_assoc s(1) in_window_append)
        (simp add: distrib_left split: if_splits)
  qed
qed

lemma window_bound:
  assumes "peek ops db k = None" and "list_all (of_window p k) es"
    and "uuid_hex_ids (member_ids k es)" and "0 < sw_ttl_seconds p"
  shows "int (in_window (window_ms p - lag (check_times k es)) b (granted_times k (snd (limiter_run ops ir db es))))
    \<le> max 0 (sw_limit p) * (1 + int (window_lapses p k None idle es))"
  using assms(1-3)
proof (induction es arbitrary: db idle)
  case Nil
  then show ?case by (simp add: in_window_def)
next
  case (Cons e es)
  have es: "list_all (of_window p k) es" "of_window p k e" using Cons.prems(2) by simp_all
  from es(2) show ?case
  proof (cases rule: of_window_cases [where ir = ir])
    case (tick c)
    then have other: "event_key e \<noteq> Some k \<or> \<not> executed e" by simp
    have "peek ops (fst (limiter_step ops ir db e)) k = None"
      using tick elapse_absent [OF Cons.prems(1)] by simp
    from Cons.IH [OF this es(1)] Cons.prems(3) show ?thesis
      by (simp only: granted_skip [OF other] check_times_skip [OF other]) (simp add: tick)
  next
    case skip
    have "peek ops (fst (limiter_step ops ir db e)) k = None" using Cons.prems(1) skip(3) by simp
    from Cons.IH [OF this es(1)] Cons.prems(3) show ?thesis
      by (simp only: granted_skip [OF skip(1)] check_times_skip [OF skip(1)] skip(4,5))
  next
    case (check p' t m f)
    let ?d = "lag (check_times k (e # es))"
    have times: "check_times k (e # es) = now_ms t # check_times k es" using check by (simp add: check_times_simps)
    have "window_inv p ?d (peek ops db k) [] (now_ms t) 0 (member_ids k (e # es))"
      using Cons.prems(1) by (simp add: window_inv_def in_window_def)
    moreover have "lag_from (now_ms t) (check_times k (e # es)) \<le> ?d" by (simp only: times lag_fresh)
    ultimately
    have "int (in_window (window_ms p - ?d) b (granted_times k (snd (limiter_run ops ir db (e # es)))))
        \<le> max 0 (sw_limit p) * (1 + int (window_lapses p k (Some (now_ms t)) 0 (e # es)))"
      using window_bound_from [OF _ Cons.prems(2,3) _ assms(4), of ?d db "[]" "now_ms t" 0 b ir]
      by (simp only: append_Nil)
    then show ?thesis using check assms(4) by (simp add: window_lapsed_def)
  qed
qed

text \<open>A run of checks at one instant, on a bucket with a whole number of tokens.\<close>

lemma burst_from:
  assumes "available p (now_ms t) (peek ops db k) = Some (of_int c)"
    and "0 \<le> c" and "c \<le> capacity p" and "capacity p < 10 ^ 14" and "0 < tb_cost p"
    and "0 < tb_ttl_seconds p" and "\<bar>now_ms t\<bar> < 10 ^ 14"
  shows "admitted_count k (snd (limiter_run ops ir db (replicate n (TokenCheck k p t Answered))))
    = min n (nat (c div tb_cost p))"
  using assms(1-3)
proof (induction n arbitrary: db c)
  case 0
  then show ?case by simp
next
  case (Suc n)
  let ?c = "if tb_cost p \<le> c then c - tb_cost p else c"
  have c: "0 \<le> ?c" "?c \<le> capacity p" using Suc.prems assms(5) by auto
  have lo: "lua_tostring (left_over p (of_int c)) = of_int ?c"
    using lua_tostring_int [of ?c] c assms(4) by (auto simp: left_over_def)
  show ?case
  proof (rule token_check [OF Suc.prems(1), of Answered ir])
    fix db'
    assume "check_token_bucket ops ir db t Answered k p = (db', if Answered = ReplyLost
        then degraded_decision (tb_failure_mode p) (capacity p)
        else \<lparr> allowed = of_int (tb_cost p) \<le> (of_int c :: rat), remaining = \<lfloor>left_over p (of_int c)\<rfloor>,
               retry_after_ms = snd (snd (consume ir (refill_rate p) (tb_cost p) (of_int c))),
               rl_limit = capacity p, degraded = False \<rparr>)"
    then have step: "fst (limiter_step ops ir db (TokenCheck k p t Answered)) = db'"
      "admitted_count k (snd (limiter_step ops ir db (TokenCheck k p t Answered))) = (if tb_cost p \<le> c then 1 else 0)"
      by simp_all
    assume "\<And>k'. peek ops db' k' =
      (if k' = k then bucket_entry p (left_over p (of_int c)) (now_ms t) (peek ops db k) else peek ops db k')"
    then have "available p (now_ms t) (peek ops db' k) = Some (of_int ?c)"
      using assms(6,7) c lua_tostring_int [of "now_ms t"]
      by (simp only: bucket_entry_def lo) (simp add: refilled_same_time)
    from Suc.IH [OF this c] step
    have count: "admitted_count k (snd (limiter_run ops ir db (replicate (Suc n) (TokenCheck k p t Answered))))
        = (if tb_cost p \<le> c then 1 else 0) + min n (nat (?c div tb_cost p))"
      by (simp only: replicate_Suc limiter_run_Cons admitted_append)
    show ?thesis
    proof (cases "tb_cost p \<le> c")
      case True
      define q where "q = (c - tb_cost p) div tb_cost p"
      have "c div tb_cost p = 1 + q"
        using assms(5) div_add_self2 [of "tb_cost p" "c - tb_cost p"] by (simp add: q_def)
      moreover have "0 \<le> q" using True assms(5) by (simp add: q_def pos_imp_zdiv_nonneg_iff)
      ultimately have "nat (c div tb_cost p) = Suc (nat q)" by simp
      then show ?thesis
        using True count by (simp add: q_def [symmetric] del: limiter_run.simps replicate_Suc)
    next
      case False
      then have "c div tb_cost p = 0" using Suc.prems(2) by simp
      then show ?thesis
        using False count by (simp del: limiter_run.simps replicate_Suc)
    qed
  qed simp
qed

text \<open>A refused client that waits as told, and one millisecond more, finds enough tokens.\<close>

lemma retry_succeeds:
  assumes "available p now e = Some tk" and "0 \<le> tk" and "sane_bucket p"
    and "tk < of_int (tb_cost p)" and "tb_cost p \<le> capacity p"
    and "store_error p \<le> refill_rate p / 1000" and "0 < refill_rate p" and "\<bar>now\<bar> < 10 ^ 14"
    and "now + snd (snd (consume ir (refill_rate p) (tb_cost p) tk)) + 1 \<le> now'"
  obtains tk' where "available p now' (bucket_entry p (left_over p tk) now e) = Some tk'"
    and "of_int (tb_cost p) \<le> tk'"
proof -
  define r where "r = \<lceil>((of_int (tb_cost p) - tk) / refill_rate p) * 1000\<rceil>"
  have r: "now + r + 1 \<le> now'" using assms(4,7,9) by (simp add: consume_def r_def)
  have lo: "left_over p tk = tk" using assms(4) by (simp add: left_over_def)
  have "tk \<le> of_int (capacity p)" using assms(1) by (rule available_le)
  note store = left_over_store [OF assms(2) this assms(3), unfolded lo]
  have "((of_int (tb_cost p) - tk) / refill_rate p) * 1000 \<le> of_int r" unfolding r_def by (rule le_of_int_ceiling)
  then have "of_int (tb_cost p) - tk \<le> of_int r / 1000 * refill_rate p"
    using assms(7) by (simp add: field_simps)
  moreover have "(of_int r + 1) / 1000 * refill_rate p \<le> of_int (now' - now) / 1000 * refill_rate p"
  proof -
    have "r + 1 \<le> now' - now" using r by simp
    then have "of_int (r + 1) \<le> (of_int (now' - now) :: rat)" by (simp only: of_int_le_iff)
    with assms(7) show ?thesis by (simp add: divide_right_mono mult_right_mono)
  qed
  ultimately have "of_int (tb_cost p) \<le> lua_tostring tk + of_int (now' - now) / 1000 * refill_rate p"
    using store(4) assms(6) by (simp add: add_divide_distrib distrib_right)
  moreover have "now \<le> now'"
  proof -
    have "0 \<le> ((of_int (tb_cost p) - tk) / refill_rate p) * 1000" using assms(4,7) by simp
    then have "0 \<le> r" unfolding r_def using ceiling_mono by fastforce
    with r show ?thesis by simp
  qed
  ultimately have "of_int (tb_cost p) \<le> refilled (capacity p) (refill_rate p) now' (lua_tostring tk) (of_int now)"
    using assms(5) by (simp add: refilled_def)
  moreover have "available p now' (bucket_entry p tk now e)
      = Some (refilled (capacity p) (refill_rate p) now' (lua_tostring tk) (of_int now))"
    using assms(3,8) by (simp add: bucket_entry_def sane_bucket_def lua_tostring_int)
  ultimately show ?thesis using that lo by simp
qed

lemma retry_after_suffices:
  assumes "available p (now_ms t) (peek ops db k) = Some tk" and "0 \<le> tk" and "sane_bucket p"
    and "\<bar>now_ms t\<bar> < 10 ^ 14" and "tb_cost p \<le> capacity p"
    and "0 < refill_rate p" and "store_error p \<le> refill_rate p / 1000"
    and first: "check_token_bucket ops ir db t Answered k p = (db1, r1)" and "\<not> allowed r1"
    and "now_ms t + retry_after_ms r1 + 1 \<le> now_ms t'"
  shows "allowed (snd (check_token_bucket ops ir (elapse ops db1 d) t' Answered k p))"
proof -
  obtain db' where c: "check_token_bucket ops ir db t Answered k p =
      (db', \<lparr> allowed = (of_int (tb_cost p) \<le> tk), remaining = \<lfloor>left_over p tk\<rfloor>,
              retry_after_ms = snd (snd (consume ir (refill_rate p) (tb_cost p) tk)),
              rl_limit = capacity p, degraded = False \<rparr>)"
    and entry: "peek ops db' k = bucket_entry p (left_over p tk) (now_ms t) (peek ops db k)"
    by (rule token_check [OF assms(1), of Answered ir]) auto
  have low: "tk < of_int (tb_cost p)"
    and wait: "now_ms t + snd (snd (consume ir (refill_rate p) (tb_cost p) tk)) + 1 \<le> now_ms t'"
    and db1: "db1 = db'"
    using c first assms(9,10) by auto
  obtain tk' where tk': "available p (now_ms t') (peek ops db1 k) = Some tk'" "of_int (tb_cost p) \<le> tk'"
    using retry_succeeds [OF assms(1-3) low assms(5,7,6,4) wait] entry db1 by metis
  obtain v where v: "peek ops db1 k = Some (v, Some (tb_ttl_seconds p * 1000))"
    using entry db1 assms(3) by (auto simp: bucket_entry_def sane_bucket_def)
  have same: "available p (now_ms t') (Some (v, ttl)) = Some tk'" for ttl
    using tk'(1) v by (simp add: available_def hash_of_def split: redis_value.splits)
  have "\<exists>av. available p (now_ms t') (peek ops (elapse ops db1 d) k) = Some av \<and> of_int (tb_cost p) \<le> av"
    by (rule elapse_value [OF v, of d]) (use tk' v same assms(5) in auto)
  then obtain av where "available p (now_ms t') (peek ops (elapse ops db1 d) k) = Some av"
    and "of_int (tb_cost p) \<le> av" by blast
  then show ?thesis by - (rule token_check [of p t' "elapse ops db1 d" k av Answered ir], simp_all)
qed

lemma window_decision:
  assumes "zset_of (peek ops db k) = Some z"
    and "c = card {m. \<exists>s. z m = Some s \<and> now_ms t - window_ms p < s}"
    and "check_sliding_window ops db t m Answered k p = (db', r)"
  shows "\<not> degraded r \<and> (allowed r \<longleftrightarrow> int c < sw_limit p)
    \<and> remaining r = (if int c < sw_limit p then sw_limit p - int c - 1 else 0)
    \<and> (if allowed r \<or> c = 0 then retry_after_ms r = 0
       else (\<exists>mm s. z mm = Some s \<and> now_ms t - window_ms p < s
               \<and> (\<forall>mm' s'. z mm' = Some s' \<and> now_ms t - window_ms p < s' \<longrightarrow> s \<le> s')
               \<and> retry_after_ms r = s + window_ms p - now_ms t))"
proof -
  let ?z = "zset_above (now_ms t - window_seconds p * 1000) z"
  have c: "card (dom ?z) = c" by (simp add: dom_zset_above assms(2) window_ms_def)
  have fin: "finite (dom ?z)" by (rule finite_zset_above [OF zset_finite' [OF assms(1)]])
  show ?thesis
  proof (cases "int (card (dom ?z)) < sw_limit p")
    case True
    show ?thesis
      by (rule window_script_admit [OF assms(1) refl True, of m "sw_ttl_seconds p"])
        (use True c assms(3) in \<open>auto simp: check_sliding_window_def Let_def\<close>)
  next
    case False
    show ?thesis
    proof (rule window_script_refuse [OF assms(1) refl False, of m "sw_ttl_seconds p"])
      fix db1 retry
      assume "sliding_window_script ops db k (sw_limit p) (window_seconds p * 1000) (now_ms t) m (sw_ttl_seconds p)
          = (db1, Some (0, int (card (dom ?z)), retry))"
      then have r: "r = \<lparr> allowed = False, remaining = 0, retry_after_ms = retry, rl_limit = sw_limit p, degraded = False \<rparr>"
        using assms(3) False by (auto simp: check_sliding_window_def Let_def)
      assume wait: "dom ?z = {} \<and> retry = 0 \<or> (\<exists>mm s. ?z mm = Some s
          \<and> (\<forall>mm' s'. ?z mm' = Some s' \<longrightarrow> s \<le> s') \<and> retry = s + window_seconds p * 1000 - now_ms t)"
      show ?thesis
      proof (cases "c = 0")
        case True
        then have "dom ?z = {}" using c fin by simp
        then have "retry = 0" using wait by (metis domI empty_iff)
        with True False c show ?thesis by (simp add: r)
      next
        case False
        then have "dom ?z \<noteq> {}" using c by auto
        with wait False \<open>\<not> int (card (dom ?z)) < sw_limit p\<close> c show ?thesis by (auto simp: r window_ms_def)
      qed
    qed
  qed
qed

text \<open>Two clocks one second apart, one token per second: the faster gateway is always admitted.\<close>

lemma skew_from:
  assumes "p = token_bucket_policy 1 1" and "available p 1000 (peek ops db k) = Some 1"
  shows "admitted_count k (snd (limiter_run ops ir db
      (concat (replicate n [TokenCheck k p 1 Answered, TokenCheck k p 0 Answered])))) = n"
  using assms(2)
proof (induction n arbitrary: db)
  case 0
  then show ?case by simp
next
  case (Suc n)
  have p: "capacity p = 1" "refill_rate p = 1" "tb_cost p = 1" "tb_ttl_seconds p = 3600"
    by (simp_all add: assms(1) token_bucket_policy_def)
  have now: "now_ms 1 = 1000" "now_ms 0 = 0" by (simp_all add: now_ms_def py_int_def)
  have exact: "lua_tostring 0 = 0" "lua_tostring 1000 = 1000"
    using lua_tostring_int [of 0] lua_tostring_int [of 1000] by simp_all
  obtain db1 where s1: "fst (limiter_step ops ir db (TokenCheck k p 1 Answered)) = db1"
      "admitted_count k (snd (limiter_step ops ir db (TokenCheck k p 1 Answered))) = 1"
    and e1: "peek ops db1 k = bucket_entry p 0 1000 (peek ops db k)"
    by (rule token_check [of p 1 db k 1 Answered ir]) (use Suc.prems in \<open>simp_all add: now p left_over_def\<close>)
  have a1: "available p (now_ms 0) (peek ops db1 k) = Some 0"
    by (simp add: e1 now bucket_entry_def p exact refilled_def)
  obtain db2 where s2: "fst (limiter_step ops ir db1 (TokenCheck k p 0 Answered)) = db2"
      "admitted_count k (snd (limiter_step ops ir db1 (TokenCheck k p 0 Answered))) = 0"
    and e2: "peek ops db2 k = bucket_entry p 0 0 (peek ops db1 k)"
    by (rule token_check [OF a1, of Answered ir]) (simp_all add: now p left_over_def)
  have "available p 1000 (peek ops db2 k) = Some 1"
    by (simp add: e2 bucket_entry_def p exact refilled_def)
  from Suc.IH [OF this] s1 s2 show ?case
    by (simp only: replicate_Suc concat.simps append.simps limiter_run_Cons admitted_append)
qed

end

section \<open>Properties\<close>

text \<open>C1.
  However many gateway instances share a token bucket, in whatever order their checks reach Redis,
  whatever their clocks show and whether calls fail or not, the admitted requests cost at most: the
  capacity, once and once more for every time the key expired before it would have been full; the
  refill rate over the forward movement of the readings at which the checks were made (all forward
  steps of the sequence added up, which is the time passed if the readings do not run backwards); a
  rounding term per check; and the cost of the checks that a fail-open gateway let through because
  no answer came. This holds for any stretch of a history, from any bucket that is not overdrawn.
  Readings have at most 14 digits and the gateways agree on the policy but for its failure mode.\<close>

theorem token_bucket_admission_bound:
  assumes "redis_server ops" and "sound_bucket (peek ops db k)" and "list_all (of_bucket p k) es"
    and "sane_bucket p" and "short_readings (check_times k es)"
  shows "of_int (tb_cost p) * of_nat (admitted_count k (snd (limiter_run ops ir db es)))
    \<le> of_int (capacity p) * (1 + of_nat (lapses p k None 0 es))
       + refill_rate p * of_int (climb (check_times k es)) / 1000
       + of_nat (length (check_times k es)) * store_error p
       + of_int (tb_cost p) * of_nat (open_failures k es)"
  using redis_server.token_bound [OF assms, of ir 0] redis_server.token_run_counts [OF assms(1-4), of ir]
  by (simp add: admitted_granted distrib_left)

definition ex_policy :: TokenBucketPolicy where
  "ex_policy = token_bucket_policy 2 (1 / 2)"

definition ex_history :: "limiter_event list" where
  "ex_history =
     [TokenCheck ''rl:a'' ex_policy 10 Answered, TokenCheck ''rl:a'' ex_policy 10 ReplyLost,
      TokenCheck ''rl:a'' ex_policy 10 Answered, Tick 2000,
      TokenCheck ''rl:b'' ex_policy 12 Answered, TokenCheck ''rl:a'' ex_policy 12 Unreachable,
      TokenCheck ''rl:a'' ex_policy 12 Answered, TokenCheck ''rl:a'' ex_policy (25 / 2) Answered]"

theorem token_bucket_admission_bound_witness:
  "admitted_count ''rl:a'' (snd (limiter_run memory_server 0 [] ex_history)) = 2
   \<and> (of_nat (admitted_count ''rl:a'' (snd (limiter_run memory_server 0 [] ex_history))) :: rat)
      \<le> 2 + (1 / 2) * 2500 / 1000 + 5 * (2 / (2 * 10 ^ 13))"
proof -
  have h: "sound_bucket (peek memory_server [] ''rl:a'')" "list_all (of_bucket ex_policy ''rl:a'') ex_history"
    "sane_bucket ex_policy" "short_readings (check_times ''rl:a'' ex_history)"
    by (simp add: mem_peek_def sound_bucket_def, code_simp, code_simp, code_simp)
  have v: "lapses ex_policy ''rl:a'' None 0 ex_history = 0" "open_failures ''rl:a'' ex_history = 0"
    "climb [10000, 10000, 10000, 12000, 12500] = 2500"
    by (code_simp, code_simp, code_simp)
  have w: "tb_cost ex_policy = 1" "capacity ex_policy = 2" "refill_rate ex_policy = 1 / 2"
    "check_times ''rl:a'' ex_history = [10000, 10000, 10000, 12000, 12500]"
    by (code_simp, code_simp, code_simp, code_simp)
  show ?thesis
    using token_bucket_admission_bound [OF memory.redis_server_axioms h, of 0]
    by (intro conjI) (code_simp, simp add: v w store_error_def)
qed

text \<open>C29.
  A fresh bucket admits exactly as many of \<open>n\<close> simultaneous requests as its capacity pays for,
  and no fewer, whatever its refill rate, as long as Redis answers and costs are positive.\<close>

theorem token_bucket_burst_exact:
  assumes "redis_server ops" and "peek ops db k = None"
    and "0 \<le> capacity p" and "capacity p < 10 ^ 14" and "0 < tb_cost p"
    and "0 < tb_ttl_seconds p" and "\<bar>now_ms t\<bar> < 10 ^ 14"
  shows "admitted_count k (snd (limiter_run ops ir db (replicate n (TokenCheck k p t Answered))))
    = min n (nat (capacity p div tb_cost p))"
  using redis_server.burst_from [OF assms(1) _ assms(3) order_refl assms(4-7)] assms(2) by simp

theorem token_bucket_burst_exact_witness:
  "admitted_count ''rl:a'' (snd (limiter_run memory_server 0 []
     (replicate 5 (TokenCheck ''rl:a'' (token_bucket_policy 3 10) 7 Answered)))) = 3"
proof -
  have h: "peek memory_server [] ''rl:a'' = None" "0 \<le> capacity (token_bucket_policy 3 10)"
    "capacity (token_bucket_policy 3 10) < 10 ^ 14" "0 < tb_cost (token_bucket_policy 3 10)"
    "0 < tb_ttl_seconds (token_bucket_policy 3 10)" "\<bar>now_ms 7\<bar> < 10 ^ 14"
    by (simp_all add: mem_peek_def token_bucket_policy_def now_ms_def py_int_def)
  show ?thesis
    using token_bucket_burst_exact [OF memory.redis_server_axioms h, of 0 5]
    by (simp add: token_bucket_policy_def)
qed


text \<open>
  The wait that a refusal advertises is long enough: if nobody else uses the bucket, the same
  request is admitted once the advertised milliseconds and one more have passed, even if the key
  has expired in the meantime. (The extra millisecond covers the digits lost in storing the count;
  it needs a refill per millisecond above that loss.)\<close>

lemma token_bucket_retry_after_suffices:
  assumes "redis_server ops" and "available p (now_ms t) (peek ops db k) = Some tk" and "0 \<le> tk"
    and "sane_bucket p" and "\<bar>now_ms t\<bar> < 10 ^ 14" and "tb_cost p \<le> capacity p"
    and "0 < refill_rate p" and "store_error p \<le> refill_rate p / 1000"
    and "check_token_bucket ops ir db t Answered k p = (db1, r1)" and "\<not> allowed r1"
    and "now_ms t + retry_after_ms r1 + 1 \<le> now_ms t'"
  shows "allowed (snd (check_token_bucket ops ir (elapse ops db1 d) t' Answered k p))"
  by (rule redis_server.retry_after_suffices [OF assms])

lemma token_bucket_retry_after_suffices_example:
  "allowed (snd (check_token_bucket memory_server 0
     (elapse memory_server (fst (check_token_bucket memory_server 0
        [(''rl:a'', (MHash [(''tokens'', 1 / 4), (''last_refill_ms'', 10000)], None))]
        10 Answered ''rl:a'' ex_policy)) 1501) (11501 / 1000) Answered ''rl:a'' ex_policy))"
proof -
  let ?db = "[(''rl:a'', (MHash [(''tokens'', 1 / 4), (''last_refill_ms'', 10000)], None))]"
  let ?c = "check_token_bucket memory_server 0 ?db 10 Answered ''rl:a'' ex_policy"
  have h: "available ex_policy (now_ms 10) (peek memory_server ?db ''rl:a'') = Some (1 / 4)"
    "(0::rat) \<le> 1 / 4" "sane_bucket ex_policy" "\<bar>now_ms 10\<bar> < 10 ^ 14"
    "tb_cost ex_policy \<le> capacity ex_policy" "0 < refill_rate ex_policy"
    "store_error ex_policy \<le> refill_rate ex_policy / 1000" "?c = (fst ?c, snd ?c)"
    "\<not> allowed (snd ?c)" "now_ms 10 + retry_after_ms (snd ?c) + 1 \<le> now_ms (11501 / 1000)"
    by (code_simp, simp, code_simp, code_simp, code_simp, code_simp, code_simp, simp, code_simp, code_simp)
  show ?thesis by (rule token_bucket_retry_after_suffices [OF memory.redis_server_axioms h])
qed

text \<open>C13.
  In every stretch of time that is one window long, less the lag of the clocks (how far a reading is
  behind an earlier one at most: nothing if they agree), a sliding-window key admits at most its
  limit of requests, once and once more for every time the key expired with a request still in the
  window, plus the checks that a fail-open gateway let through because no answer came. This holds
  for any order of the checks of any number of gateways, other keys and failures, from the first
  check on the key, the gateways agreeing on the policy but for its failure mode and request ids
  being distinct 32-digit ones.\<close>

theorem sliding_window_bound:
  assumes "redis_server ops" and "peek ops db k = None" and "list_all (of_window p k) es"
    and "uuid_hex_ids (member_ids k es)" and "0 < sw_ttl_seconds p"
  shows "int (in_window (window_ms p - lag (check_times k es)) b
        (admitted_times k (snd (limiter_run ops ir db es))))
    \<le> max 0 (sw_limit p) * (1 + int (window_lapses p k None 0 es)) + int (open_failures k es)"
proof -
  have "zset_of (peek ops db k) \<noteq> None" using assms(2) by (simp add: zset_of_def)
  then have "uncounted k (snd (limiter_run ops ir db es)) = open_failures k es"
    using redis_server.window_run_counts [OF assms(1) _ assms(3)] by blast
  with redis_server.window_bound [OF assms, of b ir 0]
    in_window_admitted [of "window_ms p - lag (check_times k es)" b k "snd (limiter_run ops ir db es)"]
  show ?thesis by linarith
qed

definition ex_uuid :: "char \<Rightarrow> string" where
  "ex_uuid c = replicate 32 c"

definition ex_window :: SlidingWindowPolicy where
  "ex_window = sliding_window_policy 2 1"

definition ex_window_history :: "limiter_event list" where
  "ex_window_history =
     [WindowCheck ''rl:w'' ex_window (1 / 10) (ex_uuid CHR ''a'') Answered, Tick 200,
      WindowCheck ''rl:w'' ex_window (3 / 10) (ex_uuid CHR ''b'') Answered,
      WindowCheck ''rl:w'' ex_window (1 / 2) (ex_uuid CHR ''c'') Answered, Tick 600,
      WindowCheck ''rl:w'' ex_window (11 / 10) (ex_uuid CHR ''d'') Answered]"

theorem sliding_window_bound_witness:
  "admitted_times ''rl:w'' (snd (limiter_run memory_server 0 [] ex_window_history)) = [100, 300, 1100]
   \<and> in_window (window_ms ex_window) 1100
        (admitted_times ''rl:w'' (snd (limiter_run memory_server 0 [] ex_window_history))) \<le> 2"
proof -
  have h: "peek memory_server [] ''rl:w'' = None" "list_all (of_window ex_window ''rl:w'') ex_window_history"
    "uuid_hex_ids (member_ids ''rl:w'' ex_window_history)" "0 < sw_ttl_seconds ex_window"
    by (code_simp, code_simp, code_simp, code_simp)
  have "sw_limit ex_window = 2" "lag (check_times ''rl:w'' ex_window_history) = 0"
    "window_lapses ex_window ''rl:w'' None 0 ex_window_history = 0" "open_failures ''rl:w'' ex_window_history = 0"
    by (code_simp, code_simp, code_simp, code_simp)
  with sliding_window_bound [OF memory.redis_server_axioms h, of 1100 0]
  show ?thesis by (intro conjI) (code_simp, simp)
qed

text \<open>C35.
  The sliding window's answer, exactly: a reached check is admitted if and only if fewer than the
  limit of entries lie in the window; it reports the slots left after it; and a refusal asks for the
  wait after which the oldest entry of the window has left it (none, if the limit leaves no room
  even in an empty window).\<close>

theorem sliding_window_decision:
  assumes "redis_server ops" and "zset_of (peek ops db k) = Some z"
    and "c = card {m. \<exists>s. z m = Some s \<and> now_ms t - window_ms p < s}"
    and "check_sliding_window ops db t m Answered k p = (db', r)"
  shows "\<not> degraded r \<and> (allowed r \<longleftrightarrow> int c < sw_limit p)
    \<and> remaining r = (if int c < sw_limit p then sw_limit p - int c - 1 else 0)
    \<and> (if allowed r \<or> c = 0 then retry_after_ms r = 0
       else (\<exists>mm s. z mm = Some s \<and> now_ms t - window_ms p < s
               \<and> (\<forall>mm' s'. z mm' = Some s' \<and> now_ms t - window_ms p < s' \<longrightarrow> s \<le> s')
               \<and> retry_after_ms r = s + window_ms p - now_ms t))"
  by (rule redis_server.window_decision [OF assms])

theorem sliding_window_decision_witness:
  "\<not> allowed (snd (check_sliding_window memory_server
      [(''rl:w'', (MZset [(''a'', 100), (''b'', 300)], None))] (1 / 2) (ex_uuid CHR ''c'') Answered ''rl:w'' ex_window))
   \<and> retry_after_ms (snd (check_sliding_window memory_server
      [(''rl:w'', (MZset [(''a'', 100), (''b'', 300)], None))] (1 / 2) (ex_uuid CHR ''c'') Answered ''rl:w'' ex_window))
      = 600"
proof -
  let ?l = "[(''a'', 100), (''b'', 300)] :: (string, int) dict"
  let ?db = "[(''rl:w'', (MZset ?l, None))]"
  let ?r = "snd (check_sliding_window memory_server ?db (1 / 2) (ex_uuid CHR ''c'') Answered ''rl:w'' ex_window)"
  have z: "zset_of (peek memory_server ?db ''rl:w'') = Some (dict_get ?l)"
    by (simp add: mem_peek_def zset_of_def dict_get_def)
  have w: "now_ms (1 / 2) = 500" "window_ms ex_window = 1000" "sw_limit ex_window = 2" by (code_simp, code_simp, code_simp)
  have "{m. \<exists>s. dict_get ?l m = Some s \<and> now_ms (1 / 2) - window_ms ex_window < s} = {''a'', ''b''}"
    by (auto simp: dict_get_def w)
  then have c: "2 = card {m. \<exists>s. dict_get ?l m = Some s \<and> now_ms (1 / 2) - window_ms ex_window < s}" by simp
  note d = sliding_window_decision [OF memory.redis_server_axioms z c prod.collapse [symmetric],
      of "ex_uuid CHR ''c''"]
  then have no: "\<not> allowed ?r" by (simp add: w)
  then obtain mm s where s: "dict_get ?l mm = Some s" "retry_after_ms ?r = s + window_ms ex_window - now_ms (1 / 2)"
    "\<forall>mm' s'. dict_get ?l mm' = Some s' \<and> now_ms (1 / 2) - window_ms ex_window < s' \<longrightarrow> s \<le> s'"
    using d by auto
  have "s \<le> 100" using s(3) [rule_format, of "''a''" 100] by (simp add: w dict_get_def)
  with s(1) have "s = 100" by (auto simp: dict_get_def split: if_splits)
  with s(2) no show ?thesis by (simp add: w)
qed

text \<open>C39.
  A decision is taken without Redis exactly when the call failed or the key holds no bucket; it
  then follows the policy's failure mode: fail-open admits with the full limit, fail-closed refuses
  for one second. An unreachable server is not changed.\<close>

theorem redis_failure_decision:
  assumes "redis_server ops" and "check_token_bucket ops ir db t f k p = (db', r)"
  shows "(degraded r \<longleftrightarrow> f \<noteq> Answered \<or> available p (now_ms t) (peek ops db k) = None)
    \<and> (degraded r \<longrightarrow> r =
         \<lparr> allowed = (tb_failure_mode p = FAIL_OPEN),
           remaining = (if tb_failure_mode p = FAIL_OPEN then capacity p else 0),
           retry_after_ms = (if tb_failure_mode p = FAIL_OPEN then 0 else 1000),
           rl_limit = capacity p, degraded = True \<rparr>)
    \<and> (f = Unreachable \<longrightarrow> db' = db)"
proof (cases "available p (now_ms t) (peek ops db k)")
  case None
  with assms redis_server.token_script_error [OF assms(1) None] show ?thesis
    by (auto simp: check_token_bucket_def Let_def degraded_decision_def split: if_splits)
next
  case (Some tk)
  show ?thesis
  proof (cases "f = Unreachable")
    case True
    with assms(2) show ?thesis by (auto simp: check_token_bucket_def Let_def degraded_decision_def)
  next
    case False
    show ?thesis
      by (rule redis_server.token_check [OF assms(1) Some False, of ir])
        (use assms(2) False Some in \<open>cases f; auto simp: degraded_decision_def Let_def\<close>)
  qed
qed

theorem redis_failure_decision_witness:
  "\<not> allowed (snd (check_token_bucket memory_server 0 [] 10 ReplyLost ''rl:a'' ex_policy))
   \<and> degraded (snd (check_token_bucket memory_server 0 [] 10 ReplyLost ''rl:a'' ex_policy))
   \<and> \<not> degraded (snd (check_token_bucket memory_server 0 [] 10 Answered ''rl:a'' ex_policy))"
proof -
  let ?lost = "check_token_bucket memory_server 0 [] 10 ReplyLost ''rl:a'' ex_policy"
  let ?ok = "check_token_bucket memory_server 0 [] 10 Answered ''rl:a'' ex_policy"
  have present: "available ex_policy (now_ms 10) (peek memory_server [] ''rl:a'') \<noteq> None"
    by (simp add: mem_peek_def)
  have mode: "tb_failure_mode ex_policy = FAIL_CLOSED" by code_simp
  note lost = redis_failure_decision [OF memory.redis_server_axioms prod.collapse [symmetric],
      of 0 "[]" 10 ReplyLost "''rl:a''" ex_policy]
  note ok = redis_failure_decision [OF memory.redis_server_axioms prod.collapse [symmetric],
      of 0 "[]" 10 Answered "''rl:a''" ex_policy]
  have d: "degraded (snd ?lost)" using lost by blast
  then have "snd ?lost = \<lparr> allowed = False, remaining = 0, retry_after_ms = 1000,
      rl_limit = capacity ex_policy, degraded = True \<rparr>"
    using lost mode by simp
  moreover have "\<not> degraded (snd ?ok)" using ok present by blast
  ultimately show ?thesis by simp
qed

text \<open>C40.
  The guard against clocks that run backwards does not stop disagreeing clocks from minting tokens:
  each check stores its own reading, so a gateway that is a second ahead is refilled again after
  every check of a gateway that is behind. With one token and one token per second, all of its
  requests are admitted although all readings lie within one second.\<close>

theorem token_bucket_skew_unbounded:
  assumes "redis_server ops" and "peek ops db k = None" and "p = token_bucket_policy 1 1"
  shows "admitted_count k (snd (limiter_run ops ir db
      (concat (replicate n [TokenCheck k p 1 Answered, TokenCheck k p 0 Answered])))) = n"
  using redis_server.skew_from [OF assms(1,3)] assms(2,3) by (simp add: token_bucket_policy_def)

theorem token_bucket_skew_unbounded_witness:
  "admitted_count ''rl:a'' (snd (limiter_run memory_server 0 []
      (concat (replicate 1000 [TokenCheck ''rl:a'' (token_bucket_policy 1 1) 1 Answered,
                               TokenCheck ''rl:a'' (token_bucket_policy 1 1) 0 Answered])))) = 1000"
proof -
  have "peek memory_server [] ''rl:a'' = None" by (simp add: mem_peek_def)
  from token_bucket_skew_unbounded [OF memory.redis_server_axioms this refl] show ?thesis .
qed

end
