(* ===== verification/Forwarder.thy ===== *)
theory Forwarder
  imports Sentinel_Prelude
begin

text \<open>
  The reverse proxy's one attempt, \<^verbatim>\<open>src/apps/gateway/proxy/forwarder.py\<close>: the request that
  is handed to the HTTP client, with hop-by-hop headers removed and the gateway's own headers set.
  The HTTP library is not part of the repository: \<open>items\<close> stands for
  \<^verbatim>\<open>httpx.Headers(h).items()\<close>, with its documented normalisation as the predicate
  \<open>lowercases\<close>, and \<open>send\<close> for \<^verbatim>\<open>AsyncClient.request\<close>.
\<close>

section \<open>Data\<close>

type_synonym headers = "(string, string) dict"

definition HOP_BY_HOP_HEADERS :: "string list" where
  "HOP_BY_HOP_HEADERS =
     [''connection'', ''keep-alive'', ''proxy-authenticate'', ''proxy-authorization'', ''te'',
      ''trailers'', ''transfer-encoding'', ''upgrade'', ''host'']"

record ProxyForwarder =
  connect_timeout_s :: seconds
  read_timeout_s :: seconds
  write_timeout_s :: seconds
  pool_timeout_s :: seconds
  max_connections :: int
  max_keepalive_connections :: int

record outbound_request =
  ob_method :: string
  ob_url :: string
  ob_headers :: headers
  ob_params :: "(string, string) dict option"
  ob_content :: "bytes option"
  ob_timeout :: seconds

record Response =
  rs_status_code :: int
  rs_headers :: headers
  rs_content :: bytes

section \<open>Operations\<close>

definition clean_headers :: "headers \<Rightarrow> headers" where
  "clean_headers hs = filter (\<lambda>kv. py_lower (fst kv) \<notin> set HOP_BY_HOP_HEADERS) hs"

definition outbound_headers :: "(headers \<Rightarrow> headers) \<Rightarrow> headers \<Rightarrow> string \<Rightarrow> string \<Rightarrow> string \<Rightarrow> headers" where
  "outbound_headers items hs request_id instance_id client_ip =
     (let h = clean_headers (items hs);
          h = dict_set h ''X-Request-ID'' request_id;
          h = dict_set h ''X-Sentinel-Instance'' instance_id;
          h = dict_set h ''X-Forwarded-For'' client_ip
      in dict_set h ''X-Forwarded-Proto'' ''https'')"

definition forward_request ::
  "(headers \<Rightarrow> headers) \<Rightarrow> string \<Rightarrow> string \<Rightarrow> headers \<Rightarrow> (string, string) dict option
    \<Rightarrow> bytes option \<Rightarrow> string \<Rightarrow> string \<Rightarrow> string \<Rightarrow> seconds \<Rightarrow> outbound_request" where
  "forward_request items meth target_url hs params body request_id instance_id client_ip timeout =
     \<lparr> ob_method = meth, ob_url = target_url,
       ob_headers = outbound_headers items hs request_id instance_id client_ip,
       ob_params = params, ob_content = body, ob_timeout = timeout \<rparr>"

definition forward ::
  "(headers \<Rightarrow> headers) \<Rightarrow> (outbound_request \<Rightarrow> exn + Response) \<Rightarrow> string \<Rightarrow> string \<Rightarrow> headers
    \<Rightarrow> (string, string) dict option \<Rightarrow> bytes option \<Rightarrow> string \<Rightarrow> string \<Rightarrow> string \<Rightarrow> seconds
    \<Rightarrow> exn + Response" where
  "forward items send meth target_url hs params body request_id instance_id client_ip timeout =
     send (forward_request items meth target_url hs params body request_id instance_id client_ip timeout)"

text \<open>The documented view of a header mapping: names are lower case, values are kept.\<close>

definition lowercases :: "(headers \<Rightarrow> headers) \<Rightarrow> bool" where
  "lowercases items \<longleftrightarrow>
     (\<forall>hs. distinct (map (\<lambda>kv. py_lower (fst kv)) hs) \<longrightarrow>
        (\<forall>kv \<in> set hs. dict_get (items hs) (py_lower (fst kv)) = Some (snd kv)))"

definition lower_items :: "headers \<Rightarrow> headers" where
  "lower_items hs = map (\<lambda>kv. (py_lower (fst kv), snd kv)) hs"

section \<open>Lemmas\<close>

lemma dict_get_clean:
  "dict_get (clean_headers h) k = (if py_lower k \<in> set HOP_BY_HOP_HEADERS then None else dict_get h k)"
  by (induction h) (auto simp: clean_headers_def dict_get_def)

lemma lowercases_lower_items: "lowercases lower_items"
proof -
  have "dict_get (lower_items hs) (py_lower (fst kv)) = Some (snd kv)"
    if "distinct (map (\<lambda>kv. py_lower (fst kv)) hs)" "kv \<in> set hs" for hs kv
    using that by (induction hs) (auto simp: lower_items_def dict_get_def image_iff)
  then show ?thesis by (simp add: lowercases_def)
qed

section \<open>Properties\<close>

text \<open>
  The headers a backend receives, exactly: the gateway's four, and otherwise what the client sent
  except for the hop-by-hop headers, whatever the case of their names.\<close>

lemma outbound_headers_exact:
  "dict_get (outbound_headers items hs request_id instance_id client_ip) k =
     (if k = ''X-Forwarded-Proto'' then Some ''https''
      else if k = ''X-Forwarded-For'' then Some client_ip
      else if k = ''X-Sentinel-Instance'' then Some instance_id
      else if k = ''X-Request-ID'' then Some request_id
      else if py_lower k \<in> set HOP_BY_HOP_HEADERS then None
      else dict_get (items hs) k)"
  by (simp add: outbound_headers_def Let_def dict_get_clean)

text \<open>Forwarding headers of the client are not replaced but sent along: because names are lower-cased
  on the way in and the gateway's own are set under their mixed-case names, a header
  \<^verbatim>\<open>X-Forwarded-For\<close> or \<^verbatim>\<open>X-Request-ID\<close> from any client reaches the backend
  under its lower-case name beside the gateway's.\<close>

theorem client_forwarding_headers_survive:
  assumes "lowercases items" and "distinct (map (\<lambda>kv. py_lower (fst kv)) hs)"
    and "(name, v) \<in> set hs" and "py_lower name \<in> {''x-forwarded-for'', ''x-request-id''}"
  shows "dict_get (outbound_headers items hs request_id instance_id client_ip) (py_lower name) = Some v
    \<and> dict_get (outbound_headers items hs request_id instance_id client_ip) ''X-Forwarded-For'' = Some client_ip
    \<and> dict_get (outbound_headers items hs request_id instance_id client_ip) ''X-Request-ID'' = Some request_id"
proof -
  have v: "dict_get (items hs) (py_lower name) = Some v" using assms(1-3) by (fastforce simp: lowercases_def)
  have "py_lower (py_lower name) \<notin> set HOP_BY_HOP_HEADERS"
    using assms(4) by (auto simp: HOP_BY_HOP_HEADERS_def)
  with v assms(4) show ?thesis by (auto simp: outbound_headers_def Let_def dict_get_clean)
qed

theorem client_forwarding_headers_survive_witness:
  "dict_get (outbound_headers lower_items [(''Accept'', ''*/*''), (''X-Forwarded-For'', ''10.0.0.1'')]
     ''req-1'' ''sentinel-1'' ''203.0.113.9'') ''x-forwarded-for'' = Some ''10.0.0.1''
   \<and> dict_get (outbound_headers lower_items [(''Accept'', ''*/*''), (''X-Forwarded-For'', ''10.0.0.1'')]
     ''req-1'' ''sentinel-1'' ''203.0.113.9'') ''X-Forwarded-For'' = Some ''203.0.113.9''"
proof -
  let ?hs = "[(''Accept'', ''*/*''), (''X-Forwarded-For'', ''10.0.0.1'')]"
  have lo: "py_lower ''X-Forwarded-For'' = ''x-forwarded-for''" by code_simp
  have h: "distinct (map (\<lambda>kv. py_lower (fst kv)) ?hs)" "(''X-Forwarded-For'', ''10.0.0.1'') \<in> set ?hs"
    "py_lower ''X-Forwarded-For'' \<in> {''x-forwarded-for'', ''x-request-id''}"
    by (code_simp, simp, simp add: lo)
  show ?thesis
    using client_forwarding_headers_survive [OF lowercases_lower_items h, of "''req-1''" "''sentinel-1''" "''203.0.113.9''"]
    by (simp add: lo)
qed

end
