(* ===== verification/Pipeline.thy ===== *)
theory Pipeline
  imports Circuit_Breaker Backpressure Retry_Policy Router Rate_Limiter Forwarder
begin

text \<open>
  The request pipeline, \<^verbatim>\<open>src/apps/gateway/pipeline/pipeline.py\<close>: \<open>handle\<close> and
  \<open>dispatch\<close> (\<^verbatim>\<open>_dispatch_with_resilience\<close>) put the other components in sequence.
  A coroutine runs undisturbed between two suspension points, so the code is cut there: what a
  request does before it awaits the backend (\<open>open_attempt\<close>), what it does with the answer
  (\<open>close_attempt\<close>), whether it goes on (\<open>wants_retry\<close>). Everything outside is an
  environment: clock readings, the shuffle, the random draw, the backend's answers, and what other
  requests do to the shared state at every suspension point (functions on \<open>gateway\<close>).

  \<open>dispatch\<close> also returns the requests it sent, in order. The loop ends because every round
  uses up one of the \<^verbatim>\<open>max_attempts\<close>.
\<close>

section \<open>Shared state, requests, results\<close>

record PipelineResult =
  status_code :: int
  pr_headers :: headers
  pr_body :: bytes
  stage_failed :: "string option"

record 'db gateway =
  gw_routes :: route_table
  gw_selector :: selector
  gw_redis :: 'db
  gw_concurrency :: manager
  gw_breakers :: "(string, breaker) dict"
  gw_instances :: instance_store
  gw_max_body_size_bytes :: int
  gw_instance_id :: string

record request =
  rq_request_id :: string
  rq_tenant_id :: string
  rq_method :: string
  rq_path :: string
  rq_headers :: headers
  rq_params :: "(string, string) dict"
  rq_body :: bytes
  rq_client_ip :: string
  rq_rate_limit_policy :: TokenBucketPolicy
  rq_rate_limit_key :: string
  rq_backends :: "(string, instance_ref list) dict"
  rq_retry_policy :: RetryPolicy

text \<open>The environment of one attempt, in the order in which it is consulted.\<close>

record 'db attempt_env =
  ae_shuffle :: "instance_ref list \<Rightarrow> instance_ref list"
  t_admit :: seconds
  t_remaining :: seconds
  ae_send :: "outbound_request \<Rightarrow> exn + Response"
  ae_during_send :: "'db gateway \<Rightarrow> 'db gateway"
  t_outcome :: seconds
  t_opened :: seconds
  t_state :: seconds
  ae_draw :: py_float
  t_budget :: seconds
  ae_during_sleep :: "'db gateway \<Rightarrow> 'db gateway"

text \<open>
  The environment of one wait at a gate: the other tasks, whether the time-out fires (it may, even
  if the request has just been woken), and the time reported if the wait is in vain.
\<close>

record 'db wait_env =
  we_during_wait :: "'db gateway \<Rightarrow> 'db gateway"
  we_expired :: bool
  we_waited :: py_float

record 'db handle_env =
  he_items :: "headers \<Rightarrow> headers"
  he_task :: task
  he_clock :: seconds
  he_fault :: redis_fault
  he_during_check :: "'db gateway \<Rightarrow> 'db gateway"
  he_wait :: "nat \<Rightarrow> 'db wait_env"
  he_start :: seconds
  he_attempt :: "nat \<Rightarrow> 'db attempt_env"

section \<open>The circuit breaker of a service\<close>

definition breaker_for :: "(string, breaker) dict \<Rightarrow> string \<Rightarrow> breaker \<times> (string, breaker) dict" where
  "breaker_for breakers service =
     (case dict_get breakers service of
        Some b \<Rightarrow> (b, breakers)
      | None \<Rightarrow>
          let b = new_breaker service default_breaker_config
          in (b, dict_set breakers service b))"

definition the_breaker :: "'db gateway \<Rightarrow> string \<Rightarrow> breaker" where
  "the_breaker gw service = fst (breaker_for (gw_breakers gw) service)"

definition put_breaker :: "string \<Rightarrow> breaker \<Rightarrow> 'db gateway \<Rightarrow> 'db gateway" where
  "put_breaker service b gw = gw\<lparr>gw_breakers := dict_set (gw_breakers gw) service b\<rparr>"

definition with_breaker ::
  "string \<Rightarrow> (breaker \<Rightarrow> (breaker, unit) outcome) \<Rightarrow> 'db gateway \<Rightarrow> ('db gateway, unit) outcome" where
  "with_breaker service f gw =
     (case f (the_breaker gw service) of (b, r) \<Rightarrow> (put_breaker service b gw, r))"

section \<open>One attempt\<close>

definition error_result :: "int \<Rightarrow> headers \<Rightarrow> string \<Rightarrow> string \<Rightarrow> PipelineResult" where
  "error_result status hs body stage =
     \<lparr> status_code = status, pr_headers = hs, pr_body = body, stage_failed = Some stage \<rparr>"

definition circuit_open_result :: "string \<Rightarrow> PipelineResult" where
  "circuit_open_result request_id =
     error_result 503 [(''X-Request-ID'', request_id)]
       ''{\"error\":{\"code\":\"CIRCUIT_OPEN\",\"message\":\"Backend circuit is open\"}}''
       ''circuit_breaker''"

definition no_backend_result :: "string \<Rightarrow> PipelineResult" where
  "no_backend_result request_id =
     error_result 503 [(''X-Request-ID'', request_id)]
       ''{\"error\":{\"code\":\"NO_HEALTHY_BACKEND\"}}'' ''backend_selection''"

datatype plan =
    Send outbound_request
  | Answer_With PipelineResult
  | Give_Up
  | Fail_With exn

definition failure_then :: "string \<Rightarrow> 'db attempt_env \<Rightarrow> plan \<Rightarrow> 'db gateway \<Rightarrow> 'db gateway \<times> plan" where
  "failure_then service env p gw =
     (case with_breaker service (record_failure (t_outcome env) (t_opened env)) gw of
        (gw', Inl e) \<Rightarrow> (gw', Fail_With e)
      | (gw', Inr _) \<Rightarrow> (gw', p))"

definition attempt_request ::
  "(headers \<Rightarrow> headers) \<Rightarrow> request \<Rightarrow> RouteDefinition \<Rightarrow> 'db gateway \<Rightarrow> instance_ref \<Rightarrow> seconds \<Rightarrow> outbound_request" where
  "attempt_request items req route gw inst remaining_s =
     forward_request items (rq_method req)
       (instance_url (gw_instances gw inst) @ py_rstrip (CHR ''*'') (rt_path_pattern route))
       (rq_headers req) (Some (rq_params req)) (Some (rq_body req)) (rq_request_id req)
       (gw_instance_id gw) (rq_client_ip req)
       (min remaining_s (of_int (rt_timeout_ms route) / 1000))"

definition open_attempt ::
  "(headers \<Rightarrow> headers) \<Rightarrow> request \<Rightarrow> RouteDefinition \<Rightarrow> DeadlineTracker \<Rightarrow> 'db attempt_env
    \<Rightarrow> 'db gateway \<Rightarrow> 'db gateway \<times> plan" where
  "open_attempt items req route deadline env gw =
     (let service = rt_backend_service_id route in
      case with_breaker service (before_request (t_admit env)) gw of
        (gw1, Inl (CircuitOpenError _)) \<Rightarrow> (gw1, Answer_With (circuit_open_result (rq_request_id req)))
      | (gw1, Inl e) \<Rightarrow> (gw1, Fail_With e)
      | (gw1, Inr _) \<Rightarrow>
          (let instances = (case dict_get (rq_backends req) service of None \<Rightarrow> [] | Some l \<Rightarrow> l) in
           case select (gw_instances gw1) (ae_shuffle env) (gw_selector gw1) service instances of
             (sel, Inl (NoHealthyBackendError _)) \<Rightarrow>
               failure_then service env (Answer_With (no_backend_result (rq_request_id req)))
                 (gw1\<lparr>gw_selector := sel\<rparr>)
           | (sel, Inl e) \<Rightarrow> (gw1\<lparr>gw_selector := sel\<rparr>, Fail_With e)
           | (sel, Inr inst) \<Rightarrow>
               (let gw2 = gw1\<lparr>gw_selector := sel\<rparr>;
                    remaining_s = remaining_seconds deadline (t_remaining env)
                in if remaining_s \<le> 0 then failure_then service env Give_Up gw2
                   else (gw2, Send (attempt_request items req route gw2 inst remaining_s)))))"

datatype closing =
    Done PipelineResult
  | Failed FailureKind int bytes
  | Crash exn

definition failure_close ::
  "string \<Rightarrow> 'db attempt_env \<Rightarrow> FailureKind \<Rightarrow> int \<Rightarrow> bytes \<Rightarrow> 'db gateway \<Rightarrow> 'db gateway \<times> closing" where
  "failure_close service env kind status body gw =
     (case with_breaker service (record_failure (t_outcome env) (t_opened env)) gw of
        (gw', Inl e) \<Rightarrow> (gw', Crash e)
      | (gw', Inr _) \<Rightarrow> (gw', Failed kind status body))"

definition close_attempt ::
  "string \<Rightarrow> string \<Rightarrow> 'db attempt_env \<Rightarrow> int \<Rightarrow> bytes \<Rightarrow> exn + Response \<Rightarrow> 'db gateway
    \<Rightarrow> 'db gateway \<times> closing" where
  "close_attempt request_id service env last_status last_body answer gw =
     (case answer of
        Inr resp \<Rightarrow>
          (let code = rs_status_code resp; kind = classify_http_status code in
           if kind = SUCCESS \<or> code < 500 then
             (if code < 500
              then put_breaker service (record_success (t_outcome env) (the_breaker gw service)) gw
              else gw,
              Done \<lparr> status_code = code,
                     pr_headers = dict_update [(''X-Request-ID'', request_id)] (rs_headers resp),
                     pr_body = rs_content resp, stage_failed = None \<rparr>)
           else failure_close service env kind code (rs_content resp) gw)
      | Inl (HttpxError ConnectError) \<Rightarrow> failure_close service env CONNECTION_ERROR last_status last_body gw
      | Inl (HttpxError ConnectTimeout) \<Rightarrow> failure_close service env CONNECTION_ERROR last_status last_body gw
      | Inl (HttpxError OtherTimeout) \<Rightarrow> failure_close service env TIMEOUT last_status last_body gw
      | Inl e \<Rightarrow> (gw, Crash e))"

text \<open>
  The four conditions after a failed attempt. Reading \<^verbatim>\<open>breaker.state\<close> may itself move
  the breaker from open to half-open.
\<close>

definition wants_retry ::
  "request \<Rightarrow> string \<Rightarrow> DeadlineTracker \<Rightarrow> 'db attempt_env \<Rightarrow> int \<Rightarrow> FailureKind \<Rightarrow> 'db gateway
    \<Rightarrow> 'db gateway \<times> bool" where
  "wants_retry req service deadline env att kind gw =
     (let policy = rq_retry_policy req;
          b = read_state (t_state env) (the_breaker gw service);
          gw1 = put_breaker service b gw
      in (gw1,
          if \<not> is_retryable (rq_method req) kind policy (cb_state b = OPEN) then False
          else if att \<ge> max_attempts policy then False
          else has_budget_for deadline (t_budget env)
                 (compute_backoff_ms (ae_draw env) att (base_backoff_ms policy))))"

section \<open>The retry loop\<close>

definition proxy_result :: "string \<Rightarrow> int \<Rightarrow> bytes \<Rightarrow> PipelineResult" where
  "proxy_result request_id status body =
     error_result status [(''X-Request-ID'', request_id)] body ''proxy''"

function dispatch_loop ::
  "(headers \<Rightarrow> headers) \<Rightarrow> request \<Rightarrow> RouteDefinition \<Rightarrow> DeadlineTracker \<Rightarrow> (nat \<Rightarrow> 'db attempt_env)
    \<Rightarrow> int \<Rightarrow> int \<Rightarrow> bytes \<Rightarrow> 'db gateway
    \<Rightarrow> 'db gateway \<times> outbound_request list \<times> (exn + PipelineResult)" where
  "dispatch_loop items req route deadline env att last_status last_body gw =
     (if \<not> att < max_attempts (rq_retry_policy req)
      then (gw, [], Inr (proxy_result (rq_request_id req) last_status last_body))
      else
        let att = att + 1; e = env (nat att); service = rt_backend_service_id route in
        case open_attempt items req route deadline e gw of
          (gw1, Answer_With r) \<Rightarrow> (gw1, [], Inr r)
        | (gw1, Give_Up) \<Rightarrow> (gw1, [], Inr (proxy_result (rq_request_id req) last_status last_body))
        | (gw1, Fail_With x) \<Rightarrow> (gw1, [], Inl x)
        | (gw1, Send q) \<Rightarrow>
            (case close_attempt (rq_request_id req) service e last_status last_body (ae_send e q)
                    (ae_during_send e gw1) of
               (gw2, Done r) \<Rightarrow> (gw2, [q], Inr r)
             | (gw2, Crash x) \<Rightarrow> (gw2, [q], Inl x)
             | (gw2, Failed kind status body) \<Rightarrow>
                 (case wants_retry req service deadline e att kind gw2 of
                    (gw3, False) \<Rightarrow> (gw3, [q], Inr (proxy_result (rq_request_id req) status body))
                  | (gw3, True) \<Rightarrow>
                      (case dispatch_loop items req route deadline env att status body (ae_during_sleep e gw3) of
                         (gw4, qs, r) \<Rightarrow> (gw4, q # qs, r)))))"
  by pat_completeness auto
termination
  by (relation "measure (\<lambda>(items, req, route, deadline, env, att, s, b, gw). nat (max_attempts (rq_retry_policy req) - att))")
    auto

declare dispatch_loop.simps [simp del]

definition dispatch ::
  "(headers \<Rightarrow> headers) \<Rightarrow> request \<Rightarrow> RouteDefinition \<Rightarrow> seconds \<Rightarrow> (nat \<Rightarrow> 'db attempt_env) \<Rightarrow> 'db gateway
    \<Rightarrow> 'db gateway \<times> outbound_request list \<times> (exn + PipelineResult)" where
  "dispatch items req route start env gw =
     (let gw1 = gw\<lparr>gw_breakers := snd (breaker_for (gw_breakers gw) (rt_backend_service_id route))\<rparr>;
          deadline = new_deadline (total_deadline_ms (rq_retry_policy req)) start
      in dispatch_loop items req route deadline env 0 502 ''{\"error\":{\"code\":\"BAD_GATEWAY\"}}'' gw1)"

section \<open>The gates\<close>

text \<open>
  \<^verbatim>\<open>acquire_all\<close> as one request runs through it, gate by gate. A request that has to wait
  lets the others run; when it is resumed it either was woken or has timed out, and of the two the
  time-out prevails.
\<close>

fun acquire_gates ::
  "nat \<Rightarrow> task \<Rightarrow> (nat \<Rightarrow> 'db wait_env) \<Rightarrow> client \<Rightarrow> 'db gateway \<Rightarrow> 'db gateway \<times> client" where
  "acquire_gates 0 t env c gw = (gw, c)"
| "acquire_gates (Suc n) t env c gw =
     (case try_acquire t (we_waited (env (c_held c))) c (gw_concurrency gw) of
        (m, c1) \<Rightarrow>
          let gw1 = gw\<lparr>gw_concurrency := m\<rparr> in
          (case c_status c1 of
             Waiting \<Rightarrow>
               (let gw2 = we_during_wait (env (c_held c)) gw1 in
                if is_woken (gw_concurrency gw2) c1 t \<and> \<not> we_expired (env (c_held c))
                then (case wake_client t c1 (gw_concurrency gw2) of
                        (m', c2) \<Rightarrow> acquire_gates n t env c2 (gw2\<lparr>gw_concurrency := m'\<rparr>))
                else (case timeout_client t (we_waited (env (c_held c))) c1 (gw_concurrency gw2) of
                        (m', c2) \<Rightarrow> (gw2\<lparr>gw_concurrency := m'\<rparr>, c2)))
           | Finished _ \<Rightarrow> (gw1, c1)
           | _ \<Rightarrow> acquire_gates n t env c1 gw1))"

definition acquire_path ::
  "task \<Rightarrow> (nat \<Rightarrow> 'db wait_env) \<Rightarrow> string \<Rightarrow> string \<Rightarrow> string \<Rightarrow> 'db gateway
    \<Rightarrow> 'db gateway \<times> (exn + client)" where
  "acquire_path t env tenant_id route_id backend_id gw =
     (case create_gates tenant_id route_id backend_id (gw_concurrency gw) of
        (m, Inl e) \<Rightarrow> (gw\<lparr>gw_concurrency := m\<rparr>, Inl e)
      | (m, Inr _) \<Rightarrow>
          (case acquire_gates 4 t env
                  \<lparr> c_path = gate_path tenant_id route_id backend_id, c_held = 0, c_status = Acquiring \<rparr>
                  (gw\<lparr>gw_concurrency := m\<rparr>) of
             (gw1, c) \<Rightarrow>
               (gw1, case c_status c of Finished (Some e) \<Rightarrow> Inl e | _ \<Rightarrow> Inr c)))"

section \<open>The whole request\<close>

definition too_large_result :: "string \<Rightarrow> PipelineResult" where
  "too_large_result request_id =
     error_result 413 [(''X-Request-ID'', request_id)]
       ''{\"error\":{\"code\":\"PAYLOAD_TOO_LARGE\"}}'' ''request_size_validation''"

definition no_route_result :: "string \<Rightarrow> PipelineResult" where
  "no_route_result request_id =
     error_result 404 [(''X-Request-ID'', request_id)]
       ''{\"error\":{\"code\":\"ROUTE_NOT_FOUND\"}}'' ''route_matching''"

definition retry_after_s :: "RateLimitDecision \<Rightarrow> int" where
  "retry_after_s d = max 1 (retry_after_ms d div 1000)"

definition rate_limited_result :: "string \<Rightarrow> RateLimitDecision \<Rightarrow> PipelineResult" where
  "rate_limited_result request_id d =
     error_result 429
       [(''X-Request-ID'', request_id), (''Retry-After'', py_str_int (retry_after_s d)),
        (''X-RateLimit-Limit'', py_str_int (rl_limit d)),
        (''X-RateLimit-Remaining'', py_str_int (remaining d))]
       ''{\"error\":{\"code\":\"RATE_LIMITED\",\"message\":\"Rate limit exceeded\"}}'' ''rate_limit''"

definition overloaded_result :: "string \<Rightarrow> string \<Rightarrow> PipelineResult" where
  "overloaded_result request_id gate_scope =
     error_result 503 [(''X-Request-ID'', request_id), (''Retry-After'', ''1'')]
       ''{\"error\":{\"code\":\"OVERLOADED\",\"message\":\"Server is at capacity\"}}''
       (''backpressure:'' @ gate_scope)"

definition release_all :: "client \<Rightarrow> 'db gateway \<Rightarrow> 'db gateway" where
  "release_all c gw = gw\<lparr>gw_concurrency := fst (finish_client c (gw_concurrency gw))\<rparr>"

definition serve ::
  "request \<Rightarrow> RouteDefinition \<Rightarrow> 'db handle_env \<Rightarrow> 'db gateway
    \<Rightarrow> 'db gateway \<times> outbound_request list \<times> (exn + PipelineResult)" where
  "serve req route env gw =
     (case acquire_path (he_task env) (he_wait env) (rq_tenant_id req) (rt_id route)
             (rt_backend_service_id route) gw of
        (gw1, Inl (BackpressureRejected gate_scope _)) \<Rightarrow>
          (gw1, [], Inr (overloaded_result (rq_request_id req) gate_scope))
      | (gw1, Inl e) \<Rightarrow> (gw1, [], Inl e)
      | (gw1, Inr c) \<Rightarrow>
          (case dispatch (he_items env) req route (he_start env) (he_attempt env) gw1 of
             (gw2, qs, r) \<Rightarrow> (release_all c gw2, qs, r)))"

definition handle ::
  "'db redis_ops \<Rightarrow> int \<Rightarrow> request \<Rightarrow> 'db handle_env \<Rightarrow> 'db gateway
    \<Rightarrow> 'db gateway \<times> outbound_request list \<times> (exn + PipelineResult)" where
  "handle ops inf_reply req env gw =
     (if int (length (rq_body req)) > gw_max_body_size_bytes gw
      then (gw, [], Inr (too_large_result (rq_request_id req)))
      else
        case match_route (gw_routes gw) (rq_tenant_id req) (rq_method req) (rq_path req) of
          Inl (RouteNotFoundError _) \<Rightarrow> (gw, [], Inr (no_route_result (rq_request_id req)))
        | Inl e \<Rightarrow> (gw, [], Inl e)
        | Inr route \<Rightarrow>
            (case check_token_bucket ops inf_reply (gw_redis gw) (he_clock env) (he_fault env)
                    (rq_rate_limit_key req) (rq_rate_limit_policy req) of
               (db, decision) \<Rightarrow>
                 let gw1 = he_during_check env (gw\<lparr>gw_redis := db\<rparr>) in
                 if \<not> allowed decision
                 then (gw1, [], Inr (rate_limited_result (rq_request_id req) decision))
                 else serve req route env gw1))"

lemmas [pipeline_defs] =
  breaker_for_def the_breaker_def put_breaker_def with_breaker_def failure_then_def
  failure_close_def open_attempt_def close_attempt_def wants_retry_def attempt_request_def

section \<open>Lemmas on one attempt\<close>

interpretation breakers: lazy_registry dict_get breaker_for "\<lambda>s. new_breaker s default_breaker_config"
  by unfold_locales (auto simp: breaker_for_def Let_def split: option.splits)

lemma the_breaker_put [simp]:
  "the_breaker (put_breaker s b gw) s' = (if s' = s then b else the_breaker gw s')"
  by (simp add: the_breaker_def put_breaker_def breakers.ensure_value)

lemma put_breaker_fields [simp]:
  "gw_concurrency (put_breaker s b gw) = gw_concurrency gw"
  "gw_instances (put_breaker s b gw) = gw_instances gw"
  "gw_selector (put_breaker s b gw) = gw_selector gw"
  "gw_instance_id (put_breaker s b gw) = gw_instance_id gw"
  by (simp_all add: put_breaker_def)

lemma the_breaker_other_fields [simp]:
  "the_breaker (gw\<lparr>gw_selector := sel\<rparr>) s = the_breaker gw s"
  "the_breaker (gw\<lparr>gw_concurrency := m\<rparr>) s = the_breaker gw s"
  "the_breaker (gw\<lparr>gw_breakers := snd (breaker_for (gw_breakers gw) s')\<rparr>) s = the_breaker gw s"
  by (simp_all add: the_breaker_def breakers.ensure_value)
    (auto simp: breaker_for_def Let_def split: option.split)

lemma with_breaker_fields:
  assumes "with_breaker s f gw = (gw', r)"
  shows "gw_concurrency gw' = gw_concurrency gw" "gw_instances gw' = gw_instances gw"
    "gw_selector gw' = gw_selector gw" "gw_instance_id gw' = gw_instance_id gw"
    "f (the_breaker gw s) = (the_breaker gw' s, r)"
  using assms by (auto simp: with_breaker_def split: prod.splits)

lemma failure_then_fields:
  "gw_concurrency (fst (failure_then s env p gw)) = gw_concurrency gw"
  by (auto simp: failure_then_def with_breaker_def split: prod.splits sum.splits)

lemma failure_close_fields:
  "gw_concurrency (fst (failure_close s env k st b gw)) = gw_concurrency gw"
  by (auto simp: failure_close_def with_breaker_def split: prod.splits sum.splits)

lemma open_attempt_fields:
  "gw_concurrency (fst (open_attempt items req route dl env gw)) = gw_concurrency gw"
  by (auto simp: open_attempt_def Let_def failure_then_fields with_breaker_def
      split: prod.splits sum.splits exn.splits)

lemma close_attempt_fields:
  "gw_concurrency (fst (close_attempt rid s env ls lb a gw)) = gw_concurrency gw"
  by (auto simp: close_attempt_def Let_def failure_close_fields
      split: sum.splits exn.splits httpx_error.splits)

lemma wants_retry_fields:
  "gw_concurrency (fst (wants_retry req s dl env att k gw)) = gw_concurrency gw"
  by (simp add: wants_retry_def Let_def)

lemma open_attempt_send:
  assumes "open_attempt items req route dl env gw = (gw', Send q)"
  obtains inst gw1 sel where
    "with_breaker (rt_backend_service_id route) (before_request (t_admit env)) gw = (gw1, Inr ())"
    and "select (gw_instances gw1) (ae_shuffle env) (gw_selector gw1) (rt_backend_service_id route)
      (case dict_get (rq_backends req) (rt_backend_service_id route) of None \<Rightarrow> [] | Some l \<Rightarrow> l) = (sel, Inr inst)"
    and "0 < remaining_seconds dl (t_remaining env)" and "gw' = gw1\<lparr>gw_selector := sel\<rparr>"
    and "q = attempt_request items req route gw' inst (remaining_seconds dl (t_remaining env))"
  using assms
  by (auto simp: open_attempt_def failure_then_def Let_def
      split: prod.splits sum.splits exn.splits if_splits)

lemma open_attempt_circuit_open:
  assumes "before_request (t_admit env) (the_breaker gw (rt_backend_service_id route)) = (b, Inl (CircuitOpenError x))"
  shows "open_attempt items req route dl env gw =
    (put_breaker (rt_backend_service_id route) b gw, Answer_With (circuit_open_result (rq_request_id req)))"
  using assms by (simp add: open_attempt_def with_breaker_def)

section \<open>Lemmas on the retry loop\<close>

text \<open>The ways in which a round of the loop can go.\<close>

lemma dispatch_loop_cases:
  assumes "dispatch_loop items req route dl env att ls lb gw = (gw', qs, r)"
  obtains (exhausted) "\<not> att < max_attempts (rq_retry_policy req)" "gw' = gw" "qs = []"
      "r = Inr (proxy_result (rq_request_id req) ls lb)"
    | (unsent) p where "att < max_attempts (rq_retry_policy req)"
      "open_attempt items req route dl (env (nat (att + 1))) gw = (gw', p)" "\<forall>q. p \<noteq> Send q" "qs = []"
      "r = (case p of Answer_With res \<Rightarrow> Inr res | Fail_With x \<Rightarrow> Inl x
            | _ \<Rightarrow> Inr (proxy_result (rq_request_id req) ls lb))"
    | (answered) q gw1 res where "att < max_attempts (rq_retry_policy req)"
      "open_attempt items req route dl (env (nat (att + 1))) gw = (gw1, Send q)"
      "close_attempt (rq_request_id req) (rt_backend_service_id route) (env (nat (att + 1))) ls lb
         (ae_send (env (nat (att + 1))) q) (ae_during_send (env (nat (att + 1))) gw1) = (gw', Done res)"
      "qs = [q]" "r = Inr res"
    | (crashed) q gw1 x where "att < max_attempts (rq_retry_policy req)"
      "open_attempt items req route dl (env (nat (att + 1))) gw = (gw1, Send q)"
      "close_attempt (rq_request_id req) (rt_backend_service_id route) (env (nat (att + 1))) ls lb
         (ae_send (env (nat (att + 1))) q) (ae_during_send (env (nat (att + 1))) gw1) = (gw', Crash x)"
      "qs = [q]" "r = Inl x"
    | (stopped) q gw1 gw2 k s b where "att < max_attempts (rq_retry_policy req)"
      "open_attempt items req route dl (env (nat (att + 1))) gw = (gw1, Send q)"
      "close_attempt (rq_request_id req) (rt_backend_service_id route) (env (nat (att + 1))) ls lb
         (ae_send (env (nat (att + 1))) q) (ae_during_send (env (nat (att + 1))) gw1) = (gw2, Failed k s b)"
      "wants_retry req (rt_backend_service_id route) dl (env (nat (att + 1))) (att + 1) k gw2 = (gw', False)"
      "qs = [q]" "r = Inr (proxy_result (rq_request_id req) s b)"
    | (again) q gw1 gw2 gw3 k s b qs' where "att < max_attempts (rq_retry_policy req)"
      "open_attempt items req route dl (env (nat (att + 1))) gw = (gw1, Send q)"
      "close_attempt (rq_request_id req) (rt_backend_service_id route) (env (nat (att + 1))) ls lb
         (ae_send (env (nat (att + 1))) q) (ae_during_send (env (nat (att + 1))) gw1) = (gw2, Failed k s b)"
      "wants_retry req (rt_backend_service_id route) dl (env (nat (att + 1))) (att + 1) k gw2 = (gw3, True)"
      "dispatch_loop items req route dl env (att + 1) s b (ae_during_sleep (env (nat (att + 1))) gw3) = (gw', qs', r)"
      "qs = q # qs'"
proof (cases "att < max_attempts (rq_retry_policy req)")
  case False
  with assms exhausted show ?thesis by (subst (asm) dispatch_loop.simps) simp
next
  case True
  let ?e = "env (nat (att + 1))" and ?svc = "rt_backend_service_id route"
  obtain gw1 p where op: "open_attempt items req route dl ?e gw = (gw1, p)"
    by (cases "open_attempt items req route dl ?e gw")
  show ?thesis
  proof (cases p)
    case (Send q)
    obtain gw2 c where cl: "close_attempt (rq_request_id req) ?svc ?e ls lb (ae_send ?e q) (ae_during_send ?e gw1) = (gw2, c)"
      by (cases "close_attempt (rq_request_id req) ?svc ?e ls lb (ae_send ?e q) (ae_during_send ?e gw1)")
    note unfolded = assms [unfolded dispatch_loop.simps [of _ _ _ _ _ att]]
    show ?thesis
    proof (cases c)
      case (Failed k s b)
      obtain gw3 more where wr: "wants_retry req ?svc dl ?e (att + 1) k gw2 = (gw3, more)"
        by (cases "wants_retry req ?svc dl ?e (att + 1) k gw2")
      show ?thesis
      proof (cases more)
        case True
        with unfolded \<open>att < _\<close> op Send cl Failed wr again show ?thesis
          by (auto simp: Let_def split: prod.splits)
      next
        case False
        with unfolded \<open>att < _\<close> op Send cl Failed wr stopped show ?thesis
          by (simp add: Let_def)
      qed
    qed (use unfolded True op Send cl answered crashed in \<open>simp_all add: Let_def\<close>)
  qed (use assms [unfolded dispatch_loop.simps [of _ _ _ _ _ att]] True op unsent in \<open>simp_all add: Let_def\<close>)
qed

text \<open>What holds of every request sent, from what holds of each attempt.\<close>

lemma dispatch_loop_sent:
  assumes "dispatch_loop items req route dl env att ls lb gw = (gw', qs, r)" and "0 \<le> att"
    and "\<And>n gw gw' q. open_attempt items req route dl (env n) gw = (gw', Send q) \<Longrightarrow> P n q"
  shows "int (length qs) \<le> max 0 (max_attempts (rq_retry_policy req) - att)"
    and "\<forall>i < length qs. P (nat att + i + 1) (qs ! i)"
proof -
  have "int (length qs) \<le> max 0 (max_attempts (rq_retry_policy req) - att)
      \<and> (\<forall>i < length qs. P (nat att + i + 1) (qs ! i))"
    using assms(1,2)
  proof (induction "nat (max_attempts (rq_retry_policy req) - att)" arbitrary: att ls lb gw qs rule: less_induct)
    case less
    have idx: "nat (att + 1) = nat att + 1" using less.prems(2) by simp
    from less.prems(1) show ?case
    proof (cases rule: dispatch_loop_cases)
      case (again q gw1 gw2 gw3 k s b qs')
      have "nat (max_attempts (rq_retry_policy req) - (att + 1)) < nat (max_attempts (rq_retry_policy req) - att)"
        using again(1) by simp
      from less.hyps [OF this again(5)] less.prems(2)
      have IH: "int (length qs') \<le> max 0 (max_attempts (rq_retry_policy req) - (att + 1))"
        "\<forall>i < length qs'. P (nat (att + 1) + i + 1) (qs' ! i)" by simp_all
      have "P (nat att + i + 1) (qs ! i)" if "i < length qs" for i
        using that again(6) IH(2) assms(3) [OF again(2)] idx by (cases i) simp_all
      moreover have "int (length qs) \<le> max 0 (max_attempts (rq_retry_policy req) - att)"
        using again(1,6) IH(1) by simp
      ultimately show ?thesis by blast
    qed (use assms(3) idx in auto)
  qed
  then show "int (length qs) \<le> max 0 (max_attempts (rq_retry_policy req) - att)"
    and "\<forall>i < length qs. P (nat att + i + 1) (qs ! i)" by blast+
qed

lemma dispatch_loop_unsafe_once:
  assumes "dispatch_loop items req route dl env att ls lb gw = (gw', qs, r)"
    and "py_upper (rq_method req) \<notin> set IDEMPOTENT_METHODS"
    and "\<not> allow_non_idempotent (rq_retry_policy req)"
  shows "length qs \<le> 1"
  using assms(1)
proof (cases rule: dispatch_loop_cases)
  case (again q gw1 gw2 gw3 k s b qs')
  have "\<not> is_retryable (rq_method req) k (rq_retry_policy req) x" for x
    using assms(2,3) by (simp add: is_retryable_def)
  with again(4) show ?thesis by (simp add: wants_retry_def Let_def)
qed simp_all

section \<open>Gates\<close>

text \<open>What one step at a gate makes of a client, and that the gates of a request can be created.\<close>

lemma try_acquire_status:
  assumes "con_inv l s" and "cs_clients s t = Some c" and "c_status c = Acquiring"
    and "try_acquire t w c (cs_manager s) = (m, c1)"
  shows "c_path c1 = c_path c \<and>
    (c1 = advance c \<or> c_status c1 = Waiting \<and> c_held c1 = c_held c \<or> (\<exists>e. c_status c1 = Finished (Some e)))"
proof -
  obtain g where "gate_at (cs_manager s) (c_path c ! c_held c) = Some g"
    using next_gate [OF assms(1,2)] assms(3) by blast
  with assms(4) show ?thesis
    by (auto simp: try_acquire_def Let_def leave_def split: prod.splits attempt.splits)
qed

lemma wake_client_advances:
  assumes "is_woken m c t" and "wake_client t c m = (m', c1)"
  shows "c1 = advance c"
  using assms by (auto simp: is_woken_def wake_client_def Let_def split: option.splits)

lemma timeout_client_leaves:
  assumes "con_inv l s" and "cs_clients s t = Some c" and "c_status c = Waiting"
    and "timeout_client t w c (cs_manager s) = (m, c1)"
  shows "\<exists>e. c_status c1 = Finished (Some e)"
proof -
  obtain g where "gate_at (cs_manager s) (c_path c ! c_held c) = Some g"
    using next_gate [OF assms(1,2)] assms(3) by blast
  with assms(4) show ?thesis by (auto simp: timeout_client_def Let_def leave_def split: prod.splits)
qed

lemma advance_status:
  "c_held c < length (c_path c) \<Longrightarrow> length (c_path c) - c_held c = Suc n \<Longrightarrow>
   length (c_path (advance c)) - c_held (advance c) = n
   \<and> (if n = 0 then c_status (advance c) = Inside else c_status (advance c) = Acquiring)"
  by (auto simp: advance_def)

definition sane_limits :: "ConcurrencyLimits \<Rightarrow> bool" where
  "sane_limits l \<longleftrightarrow> 0 \<le> max_per_tenant l \<and> 0 \<le> max_per_route l \<and> 0 \<le> max_per_backend l"

lemma get_or_create_ok: "0 \<le> n \<Longrightarrow> \<exists>g reg'. get_or_create ms reg key n = (Inr g, reg')"
  by (auto simp: get_or_create_def new_gate_def split: option.splits)

lemma create_gates_ok:
  assumes "sane_limits (m_limits m)"
  obtains m' where "create_gates te ro ba m = (m', Inr ())"
proof -
  let ?l = "m_limits m" and ?ms = "queue_timeout_ms (m_limits m)"
  obtain g1 r1 g2 r2 g3 r3 where
    "get_or_create ?ms (m_tenant m) (''tenant:'' @ te) (max_per_tenant ?l) = (Inr g1, r1)"
    "get_or_create ?ms (m_route m) (''route:'' @ ro) (max_per_route ?l) = (Inr g2, r2)"
    "get_or_create ?ms (m_backend m) (''backend:'' @ ba) (max_per_backend ?l) = (Inr g3, r3)"
    using assms get_or_create_ok unfolding sane_limits_def by metis
  then show ?thesis by (intro that) (simp add: create_gates_def Let_def)
qed

section \<open>Lemmas on single outcomes\<close>

lemma record_failure_exn: "record_failure t t' b = (b', Inl x) \<Longrightarrow> x = ZeroDivisionError"
  by (auto simp: record_failure_def maybe_open_def Let_def split: CircuitState.splits if_splits)

lemma failure_then_exn: "failure_then s env p gw = (gw', Fail_With x) \<Longrightarrow> \<forall>y. p \<noteq> Fail_With y \<Longrightarrow> x = ZeroDivisionError"
  by (auto simp: failure_then_def with_breaker_def dest: record_failure_exn split: prod.splits sum.splits)

lemma select_exn: "select st shuffle sel s l = (sel', Inl x) \<Longrightarrow> x \<noteq> HttpxError y"
  by (auto simp: select_def next_of_cycle_def Let_def split: if_splits option.splits prod.splits)

lemma open_attempt_exn:
  assumes "open_attempt items req route dl env gw = (gw', Fail_With x)"
  shows "x \<noteq> HttpxError y"
proof -
  have br: "e = CircuitOpenError (cb_name (read_state t b))" if "before_request t b = (b', Inl e)" for t b b' e
    using that by (auto simp: before_request_def Let_def split: CircuitState.splits if_splits)
  from assms show ?thesis
    by (auto simp: open_attempt_def with_breaker_def Let_def
        dest!: br select_exn [where y = y] failure_then_exn
        split: prod.splits sum.splits exn.splits if_splits)
qed

text \<open>A half-open breaker with all probes under way answers every request with 503.\<close>

lemma rejected_dispatch:
  assumes "before_request (t_admit (env 1)) (the_breaker gw s) = (b, Inl (CircuitOpenError x))"
    and s: "s = rt_backend_service_id route" and "0 < max_attempts (rq_retry_policy req)"
    and "dispatch items req route start env gw = (gw', qs, r)"
  shows "the_breaker gw' s = b \<and> qs = [] \<and> r = Inr (circuit_open_result (rq_request_id req))"
proof -
  let ?gw = "gw\<lparr>gw_breakers := snd (breaker_for (gw_breakers gw) s)\<rparr>"
  let ?dl = "new_deadline (total_deadline_ms (rq_retry_policy req)) start"
  have "before_request (t_admit (env 1)) (the_breaker ?gw s) = (b, Inl (CircuitOpenError x))"
    using assms(1) by simp
  note op = open_attempt_circuit_open [OF this [unfolded s], of items req ?dl]
  have "dispatch items req route start env gw =
      (put_breaker s b ?gw, [], Inr (circuit_open_result (rq_request_id req)))"
    using assms(3) op [folded s]
    by (simp add: dispatch_def Let_def s [symmetric] dispatch_loop.simps [of _ _ _ _ _ 0])
  with assms(4) have "gw' = put_breaker s b ?gw" "qs = []"
    "r = Inr (circuit_open_result (rq_request_id req))" by simp_all
  then show ?thesis by (simp only: the_breaker_put) simp
qed

lemma wedged_attempt:
  assumes "cb_state (the_breaker gw s) = HALF_OPEN" and "s = rt_backend_service_id route"
    and "half_open_in_flight (the_breaker gw s) \<ge> half_open_max_requests (cb_config (the_breaker gw s))"
    and "0 < max_attempts (rq_retry_policy req)"
    and "dispatch items req route start env gw = (gw', qs, r)"
  shows "the_breaker gw' s = the_breaker gw s \<and> qs = [] \<and> r = Inr (circuit_open_result (rq_request_id req))"
  by (rule rejected_dispatch [OF _ assms(2,4,5)]) (use assms(1,3) in \<open>simp add: before_request_def Let_def\<close>)

lemma open_circuit_dispatch:
  assumes "cb_state (the_breaker gw s) = OPEN" and "cb_opened_at (the_breaker gw s) = Some opened"
    and "t_admit (env 1) < opened + open_duration_seconds (cb_config (the_breaker gw s))"
    and "s = rt_backend_service_id route" and "0 < max_attempts (rq_retry_policy req)"
    and "dispatch items req route start env gw = (gw', qs, r)"
  shows "the_breaker gw' s = the_breaker gw s \<and> qs = [] \<and> r = Inr (circuit_open_result (rq_request_id req))"
  by (rule rejected_dispatch [OF _ assms(4-6)])
    (use assms(1) read_state_still_open [OF assms(2,3)] in \<open>simp add: before_request_def Let_def\<close>)

fun dispatch_all ::
  "(headers \<Rightarrow> headers) \<Rightarrow> (request \<times> RouteDefinition \<times> seconds \<times> (nat \<Rightarrow> 'db attempt_env)) list
    \<Rightarrow> 'db gateway \<Rightarrow> 'db gateway \<times> (outbound_request list \<times> (exn + PipelineResult)) list" where
  "dispatch_all items [] gw = (gw, [])"
| "dispatch_all items ((req, route, start, env) # ds) gw =
     (case dispatch items req route start env gw of
        (gw1, qs, r) \<Rightarrow> (case dispatch_all items ds gw1 of (gw2, rs) \<Rightarrow> (gw2, (qs, r) # rs)))"

lemma wedged_all:
  assumes "cb_state (the_breaker gw s) = HALF_OPEN"
    and "half_open_in_flight (the_breaker gw s) \<ge> half_open_max_requests (cb_config (the_breaker gw s))"
    and "\<forall>(req, route, start, env) \<in> set ds. rt_backend_service_id route = s \<and> 0 < max_attempts (rq_retry_policy req)"
  shows "snd (dispatch_all items ds gw) =
    map (\<lambda>d. ([], Inr (circuit_open_result (rq_request_id (fst d))))) ds"
  using assms
proof (induction ds arbitrary: gw)
  case Nil
  then show ?case by simp
next
  case (Cons d ds)
  obtain req route start env where d: "d = (req, route, start, env)" by (cases d) auto
  obtain gw1 qs r where di: "dispatch items req route start env gw = (gw1, qs, r)"
    by (cases "dispatch items req route start env gw")
  have w: "the_breaker gw1 s = the_breaker gw s" "qs = []" "r = Inr (circuit_open_result (rq_request_id req))"
    using wedged_attempt [OF Cons.prems(1) _ Cons.prems(2) _ di] Cons.prems(3) d by auto
  have "snd (dispatch_all items ds gw1) =
    map (\<lambda>d. ([], Inr (circuit_open_result (rq_request_id (fst d))))) ds"
    using Cons.IH [of gw1] Cons.prems w(1) by simp
  with d di w show ?case by (cases "dispatch_all items ds gw1") simp
qed

text \<open>A probe that ends in an error the pipeline does not handle is never reported to the breaker.\<close>

lemma leaked_probe:
  assumes "dispatch items req route start env gw = (gw', [q], Inl (HttpxError e))"
    and s: "s = rt_backend_service_id route" and "cb_state (the_breaker gw s) = HALF_OPEN"
    and "\<And>g. the_breaker (ae_during_send (env 1) g) s = the_breaker g s"
  shows "the_breaker gw' s = (the_breaker gw s)\<lparr>half_open_in_flight := half_open_in_flight (the_breaker gw s) + 1\<rparr>"
proof -
  let ?gw = "gw\<lparr>gw_breakers := snd (breaker_for (gw_breakers gw) s)\<rparr>"
  let ?dl = "new_deadline (total_deadline_ms (rq_retry_policy req)) start"
  from assms(1) [unfolded dispatch_def Let_def, folded s] show ?thesis
  proof (cases rule: dispatch_loop_cases)
    case (crashed q' gw1 x)
    have gw': "gw' = ae_during_send (env 1) gw1"
      using crashed
      by (auto simp: close_attempt_def failure_close_def with_breaker_def Let_def
          dest: record_failure_exn split: sum.splits exn.splits httpx_error.splits if_splits prod.splits)
    have op: "open_attempt items req route ?dl (env 1) ?gw = (gw1, Send q')" using crashed(2) by simp
    obtain gw2 sel where br: "with_breaker (rt_backend_service_id route) (before_request (t_admit (env 1))) ?gw = (gw2, Inr ())"
      and gw1: "gw1 = gw2\<lparr>gw_selector := sel\<rparr>"
      by (rule open_attempt_send [OF op]) blast
    from with_breaker_fields(5) [OF br [folded s]] assms(3)
    have "the_breaker gw2 s = (the_breaker gw s)\<lparr>half_open_in_flight := half_open_in_flight (the_breaker gw s) + 1\<rparr>"
      by (auto simp: before_request_def Let_def split: if_splits)
    then show ?thesis using gw' gw1 assms(4) by simp
  next
    case (again q' gw1 gw2 gw3 k st b qs')
    from again(5) show ?thesis
      by (cases rule: dispatch_loop_cases)
        (use again(6) in \<open>auto dest: open_attempt_exn [where y = e] split: plan.splits\<close>)
  qed (auto split: plan.splits)
qed

section \<open>Properties\<close>

text \<open>A gateway with one route and three instances, to instantiate the properties with.\<close>

definition ex_route :: RouteDefinition where
  "ex_route =
     \<lparr> rt_id = ''r1'', rt_tenant_id = ''acme'', rt_name = ''users'', rt_path_pattern = ''/api/users/*'',
       rt_http_methods = [''GET'', ''POST''], rt_backend_service_id = ''users'', rt_timeout_ms = 1500,
       rt_priority = ''NORMAL'', rt_enabled = True \<rparr>"

definition ex_request :: request where
  "ex_request =
     \<lparr> rq_request_id = ''q1'', rq_tenant_id = ''acme'', rq_method = ''GET'', rq_path = ''/api/users/7'',
       rq_headers = [], rq_params = [], rq_body = [], rq_client_ip = ''203.0.113.9'',
       rq_rate_limit_policy = token_bucket_policy 100 100, rq_rate_limit_key = ''rl:apikey:k'',
       rq_backends = [(''users'', [0, 1, 2])], rq_retry_policy = default_retry_policy \<rparr>"

definition ex_half_open :: breaker where
  "ex_half_open =
     cb_run [Record_Failure 1 1, Record_Failure 2 2, Before_Request 12] (new_breaker ''users'' small_config)"

definition ex_gateway :: "(string, breaker) dict \<Rightarrow> mem_db gateway" where
  "ex_gateway breakers =
     \<lparr> gw_routes = new_matcher [ex_route], gw_selector = new_selector, gw_redis = [],
       gw_concurrency = ex_manager, gw_breakers = breakers, gw_instances = ex_store,
       gw_max_body_size_bytes = 1000, gw_instance_id = ''sentinel-1'' \<rparr>"

definition ex_attempt :: "(exn + Response) \<Rightarrow> seconds \<Rightarrow> mem_db attempt_env" where
  "ex_attempt answer t =
     \<lparr> ae_shuffle = rev, t_admit = t, t_remaining = t, ae_send = (\<lambda>_. answer),
       ae_during_send = (\<lambda>g. g), t_outcome = t, t_opened = t, t_state = t, ae_draw = 1 / 2,
       t_budget = t, ae_during_sleep = (\<lambda>g. g) \<rparr>"

definition ex_env :: "(exn + Response) \<Rightarrow> mem_db handle_env" where
  "ex_env answer =
     \<lparr> he_items = lower_items, he_task = 0, he_clock = 10, he_fault = Answered,
       he_during_check = (\<lambda>g. g), he_wait = (\<lambda>_. \<lparr> we_during_wait = (\<lambda>g. g), we_expired = False, we_waited = 0 \<rparr>),
       he_start = 20, he_attempt = (\<lambda>n. ex_attempt answer (20 + of_nat n / 2)) \<rparr>"

text \<open>C8.
  The retry loop is bounded. A request is sent at most \<^verbatim>\<open>max_attempts\<close> times, and at most once
  if its method is not idempotent (unless the policy says otherwise); every attempt carries the
  method, the body and the query of the request; it is only started while the total deadline has not
  passed; and the time-out handed to the HTTP client for it is at most the route's and reaches at
  most to the deadline. (The HTTP client applies the time-out to each of its operations, so an
  attempt that keeps receiving data may last longer.)\<close>

theorem dispatch_bounded:
  assumes "dispatch items req route start env gw = (gw', qs, r)"
  shows "int (length qs) \<le> max 0 (max_attempts (rq_retry_policy req))
    \<and> (py_upper (rq_method req) \<notin> set IDEMPOTENT_METHODS \<and> \<not> allow_non_idempotent (rq_retry_policy req)
         \<longrightarrow> length qs \<le> 1)
    \<and> (\<forall>i < length qs. ob_method (qs ! i) = rq_method req \<and> ob_content (qs ! i) = Some (rq_body req)
         \<and> ob_params (qs ! i) = Some (rq_params req)
         \<and> ob_timeout (qs ! i) \<le> of_int (rt_timeout_ms route) / 1000
         \<and> t_remaining (env (Suc i)) < start + of_int (total_deadline_ms (rq_retry_policy req)) / 1000
         \<and> t_remaining (env (Suc i)) + ob_timeout (qs ! i)
             \<le> start + of_int (total_deadline_ms (rq_retry_policy req)) / 1000)"
proof -
  let ?dl = "new_deadline (total_deadline_ms (rq_retry_policy req)) start"
  let ?due = "start + of_int (total_deadline_ms (rq_retry_policy req)) / 1000"
  define P where "P n q \<longleftrightarrow> ob_method q = rq_method req \<and> ob_content q = Some (rq_body req)
      \<and> ob_params q = Some (rq_params req) \<and> ob_timeout q \<le> of_int (rt_timeout_ms route) / 1000
      \<and> t_remaining (env n) < ?due \<and> t_remaining (env n) + ob_timeout q \<le> ?due" for n and q :: outbound_request
  have each: "P n q" if "open_attempt items req route ?dl (env n) gw = (gw', Send q)" for n gw gw' q
    using that
  proof (rule open_attempt_send)
    fix inst gw1 sel
    assume rem: "0 < remaining_seconds ?dl (t_remaining (env n))"
      and q: "q = attempt_request items req route gw' inst (remaining_seconds ?dl (t_remaining (env n)))"
    let ?rem = "remaining_seconds ?dl (t_remaining (env n))"
    let ?timeout = "min ?rem (of_int (rt_timeout_ms route) / 1000)"
    have "t_remaining (env n) + ?rem = ?due"
      using remaining_pos_value [OF rem] by (simp add: new_deadline_def)
    moreover have "?timeout \<le> ?rem" by simp
    ultimately have "t_remaining (env n) < ?due" "t_remaining (env n) + ?timeout \<le> ?due"
      using rem by linarith+
    then show "P n q" unfolding P_def q attempt_request_def forward_request_def by simp
  qed
  note loop = assms [unfolded dispatch_def Let_def]
  note s = dispatch_loop_sent [OF loop _ each]
  note once = dispatch_loop_unsafe_once [OF loop]
  from s(2) have "\<forall>i < length qs. P (Suc i) (qs ! i)" by simp
  with s(1) once show ?thesis by (simp add: P_def)
qed

theorem dispatch_bounded_witness:
  "length (fst (snd (dispatch lower_items ex_request ex_route 20
     (\<lambda>n. ex_attempt (Inl (HttpxError ConnectError)) (20 + of_nat n / 2)) (ex_gateway [])))) = 2
   \<and> int (length (fst (snd (dispatch lower_items ex_request ex_route 20
     (\<lambda>n. ex_attempt (Inl (HttpxError ConnectError)) (20 + of_nat n / 2)) (ex_gateway []))))) \<le> max 0 2"
proof -
  let ?d = "dispatch lower_items ex_request ex_route 20
     (\<lambda>n. ex_attempt (Inl (HttpxError ConnectError)) (20 + of_nat n / 2)) (ex_gateway [])"
  have d: "?d = (fst ?d, fst (snd ?d), snd (snd ?d))" by simp
  have two: "length (fst (snd ?d)) = 2" by code_simp
  have m: "max_attempts (rq_retry_policy ex_request) = 2" by code_simp
  show ?thesis using dispatch_bounded [OF d, THEN conjunct1, unfolded m] two by (intro conjI)
qed

text \<open>C14.
  A request is only ever sent to an instance that is configured for the route's service and is
  healthy at that moment, and only when the service's circuit breaker has admitted it: the circuit
  is closed, or it is half-open, fewer probes than its limit are under way, and the attempt has
  taken one of the slots. The selector being in a state its calls can leave behind, the shuffle a
  permutation and the instances of the service having distinct identifiers.\<close>

theorem attempts_reach_healthy_instances:
  assumes "open_attempt items req route dl env gw = (gw', Send q)"
    and "dict_get (rq_backends req) (rt_backend_service_id route) = Some insts"
    and "conf (rt_backend_service_id route) = insts" and "inj_on ids (set insts)"
    and "selector_inv ids weights conf (gw_selector gw)" and "keeps_identity ids weights (gw_instances gw)"
    and "\<And>xs. mset (ae_shuffle env xs) = mset xs"
    and "b = read_state (t_admit env) (the_breaker gw (rt_backend_service_id route))"
  shows "(\<exists>inst \<in> set insts. bi_status (gw_instances gw inst) = HEALTHY
      \<and> ob_url q = instance_url (gw_instances gw inst) @ py_rstrip (CHR ''*'') (rt_path_pattern route))
    \<and> (cb_state b = CLOSED \<and> the_breaker gw' (rt_backend_service_id route) = b
       \<or> cb_state b = HALF_OPEN \<and> half_open_in_flight b < half_open_max_requests (cb_config b)
         \<and> the_breaker gw' (rt_backend_service_id route) = b\<lparr>half_open_in_flight := half_open_in_flight b + 1\<rparr>)
    \<and> selector_inv ids weights conf (gw_selector gw')"
  using assms(1)
proof (rule open_attempt_send)
  let ?s = "rt_backend_service_id route"
  fix inst gw1 sel
  assume br: "with_breaker ?s (before_request (t_admit env)) gw = (gw1, Inr ())"
    and sel: "select (gw_instances gw1) (ae_shuffle env) (gw_selector gw1) ?s
      (case dict_get (rq_backends req) ?s of None \<Rightarrow> [] | Some l \<Rightarrow> l) = (sel, Inr inst)"
    and gw': "gw' = gw1\<lparr>gw_selector := sel\<rparr>"
    and q: "q = attempt_request items req route gw' inst (remaining_seconds dl (t_remaining env))"
  note fields = with_breaker_fields [OF br]
  have "select (gw_instances gw) (ae_shuffle env) (gw_selector gw) ?s (conf ?s) = (sel, Inr inst)"
    using sel assms(2,3) fields by simp
  with select_healthy [OF assms(5,6,7), of ?s] assms(3,4)
  have "inst \<in> set insts" "bi_status (gw_instances gw inst) = HEALTHY" "selector_inv ids weights conf sel"
    by auto
  moreover have "cb_state b = CLOSED \<and> the_breaker gw1 ?s = b
      \<or> cb_state b = HALF_OPEN \<and> half_open_in_flight b < half_open_max_requests (cb_config b)
        \<and> the_breaker gw1 ?s = b\<lparr>half_open_in_flight := half_open_in_flight b + 1\<rparr>"
    using fields(5) assms(8) by (auto simp: before_request_def Let_def split: CircuitState.splits if_splits)
  ultimately show ?thesis by (auto simp: gw' q attempt_request_def forward_request_def fields)
qed

theorem attempts_reach_healthy_instances_witness:
  "\<exists>q. snd (open_attempt lower_items ex_request ex_route (new_deadline 2000 20)
      (ex_attempt (Inl (HttpxError ConnectError)) 20) (ex_gateway [(''users'', ex_half_open)])) = Send q
    \<and> (\<exists>inst \<in> set [0, 1, 2]. bi_status (ex_store inst) = HEALTHY
        \<and> ob_url q = instance_url (ex_store inst) @ py_rstrip (CHR ''*'') (rt_path_pattern ex_route))"
proof -
  let ?env = "ex_attempt (Inl (HttpxError ConnectError)) 20" and ?gw = "ex_gateway [(''users'', ex_half_open)]"
  let ?o = "open_attempt lower_items ex_request ex_route (new_deadline 2000 20) ?env ?gw"
  have "case snd ?o of Send q \<Rightarrow> True | _ \<Rightarrow> False" by code_simp
  then obtain q where sq: "snd ?o = Send q" by (cases "snd ?o") simp_all
  then have q: "?o = (fst ?o, Send q)" by (simp add: prod_eq_iff)
  have h: "dict_get (rq_backends ex_request) (rt_backend_service_id ex_route) = Some [0, 1, 2]"
    by (simp add: ex_request_def ex_route_def dict_get_def)
  have inj: "inj_on (\<lambda>r. bi_id (ex_store r)) (set [0, 1, 2])"
    by (simp add: inj_on_def ex_store_def ex_instance_def)
  have sh: "\<And>xs. mset (ae_shuffle ?env xs) = mset xs" by (simp add: ex_attempt_def)
  have gw: "gw_selector ?gw = new_selector" "gw_instances ?gw = ex_store" by (simp_all add: ex_gateway_def)
  from attempts_reach_healthy_instances [where conf = "\<lambda>_. [0, 1, 2]", OF q h refl inj] sh
    new_selector_inv keeps_identity_self [of ex_store] gw
  have "\<exists>inst \<in> set [0, 1, 2]. bi_status (ex_store inst) = HEALTHY
        \<and> ob_url q = instance_url (ex_store inst) @ py_rstrip (CHR ''*'') (rt_path_pattern ex_route)"
    by simp
  with sq show ?thesis by blast
qed

text \<open>C23.
  An error of the HTTP client that is neither a connection error nor a time-out (a connection reset
  while reading, say) takes a half-open circuit's probe slot for good: the slot was taken before
  the attempt and no outcome is ever reported. Once such errors have used up the slots, the service
  is answered 503 at every later time, whatever its backends do, and nothing is sent to them.\<close>

theorem unhandled_errors_wedge_the_circuit:
  assumes "dispatch items req route start env gw = (gw1, [q], Inl (HttpxError e))"
    and "s = rt_backend_service_id route" and "b = the_breaker gw s" and "cb_state b = HALF_OPEN"
    and "half_open_in_flight b + 1 = half_open_max_requests (cb_config b)"
    and "\<And>g. the_breaker (ae_during_send (env 1) g) s = the_breaker g s"
    and "\<forall>(req, route, start, env) \<in> set ds. rt_backend_service_id route = s \<and> 0 < max_attempts (rq_retry_policy req)"
  shows "snd (dispatch_all items ds gw1) =
    map (\<lambda>d. ([], Inr (circuit_open_result (rq_request_id (fst d))))) ds"
proof -
  have "the_breaker gw1 s = b\<lparr>half_open_in_flight := half_open_in_flight b + 1\<rparr>"
    using leaked_probe [OF assms(1,2) _ assms(6)] assms(3,4) by simp
  with assms(4,5,7) show ?thesis by (intro wedged_all) simp_all
qed

theorem unhandled_errors_wedge_the_circuit_witness:
  "snd (dispatch_all lower_items
      (replicate 3 (ex_request, ex_route, 1000000, \<lambda>n. ex_attempt (Inr \<lparr> rs_status_code = 200, rs_headers = [], rs_content = [] \<rparr>) 1000000))
      (fst (dispatch lower_items ex_request ex_route 20
        (\<lambda>n. ex_attempt (Inl (HttpxError (OtherHTTPError ''ReadError''))) 20) (ex_gateway [(''users'', ex_half_open)]))))
    = replicate 3 ([], Inr (circuit_open_result ''q1''))"
proof -
  let ?env = "\<lambda>n::nat. ex_attempt (Inl (HttpxError (OtherHTTPError ''ReadError''))) 20"
  let ?gw = "ex_gateway [(''users'', ex_half_open)]"
  let ?d = "dispatch lower_items ex_request ex_route 20 ?env ?gw"
  let ?ds = "replicate 3 (ex_request, ex_route, 1000000 :: rat, \<lambda>n::nat. ex_attempt (Inr \<lparr> rs_status_code = 200, rs_headers = [], rs_content = [] \<rparr>) 1000000)"
  have one: "snd (snd ?d) = Inl (HttpxError (OtherHTTPError ''ReadError''))" "length (fst (snd ?d)) = 1"
    by (code_simp, code_simp)
  have single: "\<exists>x. xs = [x]" if "length xs = 1" for xs :: "outbound_request list"
    using that by (cases xs) simp_all
  obtain q where "fst (snd ?d) = [q]" using single [OF one(2)] by (elim exE)
  then have d: "?d = (fst ?d, [q], Inl (HttpxError (OtherHTTPError ''ReadError'')))"
    using one(1) by (simp add: prod_eq_iff)
  have b: "ex_half_open = the_breaker ?gw ''users''"
    by (simp add: the_breaker_def breaker_for_def ex_gateway_def dict_get_def)
  have svc: "''users'' = rt_backend_service_id ex_route" by (simp add: ex_route_def)
  have h: "cb_state ex_half_open = HALF_OPEN"
    "half_open_in_flight ex_half_open + 1 = half_open_max_requests (cb_config ex_half_open)"
    by (code_simp, code_simp)
  have keep: "\<And>g. the_breaker (ae_during_send (?env 1) g) ''users'' = the_breaker g ''users''"
    by (simp add: ex_attempt_def)
  have later: "\<forall>(req, route, start, env) \<in> set ?ds. rt_backend_service_id route = ''users'' \<and> 0 < max_attempts (rq_retry_policy req)"
    by (simp add: ex_route_def ex_request_def default_retry_policy_def)
  from unhandled_errors_wedge_the_circuit [OF d svc b h keep later] show ?thesis
    by (simp add: ex_request_def)
qed

lemma rq_path_fields:
  "rq_request_id (req\<lparr>rq_path := p\<rparr>) = rq_request_id req"
  "rq_tenant_id (req\<lparr>rq_path := p\<rparr>) = rq_tenant_id req"
  "rq_method (req\<lparr>rq_path := p\<rparr>) = rq_method req"
  "rq_headers (req\<lparr>rq_path := p\<rparr>) = rq_headers req"
  "rq_params (req\<lparr>rq_path := p\<rparr>) = rq_params req"
  "rq_body (req\<lparr>rq_path := p\<rparr>) = rq_body req"
  "rq_client_ip (req\<lparr>rq_path := p\<rparr>) = rq_client_ip req"
  "rq_rate_limit_policy (req\<lparr>rq_path := p\<rparr>) = rq_rate_limit_policy req"
  "rq_rate_limit_key (req\<lparr>rq_path := p\<rparr>) = rq_rate_limit_key req"
  "rq_backends (req\<lparr>rq_path := p\<rparr>) = rq_backends req"
  "rq_retry_policy (req\<lparr>rq_path := p\<rparr>) = rq_retry_policy req"
  by simp_all

lemma open_attempt_path: "open_attempt items (req\<lparr>rq_path := p\<rparr>) = open_attempt items req"
  by (intro ext) (unfold open_attempt_def attempt_request_def rq_path_fields, rule refl)

lemma wants_retry_path: "wants_retry (req\<lparr>rq_path := p\<rparr>) = wants_retry req"
  by (intro ext) (unfold wants_retry_def rq_path_fields, rule refl)

lemma dispatch_loop_path:
  "dispatch_loop items (req\<lparr>rq_path := p\<rparr>) route dl env att ls lb gw = dispatch_loop items req route dl env att ls lb gw"
proof (induction "nat (max_attempts (rq_retry_policy req) - att)" arbitrary: att ls lb gw rule: less_induct)
  case less
  show ?case
  proof (cases "att < max_attempts (rq_retry_policy req)")
    case False
    then show ?thesis by (simp add: dispatch_loop.simps [of _ _ _ _ _ att])
  next
    case True
    then have "nat (max_attempts (rq_retry_policy req) - (att + 1)) < nat (max_attempts (rq_retry_policy req) - att)" by simp
    note IH = less.hyps [OF this]
    show ?thesis
      unfolding dispatch_loop.simps [of _ _ _ _ _ att] open_attempt_path wants_retry_path rq_path_fields Let_def IH ..
  qed
qed

text \<open>
  The path of the request is used for matching only: two requests that match the same route are
  handled identically, down to the URL that is forwarded. What follows a route's wildcard never
  reaches the backend.\<close>

lemma handle_ignores_path:
  assumes "match_route (gw_routes gw) (rq_tenant_id req) (rq_method req) p
    = match_route (gw_routes gw) (rq_tenant_id req) (rq_method req) (rq_path req)"
  shows "handle ops ir (req\<lparr>rq_path := p\<rparr>) env gw = handle ops ir req env gw"
  unfolding handle_def serve_def dispatch_def dispatch_loop_path rq_path_fields
  using assms by simp

lemma handle_ignores_path_example:
  "handle memory_server 0 (ex_request\<lparr>rq_path := ''/api/users/8/orders''\<rparr>)
      (ex_env (Inl (HttpxError ConnectError))) (ex_gateway [])
   = handle memory_server 0 ex_request (ex_env (Inl (HttpxError ConnectError))) (ex_gateway [])"
proof -
  have "match_route (gw_routes (ex_gateway [])) (rq_tenant_id ex_request) (rq_method ex_request) ''/api/users/8/orders''
      = match_route (gw_routes (ex_gateway [])) (rq_tenant_id ex_request) (rq_method ex_request) (rq_path ex_request)"
    by code_simp
  then show ?thesis by (rule handle_ignores_path)
qed

text \<open>C15.
  The stages run in order and each failure has its own answer: too large a body is answered 413 and
  an unmatched route 404, both before anything is counted or changed; a refused rate limit is
  answered 429 before any gate is touched; and a request reaches a backend only if its body fits,
  an enabled route of its tenant matches, the rate limiter admitted it and it holds all four
  gates. (The size is checked before the route, not after it as the module's docstring has it: a
  body that is too large is answered 413 even if no route matches.)\<close>

theorem handle_stages:
  assumes "gw_routes gw = new_matcher routes" and "handle ops ir req env gw = (gw', qs, r)"
    and "check_token_bucket ops ir (gw_redis gw) (he_clock env) (he_fault env)
      (rq_rate_limit_key req) (rq_rate_limit_policy req) = (db, d)"
  shows "(gw_max_body_size_bytes gw < int (length (rq_body req)) \<longrightarrow>
        gw' = gw \<and> qs = [] \<and> r = Inr (too_large_result (rq_request_id req)))
    \<and> (int (length (rq_body req)) \<le> gw_max_body_size_bytes gw
        \<and> (\<forall>route \<in> set routes. \<not> (rt_tenant_id route = rq_tenant_id req \<and> serves (rq_method req) (rq_path req) route)) \<longrightarrow>
        gw' = gw \<and> qs = [] \<and> r = Inr (no_route_result (rq_request_id req)))
    \<and> (int (length (rq_body req)) \<le> gw_max_body_size_bytes gw
        \<and> (\<exists>route \<in> set routes. rt_tenant_id route = rq_tenant_id req \<and> serves (rq_method req) (rq_path req) route)
        \<and> \<not> allowed d \<longrightarrow>
        gw' = he_during_check env (gw\<lparr>gw_redis := db\<rparr>) \<and> qs = [] \<and> r = Inr (rate_limited_result (rq_request_id req) d))
    \<and> (qs \<noteq> [] \<longrightarrow> int (length (rq_body req)) \<le> gw_max_body_size_bytes gw \<and> allowed d
        \<and> (\<exists>route \<in> set routes. rt_tenant_id route = rq_tenant_id req \<and> serves (rq_method req) (rq_path req) route
             \<and> (\<exists>gw1 c. acquire_path (he_task env) (he_wait env) (rq_tenant_id req) (rt_id route)
                   (rt_backend_service_id route) (he_during_check env (gw\<lparr>gw_redis := db\<rparr>)) = (gw1, Inr c))))"
proof -
  let ?ok = "\<lambda>route. rt_tenant_id route = rq_tenant_id req \<and> serves (rq_method req) (rq_path req) route"
  have m: "match_route (gw_routes gw) (rq_tenant_id req) (rq_method req) (rq_path req) =
      (case find ?ok routes of Some route \<Rightarrow> Inr route
       | None \<Rightarrow> Inl (RouteNotFoundError (''no route for '' @ rq_tenant_id req @ '' '' @ rq_method req @ '' '' @ rq_path req)))"
    by (simp add: assms(1) match_route_def candidates_of_tenant match_candidates_find find_filter Let_def)
  show ?thesis
  proof (cases "find ?ok routes")
    case None
    then have "\<forall>route \<in> set routes. \<not> ?ok route" by (simp add: find_None_iff)
    with assms(2) m None show ?thesis by (auto simp: handle_def split: if_splits)
  next
    case (Some route)
    then have route: "route \<in> set routes" "?ok route"
      by (auto simp: find_Some_iff)
    with assms(2,3) m Some show ?thesis
      by (auto simp: handle_def Let_def serve_def split: if_splits prod.splits sum.splits exn.splits)
  qed
qed

theorem handle_stages_witness:
  "snd (snd (handle memory_server 0 (ex_request\<lparr>rq_path := ''/nowhere''\<rparr>)
      (ex_env (Inl (HttpxError ConnectError))) (ex_gateway []))) = Inr (no_route_result ''q1'')"
proof -
  let ?req = "ex_request\<lparr>rq_path := ''/nowhere''\<rparr>"
  let ?env = "ex_env (Inl (HttpxError ConnectError))" and ?gw = "ex_gateway []"
  let ?h = "handle memory_server 0 ?req ?env ?gw"
  have routes: "gw_routes ?gw = new_matcher [ex_route]" by (simp add: ex_gateway_def)
  have h: "?h = (fst ?h, fst (snd ?h), snd (snd ?h))" by simp
  have none: "\<not> (rt_tenant_id ex_route = rq_tenant_id ?req \<and> serves (rq_method ?req) (rq_path ?req) ex_route)"
    "int (length (rq_body ?req)) \<le> gw_max_body_size_bytes ?gw"
    by (code_simp, code_simp)
  have id: "rq_request_id ?req = ''q1''" by (simp add: ex_request_def)
  have "fst ?h = ?gw \<and> fst (snd ?h) = [] \<and> snd (snd ?h) = Inr (no_route_result (rq_request_id ?req))"
    by (rule handle_stages [OF routes h prod.collapse [symmetric], THEN conjunct2, THEN conjunct1, rule_format])
      (use none in simp)
  then show ?thesis unfolding id by (elim conjE)
qed

text \<open>The \<^verbatim>\<open>Retry-After\<close> header of a refused request is rounded down to whole seconds, so it
  promises less than the rate limiter asked for whenever that is not a whole number of seconds.\<close>

theorem retry_after_header_understates:
  assumes "1000 \<le> retry_after_ms d" and "\<not> 1000 dvd retry_after_ms d"
  shows "dict_get (pr_headers (rate_limited_result rid d)) ''Retry-After'' = Some (py_str_int (retry_after_s d))
    \<and> retry_after_s d * 1000 < retry_after_ms d"
proof -
  have "retry_after_s d = retry_after_ms d div 1000" using assms(1) by (simp add: retry_after_s_def)
  moreover have "retry_after_ms d div 1000 * 1000 = retry_after_ms d - retry_after_ms d mod 1000"
    by (simp add: minus_mod_eq_div_mult)
  moreover have "0 < retry_after_ms d mod 1000"
    using assms(2) by (simp add: dvd_eq_mod_eq_0 le_less)
  ultimately show ?thesis
    by (simp add: rate_limited_result_def error_result_def dict_get_def)
qed

theorem retry_after_header_understates_witness:
  "let d = snd (check_token_bucket memory_server 0
         [(''k'', (MHash [(''tokens'', 0), (''last_refill_ms'', 10000)], None))] 10 Answered ''k''
         (token_bucket_policy 1 (2 / 3)))
   in dict_get (pr_headers (rate_limited_result ''q1'' d)) ''Retry-After'' = Some ''1'' \<and> retry_after_ms d = 1500"
proof -
  let ?d = "snd (check_token_bucket memory_server 0
         [(''k'', (MHash [(''tokens'', 0), (''last_refill_ms'', 10000)], None))] 10 Answered ''k''
         (token_bucket_policy 1 (2 / 3)))"
  have r: "retry_after_ms ?d = 1500" by code_simp
  have s: "py_str_int (retry_after_s ?d) = ''1''" unfolding retry_after_s_def r by code_simp
  have "1000 \<le> retry_after_ms ?d" "\<not> 1000 dvd retry_after_ms ?d" unfolding r by simp_all
  from retry_after_header_understates [OF this, of "''q1''"] r s show ?thesis unfolding Let_def by simp
qed

end
