(* ===== verification/Availability.thy ===== *)
theory Availability
  imports Pipeline
begin

text \<open>
  Every request is answered. \<open>pipeline_ok\<close> is what the shared state of the gateway has to
  satisfy, the pipeline keeps it, and as long as the other requests keep it too and the HTTP client
  fails only in the ways the pipeline expects, no exception leaves \<open>handle\<close>: selection, circuit
  breaker, gates and retry loop turn every error into a response.
\<close>

section \<open>What the shared state satisfies\<close>

definition pipeline_ok ::
  "(instance_ref \<Rightarrow> string) \<Rightarrow> (instance_ref \<Rightarrow> int) \<Rightarrow> (string \<Rightarrow> instance_ref list) \<Rightarrow> 'db gateway \<Rightarrow> bool" where
  "pipeline_ok ids weights conf gw \<longleftrightarrow>
     selector_inv ids weights conf (gw_selector gw) \<and> keeps_identity ids weights (gw_instances gw)
   \<and> (\<forall>s. 0 < minimum_requests (cb_config (the_breaker gw s)))
   \<and> sane_limits (m_limits (gw_concurrency gw))"

text \<open>The ways of failing that the pipeline catches: connection errors and time-outs.\<close>

definition handled_answer :: "exn + Response \<Rightarrow> bool" where
  "handled_answer a \<longleftrightarrow>
     (case a of
        Inr _ \<Rightarrow> True
      | Inl (HttpxError e) \<Rightarrow> e = ConnectError \<or> is_timeout_exception e
      | Inl _ \<Rightarrow> False)"

definition attempt_env_ok :: "('db gateway \<Rightarrow> bool) \<Rightarrow> 'db attempt_env \<Rightarrow> bool" where
  "attempt_env_ok P e \<longleftrightarrow>
     (\<forall>gw. P gw \<longrightarrow> P (ae_during_send e gw)) \<and> (\<forall>gw. P gw \<longrightarrow> P (ae_during_sleep e gw))
   \<and> (\<forall>xs. mset (ae_shuffle e xs) = mset xs) \<and> (\<forall>q. handled_answer (ae_send e q))"

definition handle_env_ok :: "('db gateway \<Rightarrow> bool) \<Rightarrow> 'db handle_env \<Rightarrow> bool" where
  "handle_env_ok P env \<longleftrightarrow>
     (\<forall>gw. P gw \<longrightarrow> P (he_during_check env gw))
   \<and> (\<forall>i gw. P gw \<longrightarrow> P (we_during_wait (he_wait env i) gw))
   \<and> (\<forall>i. attempt_env_ok P (he_attempt env i))"

section \<open>The circuit breaker\<close>

lemma breaker_configs [simp]:
  "cb_config (fst (before_request t b)) = cb_config b"
  "cb_config (record_success t b) = cb_config b"
  "cb_config (fst (record_failure t t' b)) = cb_config b"
  using cb_config_apply [of "Before_Request t"] cb_config_apply [of "Record_Success t"]
    cb_config_apply [of "Record_Failure t t'"] by simp_all

lemma pipeline_ok_put_breaker:
  assumes "pipeline_ok ids weights conf gw" and "cb_config b = cb_config (the_breaker gw s)"
  shows "pipeline_ok ids weights conf (put_breaker s b gw)"
  using assms by (simp add: pipeline_ok_def)

lemma with_breaker_ok:
  assumes "with_breaker s f gw = (gw', r)" and "pipeline_ok ids weights conf gw"
    and "\<And>b. cb_config (fst (f b)) = cb_config b"
  shows "pipeline_ok ids weights conf gw'"
proof -
  obtain b where f: "f (the_breaker gw s) = (b, r)" and gw': "gw' = put_breaker s b gw"
    using assms(1) by (auto simp: with_breaker_def split: prod.splits)
  have "cb_config b = cb_config (the_breaker gw s)" using assms(3) [of "the_breaker gw s"] f by simp
  with assms(2) gw' show ?thesis by (simp add: pipeline_ok_put_breaker)
qed

lemma record_failure_returns:
  assumes "0 < minimum_requests (cb_config b)"
  shows "snd (record_failure t t' b) = Inr ()"
  using assms
  by (auto simp: record_failure_def maybe_open_def Let_def append_outcome_def split: CircuitState.splits)

lemma failure_recorded:
  assumes "with_breaker s (record_failure t t') gw = (gw', r)" and "pipeline_ok ids weights conf gw"
  shows "r = Inr () \<and> pipeline_ok ids weights conf gw'"
proof
  have "0 < minimum_requests (cb_config (the_breaker gw s))" using assms(2) by (simp add: pipeline_ok_def)
  from record_failure_returns [OF this] show "r = Inr ()" using with_breaker_fields(5) [OF assms(1)] by (metis snd_conv)
  show "pipeline_ok ids weights conf gw'" by (rule with_breaker_ok [OF assms]) simp
qed

lemma before_request_exn: "before_request t b = (b', Inl e) \<Longrightarrow> \<exists>x. e = CircuitOpenError x"
  by (auto simp: before_request_def Let_def split: CircuitState.splits if_splits)

section \<open>One attempt\<close>

lemma failure_then_ok:
  assumes "failure_then s env p gw = (gw', p')" and "pipeline_ok ids weights conf gw"
  shows "pipeline_ok ids weights conf gw' \<and> p' = p"
proof -
  obtain gw1 r where w: "with_breaker s (record_failure (t_outcome env) (t_opened env)) gw = (gw1, r)"
    by (cases "with_breaker s (record_failure (t_outcome env) (t_opened env)) gw")
  from failure_recorded [OF w assms(2)] assms(1) w show ?thesis by (simp add: failure_then_def)
qed

lemma failure_close_ok:
  assumes "failure_close s env k st b gw = (gw', c)" and "pipeline_ok ids weights conf gw"
  shows "pipeline_ok ids weights conf gw' \<and> c = Failed k st b"
proof -
  obtain gw1 r where w: "with_breaker s (record_failure (t_outcome env) (t_opened env)) gw = (gw1, r)"
    by (cases "with_breaker s (record_failure (t_outcome env) (t_opened env)) gw")
  from failure_recorded [OF w assms(2)] assms(1) w show ?thesis by (simp add: failure_close_def)
qed

lemma open_attempt_ok:
  assumes "open_attempt items req route dl env gw = (gw', p)" and ok: "pipeline_ok ids weights conf gw"
    and s: "s = rt_backend_service_id route"
    and conf: "(case dict_get (rq_backends req) s of None \<Rightarrow> [] | Some l \<Rightarrow> l) = conf s"
    and "inj_on ids (set (conf s))" and "\<And>xs. mset (ae_shuffle env xs) = mset xs"
  shows "pipeline_ok ids weights conf gw' \<and> (\<forall>x. p \<noteq> Fail_With x)"
proof -
  obtain gw1 r where w: "with_breaker s (before_request (t_admit env)) gw = (gw1, r)"
    by (cases "with_breaker s (before_request (t_admit env)) gw")
  have ok1: "pipeline_ok ids weights conf gw1" by (rule with_breaker_ok [OF w ok]) simp
  show ?thesis
  proof (cases r)
    case (Inl e)
    then obtain x where "e = CircuitOpenError x"
      using with_breaker_fields(5) [OF w] before_request_exn by blast
    with assms(1) w Inl s ok1 show ?thesis by (auto simp: open_attempt_def)
  next
    case (Inr u)
    obtain sel r2 where se: "select (gw_instances gw1) (ae_shuffle env) (gw_selector gw1) s (conf s) = (sel, r2)"
      by (cases "select (gw_instances gw1) (ae_shuffle env) (gw_selector gw1) s (conf s)")
    have inv: "selector_inv ids weights conf (gw_selector gw1)" "keeps_identity ids weights (gw_instances gw1)"
      using ok1 by (simp_all add: pipeline_ok_def)
    note sh = select_healthy [OF inv assms(6) assms(5), unfolded se, simplified]
    have ok2: "pipeline_ok ids weights conf (gw1\<lparr>gw_selector := sel\<rparr>)"
      using ok1 sh by (simp add: pipeline_ok_def)
    have op: "open_attempt items req route dl env gw =
      (case r2 of
         Inl (NoHealthyBackendError x) \<Rightarrow>
           failure_then s env (Answer_With (no_backend_result (rq_request_id req))) (gw1\<lparr>gw_selector := sel\<rparr>)
       | Inl e \<Rightarrow> (gw1\<lparr>gw_selector := sel\<rparr>, Fail_With e)
       | Inr inst \<Rightarrow>
           if remaining_seconds dl (t_remaining env) \<le> 0
           then failure_then s env Give_Up (gw1\<lparr>gw_selector := sel\<rparr>)
           else (gw1\<lparr>gw_selector := sel\<rparr>, Send (attempt_request items req route (gw1\<lparr>gw_selector := sel\<rparr>) inst
                  (remaining_seconds dl (t_remaining env)))))"
      unfolding open_attempt_def Let_def s [symmetric] w Inr prod.case sum.case conf se ..
    show ?thesis
    proof (cases r2)
      case (Inl e)
      with sh have "e = NoHealthyBackendError s" by simp
      with op Inl assms(1)
      have "failure_then s env (Answer_With (no_backend_result (rq_request_id req))) (gw1\<lparr>gw_selector := sel\<rparr>) = (gw', p)"
        by simp
      from failure_then_ok [OF this ok2] show ?thesis by simp
    next
      case inst: (Inr inst)
      with op assms(1) ok2 show ?thesis by (auto split: if_splits dest!: failure_then_ok [OF sym, OF _ ok2])
    qed
  qed
qed

lemma close_attempt_ok:
  assumes "close_attempt rid s env ls lb a gw = (gw', c)" and ok: "pipeline_ok ids weights conf gw"
    and "handled_answer a"
  shows "pipeline_ok ids weights conf gw' \<and> (\<forall>x. c \<noteq> Crash x)"
proof (cases a)
  case (Inl e)
  then obtain h where "e = HttpxError h" "h = ConnectError \<or> h = ConnectTimeout \<or> h = OtherTimeout"
    using assms(3) by (auto simp: handled_answer_def is_timeout_exception_def split: exn.splits)
  with Inl assms(1) show ?thesis by (auto simp: close_attempt_def dest!: failure_close_ok [OF _ ok])
next
  case (Inr resp)
  with assms(1) ok show ?thesis
    by (auto simp: close_attempt_def Let_def pipeline_ok_put_breaker split: if_splits dest!: failure_close_ok [OF _ ok])
qed

lemma wants_retry_ok:
  "wants_retry req s dl env att k gw = (gw', w) \<Longrightarrow> pipeline_ok ids weights conf gw \<Longrightarrow> pipeline_ok ids weights conf gw'"
  by (auto simp: wants_retry_def Let_def intro: pipeline_ok_put_breaker)

section \<open>The loop\<close>

lemma dispatch_loop_ok:
  assumes "dispatch_loop items req route dl env att ls lb gw = (gw', qs, r)"
    and "pipeline_ok ids weights conf gw" and s: "s = rt_backend_service_id route"
    and conf: "(case dict_get (rq_backends req) s of None \<Rightarrow> [] | Some l \<Rightarrow> l) = conf s"
    and inj: "inj_on ids (set (conf s))" and envs: "\<And>n. attempt_env_ok (pipeline_ok ids weights conf) (env n)"
  shows "pipeline_ok ids weights conf gw' \<and> (\<exists>res. r = Inr res)"
  using assms(1,2)
proof (induction "nat (max_attempts (rq_retry_policy req) - att)" arbitrary: att ls lb gw qs rule: less_induct)
  case less
  let ?e = "env (nat (att + 1))" and ?ok = "pipeline_ok ids weights conf"
  have e: "\<And>gw. ?ok gw \<Longrightarrow> ?ok (ae_during_send ?e gw)" "\<And>gw. ?ok gw \<Longrightarrow> ?ok (ae_during_sleep ?e gw)"
    "\<And>xs. mset (ae_shuffle ?e xs) = mset xs" "\<And>q. handled_answer (ae_send ?e q)"
    using envs [of "nat (att + 1)"] by (simp_all add: attempt_env_ok_def)
  have opened: "?ok gw1 \<and> (\<forall>x. p \<noteq> Fail_With x)" if "open_attempt items req route dl ?e gw = (gw1, p)" for gw1 p
    by (rule open_attempt_ok [OF that less.prems(2) s conf inj e(3)])
  have closed: "?ok gw2 \<and> (\<forall>x. c \<noteq> Crash x)"
    if "open_attempt items req route dl ?e gw = (gw1, Send q)"
      "close_attempt (rq_request_id req) (rt_backend_service_id route) ?e ls lb (ae_send ?e q) (ae_during_send ?e gw1) = (gw2, c)"
    for gw1 gw2 q c
    by (rule close_attempt_ok [OF that(2) e(1) e(4)]) (use opened [OF that(1)] in blast)
  from less.prems(1) show ?case
  proof (cases rule: dispatch_loop_cases)
    case exhausted
    then show ?thesis using less.prems(2) by simp
  next
    case (unsent p)
    then show ?thesis using opened by (cases p) auto
  next
    case (answered q gw1 res)
    then show ?thesis using closed by blast
  next
    case (crashed q gw1 x)
    then show ?thesis using closed by blast
  next
    case (stopped q gw1 gw2 k st b)
    then show ?thesis using closed wants_retry_ok by blast
  next
    case (again q gw1 gw2 gw3 k st b qs')
    have "?ok (ae_during_sleep ?e gw3)" using closed [OF again(2,3)] wants_retry_ok [OF again(4)] e(2) by blast
    moreover have "nat (max_attempts (rq_retry_policy req) - (att + 1)) < nat (max_attempts (rq_retry_policy req) - att)"
      using again(1) by simp
    ultimately show ?thesis using less.hyps again(5) by blast
  qed
qed

section \<open>The gates\<close>

definition is_rejection :: "exn \<Rightarrow> bool" where
  "is_rejection e \<longleftrightarrow> (\<exists>g w. e = BackpressureRejected g w)"

definition only_rejected :: "client \<Rightarrow> bool" where
  "only_rejected c \<longleftrightarrow> (\<forall>e. c_status c = Finished (Some e) \<longrightarrow> is_rejection e)"

lemma client_steps_rejected:
  "only_rejected c \<Longrightarrow> only_rejected (snd (try_acquire t w c m))"
  "only_rejected c \<Longrightarrow> only_rejected (snd (wake_client t c m))"
  "only_rejected c \<Longrightarrow> only_rejected (snd (timeout_client t w c m))"
  by (auto simp: only_rejected_def try_acquire_def wake_client_def timeout_client_def gate_enter_def
      gate_timeout_def Let_def advance_def leave_def is_rejection_def split: option.splits prod.splits bool.splits if_splits)

lemma client_steps_limits:
  "m_limits (fst (try_acquire t w c m)) = m_limits m"
  "m_limits (fst (wake_client t c m)) = m_limits m"
  "m_limits (fst (timeout_client t w c m)) = m_limits m"
  "m_limits (fst (finish_client c m)) = m_limits m"
  by (auto simp: try_acquire_def wake_client_def timeout_client_def finish_client_def Let_def
      split: option.splits prod.splits attempt.splits)

lemma pipeline_ok_manager:
  "pipeline_ok ids weights conf gw \<Longrightarrow> m_limits m = m_limits (gw_concurrency gw) \<Longrightarrow>
   pipeline_ok ids weights conf (gw\<lparr>gw_concurrency := m\<rparr>)"
  by (simp add: pipeline_ok_def)

lemma acquire_gates_ok:
  assumes "acquire_gates n t env c gw = (gw', c')" and "only_rejected c" and "pipeline_ok ids weights conf gw"
    and "\<And>i gw. pipeline_ok ids weights conf gw \<Longrightarrow> pipeline_ok ids weights conf (we_during_wait (env i) gw)"
  shows "only_rejected c' \<and> pipeline_ok ids weights conf gw'"
  using assms(1-3)
proof (induction n arbitrary: c gw)
  case (Suc n)
  obtain m c1 where tr: "try_acquire t (we_waited (env (c_held c))) c (gw_concurrency gw) = (m, c1)"
    by (cases "try_acquire t (we_waited (env (c_held c))) c (gw_concurrency gw)")
  let ?gw1 = "gw\<lparr>gw_concurrency := m\<rparr>"
  have c1: "only_rejected c1" using client_steps_rejected(1) [OF Suc.prems(2)] tr by (metis snd_conv)
  have gw1: "pipeline_ok ids weights conf ?gw1"
    by (rule pipeline_ok_manager [OF Suc.prems(3)]) (metis client_steps_limits(1) tr fst_conv)
  let ?gw2 = "we_during_wait (env (c_held c)) ?gw1"
  have gw2: "pipeline_ok ids weights conf ?gw2" by (rule assms(4) [OF gw1])
  obtain m2 c2 where wk: "wake_client t c1 (gw_concurrency ?gw2) = (m2, c2)" by (metis surj_pair)
  obtain m3 c3 where ti: "timeout_client t (we_waited (env (c_held c))) c1 (gw_concurrency ?gw2) = (m3, c3)" by (metis surj_pair)
  have c23: "only_rejected c2" "only_rejected c3"
    using client_steps_rejected(2,3) [OF c1] wk ti by (metis snd_conv)+
  have gw3: "pipeline_ok ids weights conf (?gw2\<lparr>gw_concurrency := m2\<rparr>)" "pipeline_ok ids weights conf (?gw2\<lparr>gw_concurrency := m3\<rparr>)"
    by (rule pipeline_ok_manager [OF gw2], metis client_steps_limits(2) wk fst_conv)
      (rule pipeline_ok_manager [OF gw2], metis client_steps_limits(3) ti fst_conv)
  show ?case
    using Suc.prems(1) tr wk ti c1 gw1 c23 gw3 Suc.IH
    by (auto simp: Let_def split: con_status.splits if_splits)
qed simp

lemma acquire_path_ok:
  assumes "acquire_path t env te ro ba gw = (gw', r)" and ok: "pipeline_ok ids weights conf gw"
    and "\<And>i gw. pipeline_ok ids weights conf gw \<Longrightarrow> pipeline_ok ids weights conf (we_during_wait (env i) gw)"
  shows "pipeline_ok ids weights conf gw' \<and> (\<forall>e. r = Inl e \<longrightarrow> is_rejection e)"
proof -
  have sane: "sane_limits (m_limits (gw_concurrency gw))" using ok by (simp add: pipeline_ok_def)
  obtain m where cg: "create_gates te ro ba (gw_concurrency gw) = (m, Inr ())" by (rule create_gates_ok [OF sane])
  have "m_limits m = m_limits (gw_concurrency gw)"
    using cg by (auto simp: create_gates_def Let_def split: prod.splits sum.splits)
  from pipeline_ok_manager [OF ok this] have ok1: "pipeline_ok ids weights conf (gw\<lparr>gw_concurrency := m\<rparr>)" .
  let ?c = "\<lparr> c_path = gate_path te ro ba, c_held = 0, c_status = Acquiring \<rparr>"
  obtain gw1 c where ag: "acquire_gates 4 t env ?c (gw\<lparr>gw_concurrency := m\<rparr>) = (gw1, c)"
    by (cases "acquire_gates 4 t env ?c (gw\<lparr>gw_concurrency := m\<rparr>)")
  have "only_rejected c \<and> pipeline_ok ids weights conf gw1"
    by (rule acquire_gates_ok [OF ag _ ok1 assms(3)]) (simp add: only_rejected_def)
  moreover have "gw' = gw1" "r = (case c_status c of Finished (Some e) \<Rightarrow> Inl e | _ \<Rightarrow> Inr c)"
    using assms(1) cg ag by (simp_all add: acquire_path_def)
  ultimately show ?thesis by (auto simp: only_rejected_def split: con_status.splits option.splits)
qed

section \<open>Everything behind the gates\<close>

lemma serve_ok:
  assumes "serve req route env gw = (gw', qs, r)" and "pipeline_ok ids weights conf gw"
    and env: "handle_env_ok (pipeline_ok ids weights conf) env"
    and "\<And>s. (case dict_get (rq_backends req) s of None \<Rightarrow> [] | Some l \<Rightarrow> l) = conf s"
    and "\<And>s. inj_on ids (set (conf s))"
  shows "(\<exists>res. r = Inr res) \<and> pipeline_ok ids weights conf gw'"
proof -
  let ?ok = "pipeline_ok ids weights conf"
  obtain gw2 a where ap: "acquire_path (he_task env) (he_wait env) (rq_tenant_id req) (rt_id route)
      (rt_backend_service_id route) gw = (gw2, a)" by (metis surj_pair)
  have a: "?ok gw2" "\<And>e. a = Inl e \<Longrightarrow> is_rejection e"
    using acquire_path_ok [OF ap assms(2)] env by (auto simp: handle_env_ok_def)
  show ?thesis
  proof (cases a)
    case (Inl e)
    with a(2) obtain g w where "e = BackpressureRejected g w" by (auto simp: is_rejection_def)
    with assms(1) ap Inl a(1) show ?thesis by (auto simp: serve_def)
  next
    case (Inr c)
    obtain gw3 qs3 r3 where di: "dispatch (he_items env) req route (he_start env) (he_attempt env) gw2 = (gw3, qs3, r3)"
      by (metis surj_pair)
    let ?gw = "gw2\<lparr>gw_breakers := snd (breaker_for (gw_breakers gw2) (rt_backend_service_id route))\<rparr>"
    have "?ok ?gw" using a(1) by (simp add: pipeline_ok_def)
    from dispatch_loop_ok [OF di [unfolded dispatch_def Let_def] this refl assms(4,5)] env
    have "?ok gw3" "\<exists>res. r3 = Inr res" by (simp_all add: handle_env_ok_def)
    moreover have "gw' = release_all c gw3" "r = r3" using assms(1) ap Inr di by (simp_all add: serve_def)
    ultimately show ?thesis by (simp add: release_all_def pipeline_ok_manager client_steps_limits)
  qed
qed

section \<open>Properties\<close>

text \<open>
  Every request is answered. Let the shared state be sound, let the other requests keep it so, and
  let the backend answer with any status or fail with a connection error or a time-out: then
  \<open>handle\<close> returns a response on every path, whatever the limits, the circuit breakers, the
  rate limiter, Redis and the health of the instances are, and the shared state is sound
  afterwards.\<close>

lemma handle_always_answers:
  assumes "pipeline_ok ids weights conf gw" and "handle_env_ok (pipeline_ok ids weights conf) env"
    and "\<And>s. (case dict_get (rq_backends req) s of None \<Rightarrow> [] | Some l \<Rightarrow> l) = conf s"
    and "\<And>s. inj_on ids (set (conf s))" and "handle ops ir req env gw = (gw', qs, r)"
  shows "(\<exists>res. r = Inr res) \<and> pipeline_ok ids weights conf gw'"
proof -
  let ?ok = "pipeline_ok ids weights conf"
  note served = serve_ok [OF _ _ assms(2-4)]
  obtain db d where ch: "check_token_bucket ops ir (gw_redis gw) (he_clock env) (he_fault env)
      (rq_rate_limit_key req) (rq_rate_limit_policy req) = (db, d)" by (metis surj_pair)
  have "?ok (gw\<lparr>gw_redis := db\<rparr>)" using assms(1) by (simp add: pipeline_ok_def the_breaker_def)
  then have checked: "?ok (he_during_check env (gw\<lparr>gw_redis := db\<rparr>))" using assms(2) by (simp add: handle_env_ok_def)
  obtain m where m: "match_route (gw_routes gw) (rq_tenant_id req) (rq_method req) (rq_path req) = m" by blast
  show ?thesis
  proof (cases m)
    case (Inl e)
    then obtain x where "e = RouteNotFoundError x" using m by (auto simp: match_route_def Let_def split: option.splits)
    with assms(1,5) m Inl show ?thesis by (auto simp: handle_def split: if_splits)
  next
    case (Inr route)
    with assms(1,5) m ch checked served show ?thesis by (auto simp: handle_def Let_def split: if_splits)
  qed
qed

lemma handle_always_answers_example:
  "\<exists>res. snd (snd (handle memory_server 0 ex_request (ex_env (Inl (HttpxError ConnectError))) (ex_gateway []))) = Inr res"
proof -
  let ?ids = "\<lambda>r. bi_id (ex_store r)" and ?weights = "\<lambda>r. bi_weight (ex_store r)"
  let ?conf = "\<lambda>s. if s = ''users'' then [0, 1, 2] else ([] :: instance_ref list)"
  let ?env = "ex_env (Inl (HttpxError ConnectError))" and ?gw = "ex_gateway []"
  have ok: "pipeline_ok ?ids ?weights ?conf ?gw"
    using new_selector_inv keeps_identity_self [of ex_store]
    by (simp add: pipeline_ok_def ex_gateway_def the_breaker_def breaker_for_def Let_def new_breaker_def
        default_breaker_config_def sane_limits_def ex_manager_def ex_limits_def default_limits_def)
  have env: "handle_env_ok (pipeline_ok ?ids ?weights ?conf) ?env"
    by (simp add: handle_env_ok_def attempt_env_ok_def ex_env_def ex_attempt_def handled_answer_def)
  have conf: "(case dict_get (rq_backends ex_request) s of None \<Rightarrow> [] | Some l \<Rightarrow> l) = ?conf s" for s
    by (simp add: ex_request_def dict_get_def)
  have inj: "inj_on ?ids (set (?conf s))" for s by (simp add: inj_on_def ex_store_def ex_instance_def)
  obtain gw' qs r where h: "handle memory_server 0 ex_request ?env ?gw = (gw', qs, r)" by (metis surj_pair)
  from handle_always_answers [OF ok env conf inj h] h show ?thesis by simp
qed

end
