(* ===== verification/Health_Checker.thy ===== *)
theory Health_Checker
  imports Router
begin

text \<open>
  The background health checker, \<^verbatim>\<open>src/apps/gateway/health/checker.py\<close>. The instances are the
  objects the router selects from, so the checker works on the same store of references. A probe is
  a network call: its result is part of the environment, and so is what the rest of the process
  does to the instances while the checker waits for it (\<open>meanwhile\<close>). One round of
  \<^verbatim>\<open>check_once\<close> is a function of the environment; \<^verbatim>\<open>run_forever\<close> is any
  number of rounds.

  The lemmas show that the two counters of an instance are the lengths of its current runs of
  successes and failures, that its status is what the last run to reach a threshold says, and that
  a draining instance is left alone, unless it starts draining while a probe is under way.
\<close>

section \<open>Data\<close>

record HealthChecker =
  hc_backends_by_service :: "(string, instance_ref list) dict"
  hc_interval_s :: seconds
  hc_timeout_s :: seconds
  hc_failure_threshold :: int
  hc_success_threshold :: int
  hc_health_path :: string
  hc_consecutive_successes :: "(string, int) dict"
  hc_consecutive_failures :: "(string, int) dict"

definition new_health_checker ::
  "(string, instance_ref list) dict \<Rightarrow> seconds \<Rightarrow> seconds \<Rightarrow> int \<Rightarrow> int \<Rightarrow> string \<Rightarrow> HealthChecker" where
  "new_health_checker backends interval timeout ft sth path =
     \<lparr> hc_backends_by_service = backends, hc_interval_s = interval, hc_timeout_s = timeout,
       hc_failure_threshold = ft, hc_success_threshold = sth, hc_health_path = path,
       hc_consecutive_successes = [], hc_consecutive_failures = [] \<rparr>"

text \<open>What a probe can end with: a response, an error of the HTTP library, any other exception.\<close>

datatype probe = Answer int | HttpError | OtherFailure string

record probe_env =
  result :: probe
  meanwhile :: "instance_store \<Rightarrow> instance_store"

section \<open>Operations\<close>

definition count_of :: "(string, int) dict \<Rightarrow> string \<Rightarrow> int" where
  "count_of d k = (case dict_get d k of None \<Rightarrow> 0 | Some n \<Rightarrow> n)"

definition set_status :: "instance_store \<Rightarrow> instance_ref \<Rightarrow> InstanceStatus \<Rightarrow> instance_store" where
  "set_status st r s = st(r := (st r)\<lparr>bi_status := s\<rparr>)"

definition note_healthy :: "HealthChecker \<Rightarrow> instance_store \<Rightarrow> instance_ref \<Rightarrow> HealthChecker \<times> instance_store" where
  "note_healthy hc st r =
     (let i = bi_id (st r);
          hc = hc\<lparr>hc_consecutive_successes :=
                    dict_set (hc_consecutive_successes hc) i (count_of (hc_consecutive_successes hc) i + 1)\<rparr>;
          hc = hc\<lparr>hc_consecutive_failures := dict_set (hc_consecutive_failures hc) i 0\<rparr>
      in (hc, if count_of (hc_consecutive_successes hc) i \<ge> hc_success_threshold hc
              then set_status st r HEALTHY else st))"

definition note_unhealthy :: "HealthChecker \<Rightarrow> instance_store \<Rightarrow> instance_ref \<Rightarrow> HealthChecker \<times> instance_store" where
  "note_unhealthy hc st r =
     (let i = bi_id (st r);
          hc = hc\<lparr>hc_consecutive_failures :=
                    dict_set (hc_consecutive_failures hc) i (count_of (hc_consecutive_failures hc) i + 1)\<rparr>;
          hc = hc\<lparr>hc_consecutive_successes := dict_set (hc_consecutive_successes hc) i 0\<rparr>;
          st = st(r := (st r)\<lparr>bi_failure_count := bi_failure_count (st r) + 1\<rparr>)
      in (hc, if count_of (hc_consecutive_failures hc) i \<ge> hc_failure_threshold hc
              then set_status st r UNHEALTHY else st))"

definition note_result :: "bool \<Rightarrow> HealthChecker \<Rightarrow> instance_store \<Rightarrow> instance_ref \<Rightarrow> HealthChecker \<times> instance_store" where
  "note_result healthy hc st r = (if healthy then note_healthy hc st r else note_unhealthy hc st r)"

definition check_instance ::
  "probe_env \<Rightarrow> HealthChecker \<Rightarrow> instance_store \<Rightarrow> instance_ref \<Rightarrow> (HealthChecker \<times> instance_store, unit) outcome" where
  "check_instance env hc st r =
     (let st = meanwhile env st in
      case result env of
        Answer status_code \<Rightarrow> (note_result (status_code < 500) hc st r, Inr ())
      | HttpError \<Rightarrow> (note_result False hc st r, Inr ())
      | OtherFailure msg \<Rightarrow> ((hc, st), Inl (OtherException msg)))"

text \<open>The two nested loops, over all instances of all services in order.\<close>

fun check_refs ::
  "(nat \<Rightarrow> probe_env) \<Rightarrow> nat \<Rightarrow> instance_ref list \<Rightarrow> HealthChecker \<times> instance_store
    \<Rightarrow> (HealthChecker \<times> instance_store, unit) outcome" where
  "check_refs env i [] (hc, st) = ((hc, st), Inr ())"
| "check_refs env i (r # rs) (hc, st) =
     (if bi_status (st r) = DRAINING then check_refs env i rs (hc, st)
      else case check_instance (env i) hc st r of
             (s, Inl e) \<Rightarrow> (s, Inl e)
           | (s, Inr _) \<Rightarrow> check_refs env (Suc i) rs s)"

definition check_once ::
  "(nat \<Rightarrow> probe_env) \<Rightarrow> HealthChecker \<times> instance_store \<Rightarrow> (HealthChecker \<times> instance_store, unit) outcome" where
  "check_once env s = check_refs env 0 (concat (dict_values (hc_backends_by_service (fst s)))) s"

text \<open>
  Rounds of the endless loop: an exception ends the round and not the loop. Between two rounds the
  loop sleeps and the rest of the process runs.
\<close>

fun run_rounds ::
  "((nat \<Rightarrow> probe_env) \<times> (instance_store \<Rightarrow> instance_store)) list
    \<Rightarrow> HealthChecker \<times> instance_store \<Rightarrow> HealthChecker \<times> instance_store" where
  "run_rounds [] s = s"
| "run_rounds ((env, asleep) # rest) s =
     (let (hc, st) = fst (check_once env s) in run_rounds rest (hc, asleep st))"

text \<open>A history of probe results, of any instances in any order.\<close>

fun note_all :: "(instance_ref \<times> bool) list \<Rightarrow> HealthChecker \<times> instance_store \<Rightarrow> HealthChecker \<times> instance_store" where
  "note_all [] s = s"
| "note_all ((r, ok) # h) s = note_all h (note_result ok (fst s) (snd s) r)"

section \<open>Specification\<close>

text \<open>The length of the run of \<open>b\<close>s that a list of results, latest first, starts with.\<close>

fun run_length :: "bool \<Rightarrow> bool list \<Rightarrow> nat" where
  "run_length b [] = 0"
| "run_length b (x # xs) = (if x = b then Suc (run_length b xs) else 0)"

text \<open>The status after the results \<open>xs\<close>, latest first.\<close>

fun verdict :: "int \<Rightarrow> int \<Rightarrow> InstanceStatus \<Rightarrow> bool list \<Rightarrow> InstanceStatus" where
  "verdict ft sth s [] = s"
| "verdict ft sth s (x # xs) =
     (if x \<and> int (run_length True (x # xs)) \<ge> sth then HEALTHY
      else if \<not> x \<and> int (run_length False (x # xs)) \<ge> ft then UNHEALTHY
      else verdict ft sth s xs)"

definition results_of :: "instance_ref \<Rightarrow> (instance_ref \<times> bool) list \<Rightarrow> bool list" where
  "results_of r h = map snd (filter (\<lambda>x. fst x = r) h)"

text \<open>
  The results a round produces when nothing but the checker touches the instances: one per instance
  in order, up to the first exception the checker does not expect.
\<close>

fun round_log :: "(nat \<Rightarrow> probe_env) \<Rightarrow> nat \<Rightarrow> instance_ref list \<Rightarrow> (instance_ref \<times> bool) list" where
  "round_log env i [] = []"
| "round_log env i (r # rs) =
     (case result (env i) of
        Answer code \<Rightarrow> (r, code < 500) # round_log env (Suc i) rs
      | HttpError \<Rightarrow> (r, False) # round_log env (Suc i) rs
      | OtherFailure _ \<Rightarrow> [])"

definition undisturbed :: "(nat \<Rightarrow> probe_env) \<times> (instance_store \<Rightarrow> instance_store) \<Rightarrow> bool" where
  "undisturbed x \<longleftrightarrow> (\<forall>i. meanwhile (fst x i) = id) \<and> snd x = id"

lemmas [health_defs] = note_healthy_def note_unhealthy_def note_result_def set_status_def

section \<open>Lemmas\<close>

lemma count_of_set [simp]: "count_of (dict_set d k v) k' = (if k' = k then v else count_of d k')"
  by (simp add: count_of_def)

lemma note_result_config:
  "hc_failure_threshold (fst (note_result ok hc st r)) = hc_failure_threshold hc"
  "hc_success_threshold (fst (note_result ok hc st r)) = hc_success_threshold hc"
  "hc_backends_by_service (fst (note_result ok hc st r)) = hc_backends_by_service hc"
  by (simp_all add: note_result_def note_healthy_def note_unhealthy_def Let_def)

lemma note_result_counts:
  "count_of (hc_consecutive_successes (fst (note_result ok hc st r))) i =
     (if i = bi_id (st r) then (if ok then count_of (hc_consecutive_successes hc) i + 1 else 0)
      else count_of (hc_consecutive_successes hc) i)"
  "count_of (hc_consecutive_failures (fst (note_result ok hc st r))) i =
     (if i = bi_id (st r) then (if ok then 0 else count_of (hc_consecutive_failures hc) i + 1)
      else count_of (hc_consecutive_failures hc) i)"
  by (simp_all add: note_result_def note_healthy_def note_unhealthy_def Let_def)

lemma note_result_other: "r' \<noteq> r \<Longrightarrow> snd (note_result ok hc st r) r' = st r'"
  by (simp add: note_result_def note_healthy_def note_unhealthy_def set_status_def Let_def)

lemma note_result_same:
  "bi_id (snd (note_result ok hc st r) r) = bi_id (st r)"
  "bi_weight (snd (note_result ok hc st r) r) = bi_weight (st r)"
  "bi_failure_count (snd (note_result ok hc st r) r) = bi_failure_count (st r) + (if ok then 0 else 1)"
  "bi_status (snd (note_result ok hc st r) r) =
     (if ok \<and> count_of (hc_consecutive_successes hc) (bi_id (st r)) + 1 \<ge> hc_success_threshold hc then HEALTHY
      else if \<not> ok \<and> count_of (hc_consecutive_failures hc) (bi_id (st r)) + 1 \<ge> hc_failure_threshold hc then UNHEALTHY
      else bi_status (st r))"
  by (simp_all add: note_result_def note_healthy_def note_unhealthy_def set_status_def Let_def)

lemma note_result_keeps_identity:
  "keeps_identity ids weights st \<Longrightarrow> keeps_identity ids weights (snd (note_result ok hc st r))"
  unfolding keeps_identity_def by (metis note_result_other note_result_same(1,2))

lemma results_of_Nil [simp]: "results_of r [] = []"
  by (simp add: results_of_def)

lemma results_of_append [simp]: "results_of r (h @ h') = results_of r h @ results_of r h'"
  by (simp add: results_of_def)

lemma note_all_append: "note_all (h @ h') s = note_all h' (note_all h s)"
  by (induction h s rule: note_all.induct) auto

lemma results_of_single [simp]: "results_of r [(r', ok)] = (if r' = r then [ok] else [])"
  by (simp add: results_of_def)

text \<open>Everything the checker knows about an instance, from the results of its probes so far.\<close>

definition health_inv ::
  "HealthChecker \<Rightarrow> instance_store \<Rightarrow> bool list \<Rightarrow> HealthChecker \<Rightarrow> instance_store \<Rightarrow> instance_ref \<Rightarrow> bool" where
  "health_inv hc st xs hc' st' r \<longleftrightarrow>
     hc_failure_threshold hc' = hc_failure_threshold hc
   \<and> hc_success_threshold hc' = hc_success_threshold hc
   \<and> bi_id (st' r) = bi_id (st r)
   \<and> count_of (hc_consecutive_successes hc') (bi_id (st r)) = int (run_length True xs)
   \<and> count_of (hc_consecutive_failures hc') (bi_id (st r)) = int (run_length False xs)
   \<and> bi_failure_count (st' r) = bi_failure_count (st r) + int (length (filter Not xs))
   \<and> bi_status (st' r) = verdict (hc_failure_threshold hc) (hc_success_threshold hc) (bi_status (st r)) xs"

lemma health_inv_same:
  assumes "health_inv hc st xs hc' st' r"
  shows "health_inv hc st (ok # xs) (fst (note_result ok hc' st' r)) (snd (note_result ok hc' st' r)) r"
  using assms
  by (simp add: health_inv_def note_result_config note_result_counts note_result_same)

lemma health_inv_other:
  assumes "health_inv hc st xs hc' st' r" and "r \<noteq> r'" and "bi_id (st' r') \<noteq> bi_id (st r)"
  shows "health_inv hc st xs (fst (note_result ok hc' st' r')) (snd (note_result ok hc' st' r')) r"
  using assms
  by (simp add: health_inv_def note_result_config note_result_counts note_result_other)

lemma note_all_inv:
  assumes "hc_consecutive_successes hc = []" and "hc_consecutive_failures hc = []"
    and "inj_on (\<lambda>r. bi_id (st r)) R" and "fst ` set h \<subseteq> R" and "r \<in> R"
  shows "health_inv hc st (rev (results_of r h)) (fst (note_all h (hc, st))) (snd (note_all h (hc, st))) r"
  using assms(4,5)
proof (induction h arbitrary: r rule: rev_induct)
  case Nil
  then show ?case using assms(1,2) by (simp add: health_inv_def count_of_def)
next
  case (snoc x h)
  obtain r0 ok where x: "x = (r0, ok)" by (cases x)
  have r0: "r0 \<in> R" using snoc.prems(1) x by simp
  let ?hc = "fst (note_all h (hc, st))" and ?st = "snd (note_all h (hc, st))"
  have IH: "health_inv hc st (rev (results_of q h)) ?hc ?st q" if "q \<in> R" for q
    using snoc.IH snoc.prems that by simp
  have new: "note_all (h @ [x]) (hc, st) = note_result ok ?hc ?st r0"
    by (simp add: note_all_append x)
  show ?case
  proof (cases "r = r0")
    case True
    then show ?thesis using health_inv_same [OF IH [OF r0], of ok] by (simp only: new) (simp add: x)
  next
    case False
    have "bi_id (?st r0) = bi_id (st r0)" using IH [OF r0] by (simp add: health_inv_def)
    with False r0 snoc.prems(2) assms(3) have "bi_id (?st r0) \<noteq> bi_id (st r)" by (auto dest: inj_onD)
    from health_inv_other [OF IH [OF snoc.prems(2)] False this] False show ?thesis
      by (simp only: new) (simp add: x)
  qed
qed

lemma note_result_not_draining:
  "bi_status (st r') \<noteq> DRAINING \<Longrightarrow> bi_status (snd (note_result ok hc st r) r') \<noteq> DRAINING"
  by (cases "r' = r") (simp_all add: note_result_same note_result_other)

lemma note_all_not_draining:
  "bi_status (snd s r) \<noteq> DRAINING \<Longrightarrow> bi_status (snd (note_all h s) r) \<noteq> DRAINING"
  by (induction h s rule: note_all.induct) (auto simp: note_result_not_draining)

lemma note_all_config: "hc_backends_by_service (fst (note_all h s)) = hc_backends_by_service (fst s)"
  by (induction h s rule: note_all.induct) (auto simp: note_result_config)

lemma check_refs_log:
  assumes "\<And>i. meanwhile (env i) = id" and "\<forall>r \<in> set rs. bi_status (st r) \<noteq> DRAINING"
  shows "fst (check_refs env i rs (hc, st)) = note_all (round_log env i rs) (hc, st)"
  using assms(2)
proof (induction rs arbitrary: i hc st)
  case (Cons r rs)
  have go_on: "fst (check_refs env (Suc i) rs (note_result ok hc st r)) =
      note_all (round_log env (Suc i) rs) (note_result ok hc st r)" for ok
    using Cons.IH [of "snd (note_result ok hc st r)" "Suc i" "fst (note_result ok hc st r)"] Cons.prems
    by (simp add: note_result_not_draining)
  show ?case
    using Cons.prems go_on by (cases "result (env i)") (simp_all add: check_instance_def assms(1))
qed simp

lemma run_rounds_log:
  assumes "\<forall>x \<in> set rounds. undisturbed x" and "R = concat (dict_values (hc_backends_by_service (fst s)))"
    and "\<forall>r \<in> set R. bi_status (snd s r) \<noteq> DRAINING"
  shows "run_rounds rounds s = note_all (concat (map (\<lambda>x. round_log (fst x) 0 R) rounds)) s"
  using assms
proof (induction rounds arbitrary: s)
  case (Cons x rounds)
  obtain env asleep where x: "x = (env, asleep)" by (cases x)
  have quiet: "\<And>i. meanwhile (env i) = id" "asleep = id" using Cons.prems(1) x by (simp_all add: undisturbed_def)
  let ?s = "note_all (round_log env 0 R) s"
  have "fst (check_once env s) = ?s"
    using check_refs_log [where env = env and rs = R and st = "snd s" and i = 0 and hc = "fst s", OF quiet(1)] Cons.prems(2,3) by (simp add: check_once_def)
  then have "run_rounds (x # rounds) s = run_rounds rounds ?s"
    using quiet(2) x by (simp add: Let_def case_prod_unfold)
  moreover have "run_rounds rounds ?s = note_all (concat (map (\<lambda>x. round_log (fst x) 0 R) rounds)) ?s"
    using Cons.prems by (intro Cons.IH) (auto simp: note_all_config note_all_not_draining)
  ultimately show ?case using x by (simp add: note_all_append)
qed simp

lemma round_log_refs: "fst ` set (round_log env i rs) \<subseteq> set rs"
  by (induction env i rs rule: round_log.induct) (auto split: probe.splits)

lemma rounds_verdict:
  assumes "hc = new_health_checker backends interval timeout ft sth path"
    and "R = concat (dict_values backends)" and "inj_on (\<lambda>r. bi_id (st r)) (set R)" and "r \<in> set R"
    and "\<forall>r \<in> set R. bi_status (st r) \<noteq> DRAINING" and "\<forall>x \<in> set rounds. undisturbed x"
    and "run_rounds rounds (hc, st) = (hc', st')"
    and "h = concat (map (\<lambda>x. round_log (fst x) 0 R) rounds)"
  shows "bi_status (st' r) = verdict ft sth (bi_status (st r)) (rev (results_of r h))
    \<and> bi_failure_count (st' r) = bi_failure_count (st r) + int (length (filter Not (results_of r h)))"
proof -
  have "note_all h (hc, st) = (hc', st')"
    using run_rounds_log [OF assms(6), of R "(hc, st)"] assms(1,2,5,7,8) by (simp add: new_health_checker_def)
  moreover have "fst ` set h \<subseteq> set R" using round_log_refs assms(8) by fastforce
  ultimately have "health_inv hc st (rev (results_of r h)) hc' st' r"
    using note_all_inv [OF _ _ assms(3), of hc h r] assms(1,4) by (auto simp: new_health_checker_def)
  then show ?thesis using assms(1) by (simp add: health_inv_def new_health_checker_def rev_filter [symmetric])
qed

text \<open>Rounds in which every probe is answered below 500 give every instance one success each.\<close>

lemma round_log_all_up:
  "\<forall>i. \<exists>c. result (env i) = Answer c \<and> c < 500 \<Longrightarrow> round_log env i rs = map (\<lambda>r. (r, True)) rs"
proof (induction rs arbitrary: i)
  case (Cons r rs)
  then obtain c where "result (env i) = Answer c" "c < 500" by blast
  with Cons show ?case by simp
qed simp

lemma results_of_map: "distinct rs \<Longrightarrow> results_of r (map (\<lambda>r. (r, True)) rs) = (if r \<in> set rs then [True] else [])"
  by (induction rs) (auto simp: results_of_def)

lemma results_of_concat: "results_of r (concat hs) = concat (map (results_of r) hs)"
  by (induction hs) simp_all

lemma run_length_replicate: "run_length True (replicate n True) = n"
  by (induction n) simp_all

lemma verdict_replicate:
  assumes "1 \<le> sth" and "s \<noteq> HEALTHY"
  shows "verdict ft sth s (replicate n True) = HEALTHY \<longleftrightarrow> sth \<le> int n"
proof (induction n)
  case (Suc n)
  then show ?case by (auto simp: run_length_replicate)
qed (use assms in simp)

text \<open>Without unexpected exceptions every instance gets the result of its own probe.\<close>

definition expected_probe :: "probe \<Rightarrow> bool" where
  "expected_probe p \<longleftrightarrow> (\<forall>m. p \<noteq> OtherFailure m)"

definition probe_up :: "probe \<Rightarrow> bool" where
  "probe_up p \<longleftrightarrow> (case p of Answer c \<Rightarrow> c < 500 | _ \<Rightarrow> False)"

lemma round_log_expected:
  "\<forall>i. expected_probe (result (env i)) \<Longrightarrow>
   round_log env i rs = map (\<lambda>j. (rs ! j, probe_up (result (env (i + j))))) [0..<length rs]"
proof (induction rs arbitrary: i)
  case (Cons r rs)
  have shift: "[0..<Suc (length rs)] = 0 # map Suc [0..<length rs]" by (simp add: map_Suc_upt upt_conv_Cons del: upt_Suc)
  have "round_log env i (r # rs) = (r, probe_up (result (env i))) # round_log env (Suc i) rs"
    using Cons.prems by (cases "result (env i)") (auto simp: expected_probe_def probe_up_def)
  with Cons show ?case by (simp add: shift comp_def del: upt_Suc)
qed simp

lemma filter_upt_single: "k < n \<Longrightarrow> filter (\<lambda>j. j = k) [0..<n] = [k]"
  by (induction n) (auto simp: less_Suc_eq filter_empty_conv)

lemma results_of_round:
  assumes "\<forall>i. expected_probe (result (env i))" and "distinct rs" and "k < length rs"
  shows "results_of (rs ! k) (round_log env 0 rs) = [probe_up (result (env k))]"
proof -
  have "filter (\<lambda>j. rs ! j = rs ! k) [0..<length rs] = filter (\<lambda>j. j = k) [0..<length rs]"
    using assms(2,3) by (intro filter_cong) (auto simp: nth_eq_iff_index_eq)
  also have "\<dots> = [k]" by (rule filter_upt_single [OF assms(3)])
  finally show ?thesis
    unfolding results_of_def round_log_expected [OF assms(1)] by (simp add: filter_map comp_def)
qed

lemma run_length_ge: "m \<le> length xs \<Longrightarrow> \<forall>i < m. xs ! i = b \<Longrightarrow> m \<le> run_length b xs"
proof (induction xs arbitrary: m)
  case (Cons x xs)
  show ?case
  proof (cases m)
    case (Suc n)
    have "x = b" using Cons.prems(2) Suc by force
    moreover have "\<forall>i < n. xs ! i = b" using Cons.prems(2) Suc by force
    ultimately show ?thesis using Cons Suc by simp
  qed simp
qed simp

text \<open>A recent run that is long enough decides.\<close>

lemma verdict_recent:
  assumes "0 < m" and "m \<le> length xs" and "\<forall>i < m. xs ! i = b" and "(if b then sth else ft) \<le> int m"
  shows "verdict ft sth s xs = (if b then HEALTHY else UNHEALTHY)"
proof (cases xs)
  case (Cons x ys)
  then have "x = b" using assms(1,3) by force
  moreover have "m \<le> run_length b xs" by (rule run_length_ge [OF assms(2,3)])
  ultimately show ?thesis using assms(4) Cons by (cases b) auto
qed (use assms in simp)

definition leaves_alone :: "instance_ref \<Rightarrow> (instance_store \<Rightarrow> instance_store) \<Rightarrow> bool" where
  "leaves_alone r f \<longleftrightarrow> (\<forall>st. f st r = st r)"

lemma check_instance_other:
  assumes "leaves_alone r' (meanwhile env)" and "r' \<noteq> r"
  shows "snd (fst (check_instance env hc st r)) r' = st r'"
  using assms by (cases "result env") (simp_all add: check_instance_def Let_def note_result_other leaves_alone_def)

lemma check_refs_draining:
  assumes "\<And>i. leaves_alone r (meanwhile (env i))" and "bi_status (st r) = DRAINING"
  shows "snd (fst (check_refs env i rs (hc, st))) r = st r"
  using assms(2)
proof (induction rs arbitrary: i hc st)
  case Nil
  then show ?case by simp
next
  case (Cons x rs)
  show ?case
  proof (cases "bi_status (st x) = DRAINING")
    case True
    with Cons show ?thesis by simp
  next
    case False
    with Cons.prems have ne: "r \<noteq> x" by auto
    obtain hc' st' res where ci: "check_instance (env i) hc st x = ((hc', st'), res)"
      by (metis surj_pair)
    have "st' r = st r" using check_instance_other [OF assms(1) [of i] ne, where hc = hc and st = st] ci by simp
    with Cons False ci show ?thesis by (cases res) simp_all
  qed
qed

lemma check_once_draining:
  assumes "\<And>i. leaves_alone r (meanwhile (env i))" and "bi_status (snd s r) = DRAINING"
  shows "snd (fst (check_once env s)) r = snd s r"
  using check_refs_draining [OF assms(1), where st = "snd s"] assms(2)
  by (cases s) (simp add: check_once_def)

section \<open>Properties\<close>

text \<open>C33.
  Hysteresis, exactly. Run the checker for any number of rounds over instances with different ids
  that nobody else touches, with probes answering or failing as they like, unexpected exceptions
  included: the status of an instance is the one its latest sufficiently long run of equal results
  demands, and its initial status while no run has been long enough, so that one flaky probe changes
  nothing. Its failure count is the number of its failed probes.\<close>

theorem health_status_follows_runs:
  assumes "hc = new_health_checker backends interval timeout ft sth path"
    and "R = concat (dict_values backends)" and "inj_on (\<lambda>r. bi_id (st r)) (set R)" and "r \<in> set R"
    and "\<forall>r \<in> set R. bi_status (st r) \<noteq> DRAINING" and "\<forall>x \<in> set rounds. undisturbed x"
    and "run_rounds rounds (hc, st) = (hc', st')"
    and "h = concat (map (\<lambda>x. round_log (fst x) 0 R) rounds)"
  shows "bi_status (st' r) = verdict ft sth (bi_status (st r)) (rev (results_of r h))
    \<and> bi_failure_count (st' r) = bi_failure_count (st r) + int (length (filter Not (results_of r h)))"
  by (rule rounds_verdict [OF assms])

definition ex_checker :: HealthChecker where
  "ex_checker = new_health_checker [(''users'', [0, 1])] 5 1 3 2 ''/health''"

definition ex_round :: "probe \<Rightarrow> probe \<Rightarrow> (nat \<Rightarrow> probe_env) \<times> (instance_store \<Rightarrow> instance_store)" where
  "ex_round p q = (\<lambda>i. \<lparr> result = (if i = 0 then p else q), meanwhile = id \<rparr>, id)"

definition ex_rounds :: "((nat \<Rightarrow> probe_env) \<times> (instance_store \<Rightarrow> instance_store)) list" where
  "ex_rounds = [ex_round (Answer 200) HttpError, ex_round (Answer 404) (Answer 200),
     ex_round (Answer 503) (Answer 200), ex_round HttpError (OtherFailure ''boom'')]"

theorem health_status_follows_runs_witness:
  "bi_status (snd (run_rounds ex_rounds (ex_checker, ex_store)) 0) = HEALTHY
   \<and> bi_failure_count (snd (run_rounds ex_rounds (ex_checker, ex_store)) 0) = 2"
proof -
  let ?R = "concat (dict_values [(''users'', [0, 1 :: instance_ref])])"
  let ?h = "concat (map (\<lambda>x. round_log (fst x) 0 ?R) ex_rounds)"
  have inj: "inj_on (\<lambda>r. bi_id (ex_store r)) (set ?R)"
    by (auto simp: inj_on_def dict_values_def ex_store_def ex_instance_def split: if_splits)
  have r: "0 \<in> set ?R" by (simp add: dict_values_def)
  have d: "\<forall>r \<in> set ?R. bi_status (ex_store r) \<noteq> DRAINING"
    by (simp add: dict_values_def ex_store_def ex_instance_def)
  have u: "\<forall>x \<in> set ex_rounds. undisturbed x" by (simp add: ex_rounds_def ex_round_def undisturbed_def)
  have v: "verdict 3 2 (bi_status (ex_store 0)) (rev (results_of 0 ?h)) = HEALTHY"
    "bi_failure_count (ex_store 0) + int (length (filter Not (results_of 0 ?h))) = 2"
    by (code_simp, code_simp)
  from health_status_follows_runs [OF ex_checker_def refl inj r d u prod.collapse [symmetric] refl]
  show ?thesis unfolding v .
qed

text \<open>
  A draining instance is not polled back: no number of rounds changes it in any field, whatever the
  other probes answer and whatever happens to other instances.\<close>

lemma draining_stays:
  assumes "\<forall>(env, asleep) \<in> set rounds. (\<forall>i. leaves_alone r (meanwhile (env i))) \<and> leaves_alone r asleep"
    and "bi_status (st r) = DRAINING"
  shows "snd (run_rounds rounds (hc, st)) r = st r"
  using assms
proof (induction rounds arbitrary: hc st)
  case Nil
  then show ?case by simp
next
  case (Cons x rounds)
  obtain env asleep where x: "x = (env, asleep)" by (cases x)
  obtain hc' st' where s: "fst (check_once env (hc, st)) = (hc', st')" by (cases "fst (check_once env (hc, st))")
  have "st' r = st r" using check_once_draining [of r env "(hc, st)"] Cons.prems x s by auto
  then have "asleep st' r = st r" using Cons.prems(1) x by (simp add: leaves_alone_def)
  with Cons.IH [of "asleep st'" hc'] Cons.prems x s show ?case by simp
qed

lemma draining_stays_example:
  "bi_status (snd (run_rounds (replicate 5 (\<lambda>i. \<lparr> result = Answer 200, meanwhile = (\<lambda>s. set_status s 0 UNHEALTHY) \<rparr>, id))
     (ex_checker, ex_store(1 := (ex_store 1)\<lparr>bi_status := DRAINING\<rparr>))) 1) = DRAINING"
proof -
  let ?rounds = "replicate 5 (\<lambda>i::nat. \<lparr> result = Answer 200, meanwhile = (\<lambda>s. set_status s 0 UNHEALTHY) \<rparr>, id)"
  let ?st = "ex_store(1 := (ex_store 1)\<lparr>bi_status := DRAINING\<rparr>)"
  have h: "\<forall>(env, asleep) \<in> set ?rounds. (\<forall>i. leaves_alone 1 (meanwhile (env i))) \<and> leaves_alone 1 asleep"
    by (simp add: leaves_alone_def set_status_def)
  have d: "bi_status (?st 1) = DRAINING" by simp
  from draining_stays [where rounds = ?rounds and st = ?st and r = 1 and hc = ex_checker, OF h d] show ?thesis by simp
qed

text \<open>An instance that is put into draining while its probe is under way can be marked healthy again:
  the status is tested before the probe and not after it.\<close>

theorem draining_lost_during_probe:
  assumes "bi_status (st r) \<noteq> DRAINING" and "meanwhile env = (\<lambda>s. set_status s r DRAINING)"
    and "result env = Answer code" and "code < 500"
    and "hc_success_threshold hc \<le> count_of (hc_consecutive_successes hc) (bi_id (st r)) + 1"
  shows "bi_status (snd (fst (check_refs (\<lambda>_. env) i [r] (hc, st))) r) = HEALTHY"
  using assms
  by (cases "check_instance env hc st r")
    (auto simp: check_instance_def note_result_def note_healthy_def set_status_def Let_def)

theorem draining_lost_during_probe_witness:
  "bi_status (snd (fst (check_refs (\<lambda>_. \<lparr> result = Answer 200, meanwhile = (\<lambda>s. set_status s 0 DRAINING) \<rparr>)
     0 [0] (ex_checker\<lparr>hc_consecutive_successes := [(bi_id (ex_store 0), 7)]\<rparr>, ex_store))) 0) = HEALTHY"
  by (rule draining_lost_during_probe [where code = 200])
    (simp_all add: ex_store_def ex_instance_def ex_checker_def new_health_checker_def count_of_def dict_get_def)

end
