(* ===== verification/Process.thy ===== *)
theory Process
  imports Availability Health_Checker
begin

text \<open>
  The whole data-plane process: any number of requests in \<open>handle\<close>, the health checker and
  whatever else changes the content of Redis, interleaved on one shared state. A coroutine of
  asyncio runs undisturbed up to its next suspension, so a request is a \<open>thread\<close> that rests
  at one of the four places where \<^verbatim>\<open>pipeline.py\<close> and \<^verbatim>\<open>semaphores.py\<close> really
  suspend: it waits for the rate limiter (\<open>Checking\<close>), in the queue of a gate (\<open>Queued\<close>),
  for the backend (\<open>Awaiting\<close>), or sleeps before a retry (\<open>Resting\<close>). \<open>arrive\<close>
  and \<open>resume\<close> are the stretches of code in between, built from the same pieces as
  \<open>handle\<close>, and \<open>proc_step\<close> interleaves them.

  The gates of the process move along the steps of the concurrency model, so that its bounds hold
  for the process as a whole and all slots come back, and every thread ends after a bounded number of its own steps,
  whatever the others do, and is never stuck. \<open>Process_Handle\<close> relates threads to
  \<open>handle\<close>.
\<close>

section \<open>Threads\<close>

datatype stage =
    Checking RouteDefinition RateLimitDecision
  | Queued RouteDefinition
  | Awaiting RouteDefinition DeadlineTracker int int bytes outbound_request
  | Resting RouteDefinition DeadlineTracker int int bytes
  | Ended "exn + PipelineResult"

record thread =
  th_request :: request
  th_client :: "client option"
  th_stage :: stage
  th_sent :: "outbound_request list"

definition at_stage :: "stage \<Rightarrow> thread \<Rightarrow> thread" where
  "at_stage s th = th\<lparr>th_stage := s\<rparr>"

text \<open>Leaving the \<^verbatim>\<open>async with\<close> of the gates with a result or an exception.\<close>

definition finish_thread :: "exn + PipelineResult \<Rightarrow> thread \<Rightarrow> 'db gateway \<Rightarrow> 'db gateway \<times> thread" where
  "finish_thread r th gw =
     (case th_client th of
        None \<Rightarrow> (gw, at_stage (Ended r) th)
      | Some c \<Rightarrow> (release_all c gw, at_stage (Ended r) (th\<lparr>th_client := Some (leave None c)\<rparr>)))"

text \<open>The \<^verbatim>\<open>except BackpressureRejected\<close> around them.\<close>

definition gate_failure :: "request \<Rightarrow> exn \<Rightarrow> exn + PipelineResult" where
  "gate_failure req e =
     (case e of
        BackpressureRejected gate_scope _ \<Rightarrow> Inr (overloaded_result (rq_request_id req) gate_scope)
      | _ \<Rightarrow> Inl e)"

text \<open>From the top of the retry loop up to the call of the backend.\<close>

definition loop_head ::
  "(headers \<Rightarrow> headers) \<Rightarrow> RouteDefinition \<Rightarrow> DeadlineTracker \<Rightarrow> int \<Rightarrow> int \<Rightarrow> bytes \<Rightarrow> 'db attempt_env
    \<Rightarrow> thread \<Rightarrow> 'db gateway \<Rightarrow> 'db gateway \<times> thread" where
  "loop_head items route deadline att last_status last_body env th gw =
     (let req = th_request th; given_up = Inr (proxy_result (rq_request_id req) last_status last_body) in
      if \<not> att < max_attempts (rq_retry_policy req) then finish_thread given_up th gw
      else case open_attempt items req route deadline env gw of
             (gw1, Answer_With r) \<Rightarrow> finish_thread (Inr r) th gw1
           | (gw1, Give_Up) \<Rightarrow> finish_thread given_up th gw1
           | (gw1, Fail_With x) \<Rightarrow> finish_thread (Inl x) th gw1
           | (gw1, Send q) \<Rightarrow>
               (gw1, at_stage (Awaiting route deadline (att + 1) last_status last_body q)
                       (th\<lparr>th_sent := th_sent th @ [q]\<rparr>)))"

definition thread_path :: "request \<Rightarrow> RouteDefinition \<Rightarrow> gate_ref list" where
  "thread_path req route = gate_path (rq_tenant_id req) (rt_id route) (rt_backend_service_id route)"

definition new_client :: "request \<Rightarrow> RouteDefinition \<Rightarrow> client" where
  "new_client req route = \<lparr> c_path = thread_path req route, c_held = 0, c_status = Acquiring \<rparr>"

text \<open>As many gates as can be had without waiting.\<close>

fun run_gates :: "nat \<Rightarrow> task \<Rightarrow> (nat \<Rightarrow> py_float) \<Rightarrow> client \<Rightarrow> manager \<Rightarrow> manager \<times> client" where
  "run_gates 0 t waited c m = (m, c)"
| "run_gates (Suc n) t waited c m =
     (case try_acquire t (waited (c_held c)) c m of
        (m1, c1) \<Rightarrow> if c_status c1 = Acquiring then run_gates n t waited c1 m1 else (m1, c1))"

text \<open>What follows the gates, as far as the request has come: rejected, in a queue, or through.\<close>

definition past_gates ::
  "(headers \<Rightarrow> headers) \<Rightarrow> seconds \<Rightarrow> 'db attempt_env \<Rightarrow> RouteDefinition \<Rightarrow> thread \<Rightarrow> 'db gateway
    \<Rightarrow> manager \<times> client \<Rightarrow> 'db gateway \<times> thread" where
  "past_gates items start env route th gw mc =
     (let gw1 = gw\<lparr>gw_concurrency := fst mc\<rparr>; th1 = th\<lparr>th_client := Some (snd mc)\<rparr> in
      case c_status (snd mc) of
        Finished (Some e) \<Rightarrow> (gw1, at_stage (Ended (gate_failure (th_request th) e)) th1)
      | Waiting \<Rightarrow> (gw1, at_stage (Queued route) th1)
      | _ \<Rightarrow>
          loop_head items route (new_deadline (total_deadline_ms (rq_retry_policy (th_request th))) start)
            0 502 ''{\"error\":{\"code\":\"BAD_GATEWAY\"}}'' env th1
            (gw1\<lparr>gw_breakers := snd (breaker_for (gw_breakers gw1) (rt_backend_service_id route))\<rparr>))"

section \<open>The stretches between two suspensions\<close>

definition new_thread :: "request \<Rightarrow> stage \<Rightarrow> thread" where
  "new_thread req s = \<lparr> th_request = req, th_client = None, th_stage = s, th_sent = [] \<rparr>"

definition arrive ::
  "'db redis_ops \<Rightarrow> int \<Rightarrow> request \<Rightarrow> seconds \<Rightarrow> redis_fault \<Rightarrow> 'db gateway \<Rightarrow> 'db gateway \<times> thread" where
  "arrive ops inf_reply req clock fault gw =
     (if int (length (rq_body req)) > gw_max_body_size_bytes gw
      then (gw, new_thread req (Ended (Inr (too_large_result (rq_request_id req)))))
      else
        case match_route (gw_routes gw) (rq_tenant_id req) (rq_method req) (rq_path req) of
          Inl (RouteNotFoundError _) \<Rightarrow> (gw, new_thread req (Ended (Inr (no_route_result (rq_request_id req)))))
        | Inl e \<Rightarrow> (gw, new_thread req (Ended (Inl e)))
        | Inr route \<Rightarrow>
            (case check_token_bucket ops inf_reply (gw_redis gw) clock fault
                    (rq_rate_limit_key req) (rq_rate_limit_policy req) of
               (db, decision) \<Rightarrow> (gw\<lparr>gw_redis := db\<rparr>, new_thread req (Checking route decision))))"

text \<open>
  What resumes a thread. Every action carries the clock readings, the shuffle and the random draw of
  the stretch it starts (the two functions in an \<open>attempt_env\<close> that stand for other tasks are
  not used).
\<close>

datatype 'db action =
    Reply "nat \<Rightarrow> py_float" seconds "'db attempt_env"
  | Woken "nat \<Rightarrow> py_float" seconds "'db attempt_env"
  | Timed_Out py_float
  | Backend_Reply "exn + Response" "'db attempt_env"
  | Rested "'db attempt_env"

fun resume ::
  "(headers \<Rightarrow> headers) \<Rightarrow> task \<Rightarrow> 'db action \<Rightarrow> thread \<Rightarrow> 'db gateway \<Rightarrow> ('db gateway \<times> thread) option" where
  "resume items t (Reply waited start env) th gw =
     (case th_stage th of
        Checking route decision \<Rightarrow>
          (let req = th_request th in
           if \<not> allowed decision
           then Some (gw, at_stage (Ended (Inr (rate_limited_result (rq_request_id req) decision))) th)
           else
             case create_gates (rq_tenant_id req) (rt_id route) (rt_backend_service_id route) (gw_concurrency gw) of
               (m, Inl e) \<Rightarrow> Some (gw\<lparr>gw_concurrency := m\<rparr>, at_stage (Ended (gate_failure req e)) th)
             | (m, Inr _) \<Rightarrow>
                 Some (past_gates items start env route th gw
                   (run_gates 4 t waited (new_client req route) m)))
      | _ \<Rightarrow> None)"
| "resume items t (Woken waited start env) th gw =
     (case (th_stage th, th_client th) of
        (Queued route, Some c) \<Rightarrow>
          (if is_woken (gw_concurrency gw) c t
           then (case wake_client t c (gw_concurrency gw) of
                   (m, c1) \<Rightarrow>
                     Some (past_gates items start env route th gw
                       (run_gates (length (c_path c1) - c_held c1) t waited c1 m)))
           else None)
      | _ \<Rightarrow> None)"
| "resume items t (Timed_Out waited) th gw =
     (case (th_stage th, th_client th) of
        (Queued route, Some c) \<Rightarrow>
          (case timeout_client t waited c (gw_concurrency gw) of
             (m, c1) \<Rightarrow>
               (case c_status c1 of
                  Finished (Some e) \<Rightarrow>
                    Some (gw\<lparr>gw_concurrency := m\<rparr>,
                          at_stage (Ended (gate_failure (th_request th) e)) (th\<lparr>th_client := Some c1\<rparr>))
                | _ \<Rightarrow> None))
      | _ \<Rightarrow> None)"
| "resume items t (Backend_Reply answer env) th gw =
     (case th_stage th of
        Awaiting route deadline att last_status last_body q \<Rightarrow>
          (let req = th_request th; service = rt_backend_service_id route in
           case close_attempt (rq_request_id req) service env last_status last_body answer gw of
             (gw1, Done r) \<Rightarrow> Some (finish_thread (Inr r) th gw1)
           | (gw1, Crash x) \<Rightarrow> Some (finish_thread (Inl x) th gw1)
           | (gw1, Failed kind status body) \<Rightarrow>
               (case wants_retry req service deadline env att kind gw1 of
                  (gw2, False) \<Rightarrow> Some (finish_thread (Inr (proxy_result (rq_request_id req) status body)) th gw2)
                | (gw2, True) \<Rightarrow> Some (gw2, at_stage (Resting route deadline att status body) th)))
      | _ \<Rightarrow> None)"
| "resume items t (Rested env) th gw =
     (case th_stage th of
        Resting route deadline att last_status last_body \<Rightarrow>
          Some (loop_head items route deadline att last_status last_body env th gw)
      | _ \<Rightarrow> None)"

section \<open>The process\<close>

record 'db process =
  ps_gateway :: "'db gateway"
  ps_checker :: HealthChecker
  ps_threads :: "task \<Rightarrow> thread option"

text \<open>
  Besides the threads, the health checker notes the result of a probe, and the content of Redis
  becomes something else: keys expire, and other gateways use it.
\<close>

datatype 'db event =
    Arrives task request seconds redis_fault
  | Moves task "'db action"
  | Probed instance_ref bool
  | Redis_Becomes 'db

definition put_thread :: "task \<Rightarrow> 'db gateway \<times> thread \<Rightarrow> 'db process \<Rightarrow> 'db process" where
  "put_thread t gt p = p\<lparr>ps_gateway := fst gt, ps_threads := (ps_threads p)(t := Some (snd gt))\<rparr>"

definition note_probe :: "instance_ref \<Rightarrow> bool \<Rightarrow> 'db process \<Rightarrow> 'db process" where
  "note_probe r ok p =
     (case note_result ok (ps_checker p) (gw_instances (ps_gateway p)) r of
        (hc, st) \<Rightarrow> p\<lparr>ps_checker := hc, ps_gateway := (ps_gateway p)\<lparr>gw_instances := st\<rparr>\<rparr>)"

definition set_redis :: "'db \<Rightarrow> 'db process \<Rightarrow> 'db process" where
  "set_redis db p = p\<lparr>ps_gateway := (ps_gateway p)\<lparr>gw_redis := db\<rparr>\<rparr>"

inductive proc_step ::
  "'db redis_ops \<Rightarrow> int \<Rightarrow> (headers \<Rightarrow> headers) \<Rightarrow> 'db process \<Rightarrow> 'db event \<Rightarrow> 'db process \<Rightarrow> bool"
  for ops :: "'db redis_ops" and inf_reply :: int and items :: "headers \<Rightarrow> headers" where
  proc_arrives: "ps_threads p t = None \<Longrightarrow>
    proc_step ops inf_reply items p (Arrives t req clock fault)
      (put_thread t (arrive ops inf_reply req clock fault (ps_gateway p)) p)"
| proc_moves: "ps_threads p t = Some th \<Longrightarrow> resume items t a th (ps_gateway p) = Some gt \<Longrightarrow>
    proc_step ops inf_reply items p (Moves t a) (put_thread t gt p)"
| proc_probed: "proc_step ops inf_reply items p (Probed r ok) (note_probe r ok p)"
| proc_redis: "proc_step ops inf_reply items p (Redis_Becomes db) (set_redis db p)"

inductive_cases proc_stepE: "proc_step ops inf_reply items p e p'"

text \<open>The same steps as a function: \<open>None\<close> where no step is possible.\<close>

fun proc_apply ::
  "'db redis_ops \<Rightarrow> int \<Rightarrow> (headers \<Rightarrow> headers) \<Rightarrow> 'db event \<Rightarrow> 'db process \<Rightarrow> 'db process option" where
  "proc_apply ops inf_reply items (Arrives t req clock fault) p =
     (case ps_threads p t of
        None \<Rightarrow> Some (put_thread t (arrive ops inf_reply req clock fault (ps_gateway p)) p)
      | Some _ \<Rightarrow> None)"
| "proc_apply ops inf_reply items (Moves t a) p =
     (case ps_threads p t of
        None \<Rightarrow> None
      | Some th \<Rightarrow> map_option (\<lambda>gt. put_thread t gt p) (resume items t a th (ps_gateway p)))"
| "proc_apply ops inf_reply items (Probed r ok) p = Some (note_probe r ok p)"
| "proc_apply ops inf_reply items (Redis_Becomes db) p = Some (set_redis db p)"

lemma proc_apply_iff: "proc_step ops ir items p e p' \<longleftrightarrow> proc_apply ops ir items e p = Some p'"
  by (cases e) (auto elim!: proc_stepE intro: proc_step.intros split: option.splits)

fun proc_exec ::
  "'db redis_ops \<Rightarrow> int \<Rightarrow> (headers \<Rightarrow> headers) \<Rightarrow> 'db event list \<Rightarrow> 'db process \<Rightarrow> 'db process option" where
  "proc_exec ops inf_reply items [] p = Some p"
| "proc_exec ops inf_reply items (e # es) p =
     Option.bind (proc_apply ops inf_reply items e p) (proc_exec ops inf_reply items es)"

lemma proc_exec_steps: "steps (proc_step ops ir items) p es p' \<longleftrightarrow> proc_exec ops ir items es p = Some p'"
  by (induction es arbitrary: p) (auto simp: proc_apply_iff bind_eq_Some_conv)

lemma proc_exec_append:
  "proc_exec ops ir items (es @ fs) p = Option.bind (proc_exec ops ir items es p) (proc_exec ops ir items fs)"
proof (induction es arbitrary: p)
  case (Cons e es)
  then show ?case by (cases "proc_apply ops ir items e p") simp_all
qed simp

text \<open>
  Start: the gates are new, nothing has arrived. A negative limit would make the creation of the
  first gate of a tenant, route or backend raise, so the limits are not negative.
\<close>

definition proc_start :: "ConcurrencyLimits \<Rightarrow> 'db process \<Rightarrow> bool" where
  "proc_start l p \<longleftrightarrow> sane_limits l \<and> new_manager l = Inr (gw_concurrency (ps_gateway p)) \<and> ps_threads p = Map.empty"

section \<open>The gates of the process\<close>

text \<open>The process as the concurrency model sees it.\<close>

definition gates_of :: "'db process \<Rightarrow> con_system" where
  "gates_of p =
     \<lparr> cs_manager = gw_concurrency (ps_gateway p),
       cs_clients = (\<lambda>t. Option.bind (ps_threads p t) th_client) \<rparr>"

definition holds_path :: "con_status \<Rightarrow> request \<Rightarrow> RouteDefinition \<Rightarrow> client option \<Rightarrow> bool" where
  "holds_path st req route cl \<longleftrightarrow> (\<exists>c. cl = Some c \<and> c_status c = st \<and> c_path c = thread_path req route)"

definition thread_fits :: "thread \<Rightarrow> bool" where
  "thread_fits th \<longleftrightarrow>
     (case th_stage th of
        Checking _ _ \<Rightarrow> th_client th = None
      | Queued route \<Rightarrow> holds_path Waiting (th_request th) route (th_client th)
      | Awaiting route _ _ _ _ _ \<Rightarrow> holds_path Inside (th_request th) route (th_client th)
      | Resting route _ _ _ _ \<Rightarrow> holds_path Inside (th_request th) route (th_client th)
      | Ended _ \<Rightarrow> (\<forall>c. th_client th = Some c \<longrightarrow> (\<exists>e. c_status c = Finished e)))"

definition proc_inv :: "ConcurrencyLimits \<Rightarrow> 'db process \<Rightarrow> bool" where
  "proc_inv l p \<longleftrightarrow>
     sane_limits l \<and> reach (con_start l) con_step (gates_of p)
   \<and> (\<forall>t th. ps_threads p t = Some th \<longrightarrow> thread_fits th)"

lemma proc_inv_thread: "proc_inv l p \<Longrightarrow> ps_threads p t = Some th \<Longrightarrow> thread_fits th"
  by (simp add: proc_inv_def)

lemma at_stage_fields [simp]:
  "th_request (at_stage s th) = th_request th" "th_client (at_stage s th) = th_client th"
  "th_stage (at_stage s th) = s" "th_sent (at_stage s th) = th_sent th"
  by (simp_all add: at_stage_def)

lemma new_thread_fields [simp]:
  "th_request (new_thread req s) = req" "th_client (new_thread req s) = None"
  "th_stage (new_thread req s) = s" "th_sent (new_thread req s) = []"
  by (simp_all add: new_thread_def)

lemma put_thread_fields [simp]:
  "ps_gateway (put_thread t gt p) = fst gt"
  "ps_threads (put_thread t gt p) = (ps_threads p)(t := Some (snd gt))"
  "ps_checker (put_thread t gt p) = ps_checker p"
  by (simp_all add: put_thread_def)

lemma gates_of_fields [simp]:
  "cs_manager (gates_of p) = gw_concurrency (ps_gateway p)"
  "cs_clients (gates_of p) t = Option.bind (ps_threads p t) th_client"
  by (simp_all add: gates_of_def)

lemma gates_of_put:
  "gates_of (put_thread t gt p) =
     (gates_of p)\<lparr>cs_manager := gw_concurrency (fst gt), cs_clients := (cs_clients (gates_of p))(t := th_client (snd gt))\<rparr>"
  by (auto simp: gates_of_def)

lemma gates_of_put_Some:
  "th_client (snd gt) = Some c \<Longrightarrow> gates_of (put_thread t gt p) = set_client (gates_of p) t (gw_concurrency (fst gt), c)"
  by (simp add: gates_of_put set_client_def)

lemma gates_of_put_same:
  "ps_threads p t = Some th \<Longrightarrow> th_client (snd gt) = th_client th \<Longrightarrow>
   gw_concurrency (fst gt) = gw_concurrency (ps_gateway p) \<Longrightarrow> gates_of (put_thread t gt p) = gates_of p"
  by (auto simp: gates_of_def)

text \<open>Gates had without waiting are a run of the concurrency model that settles.\<close>

lemma set_client_twice [simp]: "set_client (set_client s t x) t y = set_client s t y"
  by (simp add: set_client_def)

lemma set_client_fields [simp]:
  "cs_manager (set_client s t mc) = fst mc" "cs_clients (set_client s t mc) t = Some (snd mc)"
  by (simp_all add: set_client_def)

lemma run_gates_reach:
  assumes "reach (con_start l) con_step (set_client s t (m, c))"
    and "n = length (c_path c) - c_held c"
    and "if n = 0 then c_status c = Inside else c_status c = Acquiring"
    and "run_gates n t w c m = (m', c')"
  shows "reach (con_start l) con_step (set_client s t (m', c')) \<and> c_path c' = c_path c
    \<and> (c_status c' = Inside \<or> c_status c' = Waiting \<and> c_held c \<le> c_held c' \<or> (\<exists>e. c_status c' = Finished (Some e)))"
  using assms
proof (induction n arbitrary: c m)
  case 0
  then show ?case by simp
next
  case (Suc n)
  let ?s = "set_client s t (m, c)" and ?w = "w (c_held c)"
  have acq: "c_status c = Acquiring" and held: "c_held c < length (c_path c)" using Suc.prems(2,3) by simp_all
  obtain m1 c1 where tr: "try_acquire t ?w c m = (m1, c1)" by (cases "try_acquire t ?w c m")
  have "con_step ?s (Try t ?w) (set_client s t (m1, c1))"
    using con_try [of ?s t c ?w] acq tr by simp
  from reach_step [OF Suc.prems(1) this] have r1: "reach (con_start l) con_step (set_client s t (m1, c1))" .
  have st: "c_path c1 = c_path c \<and>
      (c1 = advance c \<or> c_status c1 = Waiting \<and> c_held c1 = c_held c \<or> (\<exists>e. c_status c1 = Finished (Some e)))"
    using try_acquire_status [OF con.reach_inv [OF Suc.prems(1)], of t c ?w m1 c1] acq tr by simp
  show ?case
  proof (cases "c1 = advance c")
    case True
    have next_c: "n = length (c_path c1) - c_held c1"
      "if n = 0 then c_status c1 = Inside else c_status c1 = Acquiring"
      using advance_status [OF held, of n] Suc.prems(2) True by simp_all
    show ?thesis
    proof (cases "n = 0")
      case True
      with Suc.prems(4) tr next_c(2) r1 st show ?thesis by simp
    next
      case False
      then have "run_gates n t w c1 m1 = (m', c')" using Suc.prems(4) tr next_c(2) by simp
      moreover have "c_held c \<le> c_held c1" using \<open>c1 = advance c\<close> by (simp add: advance_def)
      ultimately show ?thesis using Suc.IH [OF r1 next_c] st by auto
    qed
  next
    case False
    with st have "c_status c1 \<noteq> Acquiring" by auto
    with Suc.prems(4) tr have "m' = m1" "c' = c1" by simp_all
    with False st r1 show ?thesis by auto
  qed
qed

text \<open>Inside the gates, a stretch either leaves them alone or ends the thread and gives them back.\<close>

definition stays_inside :: "RouteDefinition \<Rightarrow> stage \<Rightarrow> bool" where
  "stays_inside route s \<longleftrightarrow>
     (\<exists>dl att ls lb q. s = Awaiting route dl att ls lb q) \<or> (\<exists>dl att ls lb. s = Resting route dl att ls lb)"

definition moves_on :: "client \<Rightarrow> RouteDefinition \<Rightarrow> request \<Rightarrow> manager \<Rightarrow> 'db gateway \<times> thread \<Rightarrow> bool" where
  "moves_on c route req m gt \<longleftrightarrow>
     th_request (snd gt) = req
   \<and> (gw_concurrency (fst gt) = m \<and> th_client (snd gt) = Some c \<and> stays_inside route (th_stage (snd gt))
      \<or> gw_concurrency (fst gt) = fst (finish_client c m) \<and> th_client (snd gt) = Some (leave None c)
        \<and> (\<exists>r. th_stage (snd gt) = Ended r))"

lemma finish_moves_on:
  "th_client th = Some c \<Longrightarrow> gw_concurrency gw = m \<Longrightarrow> moves_on c route (th_request th) m (finish_thread r th gw)"
  by (simp add: moves_on_def finish_thread_def release_all_def)

lemma loop_head_moves_on:
  assumes "th_client th = Some c"
  shows "moves_on c route (th_request th) (gw_concurrency gw) (loop_head items route dl att ls lb env th gw)"
proof -
  obtain gw1 p where op: "open_attempt items (th_request th) route dl env gw = (gw1, p)"
    by (cases "open_attempt items (th_request th) route dl env gw")
  then have "gw_concurrency gw1 = gw_concurrency gw"
    using open_attempt_fields [of items "th_request th" route dl env gw] by simp
  note fin = finish_moves_on [OF assms this, of route]
  note fin0 = finish_moves_on [OF assms, of gw "gw_concurrency gw" route]
  show ?thesis
  proof (cases p)
    case (Send q)
    with op \<open>gw_concurrency gw1 = _\<close> assms fin0 show ?thesis
      by (auto simp: loop_head_def Let_def moves_on_def stays_inside_def)
  qed (use op fin fin0 in \<open>simp_all add: loop_head_def Let_def\<close>)
qed

lemma backend_reply_moves_on:
  assumes "th_client th = Some c" and "th_stage th = Awaiting route dl att ls lb q"
    and "resume items t (Backend_Reply answer env) th gw = Some gt"
  shows "moves_on c route (th_request th) (gw_concurrency gw) gt"
proof -
  let ?req = "th_request th" and ?svc = "rt_backend_service_id route"
  obtain gw1 k where cl: "close_attempt (rq_request_id ?req) ?svc env ls lb answer gw = (gw1, k)"
    by (metis surj_pair)
  then have m1: "gw_concurrency gw1 = gw_concurrency gw"
    using close_attempt_fields [of "rq_request_id ?req" ?svc env ls lb answer gw] by simp
  show ?thesis
  proof (cases k)
    case (Failed kind st b)
    obtain gw2 w where wr: "wants_retry ?req ?svc dl env att kind gw1 = (gw2, w)" by (metis surj_pair)
    then have m2: "gw_concurrency gw2 = gw_concurrency gw"
      using wants_retry_fields [of ?req ?svc dl env att kind gw1] m1 by simp
    show ?thesis
    proof (cases w)
      case True
      with assms cl Failed wr m2 show ?thesis by (auto simp: moves_on_def stays_inside_def)
    next
      case False
      with assms cl Failed wr finish_moves_on [OF assms(1) m2] show ?thesis by auto
    qed
  qed (use assms cl finish_moves_on [OF assms(1) m1] in auto)
qed

lemma moves_on_inv:
  assumes "moves_on c route req m gt" and "reach (con_start l) con_step (set_client s t (m, c))"
    and "c_status c = Inside" and "c_path c = thread_path req route"
  obtains c' where "th_client (snd gt) = Some c'" "thread_fits (snd gt)"
    "reach (con_start l) con_step (set_client s t (gw_concurrency (fst gt), c'))"
proof -
  let ?s = "set_client s t (m, c)"
  have "con_step ?s (Finish t) (set_client s t (finish_client c m))"
    using con_finish [of ?s t c] assms(3) by simp
  from reach_step [OF assms(2) this]
  have fin: "reach (con_start l) con_step (set_client s t (fst (finish_client c m), leave None c))"
    by (simp add: finish_client_def)
  from assms(1) consider
    (inside) "gw_concurrency (fst gt) = m" "th_client (snd gt) = Some c" "stays_inside route (th_stage (snd gt))"
      "th_request (snd gt) = req"
    | (out) r where "gw_concurrency (fst gt) = fst (finish_client c m)" "th_client (snd gt) = Some (leave None c)"
      "th_stage (snd gt) = Ended r"
    by (auto simp: moves_on_def)
  then show ?thesis
  proof cases
    case inside
    with assms show ?thesis by (intro that [of c]) (auto simp: thread_fits_def holds_path_def stays_inside_def)
  next
    case out
    with fin show ?thesis by (intro that [of "leave None c"]) (auto simp: thread_fits_def leave_def)
  qed
qed

lemma past_gates_inv:
  assumes "reach (con_start l) con_step (set_client s t (m, c))" and "c_path c = thread_path (th_request th) route"
    and "c_status c = Inside \<or> c_status c = Waiting \<or> (\<exists>e. c_status c = Finished (Some e))"
  obtains c' where "th_client (snd (past_gates items start env route th gw (m, c))) = Some c'"
    "thread_fits (snd (past_gates items start env route th gw (m, c)))"
    "reach (con_start l) con_step
       (set_client s t (gw_concurrency (fst (past_gates items start env route th gw (m, c))), c'))"
proof -
  let ?pg = "past_gates items start env route th gw (m, c)"
  from assms(3) consider (inside) "c_status c = Inside" | (wait) "c_status c = Waiting"
    | (out) e where "c_status c = Finished (Some e)" by blast
  then show ?thesis
  proof cases
    case inside
    let ?th = "th\<lparr>th_client := Some c\<rparr>" and ?gw1 = "gw\<lparr>gw_concurrency := m\<rparr>"
    let ?gw = "?gw1\<lparr>gw_breakers := snd (breaker_for (gw_breakers ?gw1) (rt_backend_service_id route))\<rparr>"
    have "moves_on c route (th_request th) m ?pg"
      using loop_head_moves_on [of ?th c route ?gw items _ 0] inside
      by (simp add: past_gates_def Let_def)
    from moves_on_inv [OF this assms(1) inside assms(2)] that show ?thesis by blast
  next
    case wait
    with assms show ?thesis
      by (intro that [of c]) (simp_all add: past_gates_def Let_def thread_fits_def holds_path_def)
  next
    case out
    with assms show ?thesis by (intro that [of c]) (simp_all add: past_gates_def Let_def thread_fits_def)
  qed
qed

lemma put_thread_inv:
  assumes "proc_inv l p" and "thread_fits (snd gt)" and "th_client (snd gt) = Some c"
    and "reach (con_start l) con_step (set_client (gates_of p) t (gw_concurrency (fst gt), c))"
  shows "proc_inv l (put_thread t gt p)"
  using assms by (simp add: proc_inv_def gates_of_put_Some)

lemma put_thread_inv_same:
  assumes "proc_inv l p" and "thread_fits (snd gt)" and "ps_threads p t = Some th"
    and "th_client (snd gt) = th_client th" and "gw_concurrency (fst gt) = gw_concurrency (ps_gateway p)"
  shows "proc_inv l (put_thread t gt p)"
  using assms by (simp add: proc_inv_def gates_of_put_same)

lemma proc_inv_self:
  assumes "proc_inv l p" and "ps_threads p t = Some th" and "th_client th = Some c"
  shows "reach (con_start l) con_step (set_client (gates_of p) t (gw_concurrency (ps_gateway p), c))"
proof -
  have "set_client (gates_of p) t (gw_concurrency (ps_gateway p), c) = gates_of p"
    using assms(2,3) by (auto simp: set_client_def gates_of_def fun_eq_iff)
  with assms(1) show ?thesis by (simp add: proc_inv_def)
qed

lemma new_client_fields [simp]:
  "c_path (new_client req route) = thread_path req route" "c_held (new_client req route) = 0"
  "c_status (new_client req route) = Acquiring" "length (thread_path req route) = 4"
  by (simp_all add: new_client_def thread_path_def gate_path_def)

lemma reply_cases:
  assumes inv: "proc_inv l p" and th: "ps_threads p t = Some th"
    and "resume items t (Reply w start env) th (ps_gateway p) = Some gt"
  obtains (refused) route d where "th_stage th = Checking route d" "th_client th = None" "\<not> allowed d"
      "gt = (ps_gateway p, at_stage (Ended (Inr (rate_limited_result (rq_request_id (th_request th)) d))) th)"
    | (through) route d m0 m c where "th_stage th = Checking route d" "th_client th = None" "allowed d"
      "create_gates (rq_tenant_id (th_request th)) (rt_id route) (rt_backend_service_id route)
         (gw_concurrency (ps_gateway p)) = (m0, Inr ())"
      "reach (con_start l) con_step (set_client (gates_of p) t (m0, new_client (th_request th) route))"
      "run_gates 4 t w (new_client (th_request th) route) m0 = (m, c)"
      "gt = past_gates items start env route th (ps_gateway p) (m, c)"
proof -
  obtain route d where stage: "th_stage th = Checking route d"
    using assms(3) by (auto split: stage.splits)
  have none: "th_client th = None" using proc_inv_thread [OF inv th] stage by (simp add: thread_fits_def)
  show ?thesis
  proof (cases "allowed d")
    case False
    with assms(3) stage none show ?thesis by (intro refused) auto
  next
    case True
    let ?req = "th_request th"
    have con: "reach (con_start l) con_step (gates_of p)" and "sane_limits l" using inv by (simp_all add: proc_inv_def)
    moreover have "m_limits (gw_concurrency (ps_gateway p)) = l"
      using con.reach_inv [OF con] by (simp add: con_inv_def)
    ultimately obtain m0 where cg: "create_gates (rq_tenant_id ?req) (rt_id route) (rt_backend_service_id route)
        (gw_concurrency (ps_gateway p)) = (m0, Inr ())"
      using create_gates_ok by metis
    have "con_step (gates_of p) (Arrive t (rq_tenant_id ?req) (rt_id route) (rt_backend_service_id route))
        (set_client (gates_of p) t (m0, new_client ?req route))"
      unfolding new_client_def thread_path_def by (rule con_arrive) (use th none cg in simp_all)
    from reach_step [OF con this] have r: "reach (con_start l) con_step (set_client (gates_of p) t (m0, new_client ?req route))" .
    obtain m c where "run_gates 4 t w (new_client ?req route) m0 = (m, c)" by (metis surj_pair)
    with assms(3) stage none True cg r show ?thesis by (intro through) auto
  qed
qed

lemma new_client_settles:
  assumes "reach (con_start l) con_step (set_client s t (m0, new_client req route))"
    and "run_gates 4 t w (new_client req route) m0 = (m, c)"
  shows "reach (con_start l) con_step (set_client s t (m, c))" "c_path c = thread_path req route"
    "c_status c = Inside \<or> c_status c = Waiting \<or> (\<exists>e. c_status c = Finished (Some e))"
  using run_gates_reach [OF assms(1) _ _ assms(2)] by auto

lemma reply_inv:
  assumes inv: "proc_inv l p" and th: "ps_threads p t = Some th"
    and "resume items t (Reply w start env) th (ps_gateway p) = Some gt"
  shows "proc_inv l (put_thread t gt p)"
  using assms
proof (cases rule: reply_cases)
  case (refused route d)
  then show ?thesis by (intro put_thread_inv_same [OF inv _ th]) (simp_all add: thread_fits_def)
next
  case (through route d m0 m c)
  from past_gates_inv [OF new_client_settles [OF through(5,6)]] through(7) put_thread_inv [OF inv] show ?thesis by metis
qed

lemma queued_client:
  assumes "proc_inv l p" and "ps_threads p t = Some th" and "th_stage th = Queued route"
  obtains c where "th_client th = Some c" "c_status c = Waiting" "c_path c = thread_path (th_request th) route"
    "c_held c < length (c_path c)"
proof -
  obtain c where c: "th_client th = Some c" "c_status c = Waiting" "c_path c = thread_path (th_request th) route"
    using proc_inv_thread [OF assms(1,2)] assms(3) by (auto simp: thread_fits_def holds_path_def)
  have "con_inv l (gates_of p)" using assms(1) by (simp add: proc_inv_def con.reach_inv)
  from con_inv_client [OF this, of t c] assms(2) c have "client_ok c" by simp
  with c(2) have "c_held c < length (c_path c)" by (simp add: client_ok_def)
  with c that show ?thesis by blast
qed

lemma woken_cases:
  assumes inv: "proc_inv l p" and th: "ps_threads p t = Some th"
    and "resume items t (Woken w start env) th (ps_gateway p) = Some gt"
  obtains route c0 m1 m c where "th_stage th = Queued route" "th_client th = Some c0" "c_status c0 = Waiting"
    "c_held c0 < length (c_path c0)" "c_path c0 = thread_path (th_request th) route"
    "is_woken (gw_concurrency (ps_gateway p)) c0 t"
    "wake_client t c0 (gw_concurrency (ps_gateway p)) = (m1, advance c0)"
    "reach (con_start l) con_step (set_client (gates_of p) t (m1, advance c0))"
    "run_gates (length (c_path c0) - Suc (c_held c0)) t w (advance c0) m1 = (m, c)"
    "gt = past_gates items start env route th (ps_gateway p) (m, c)"
proof -
  obtain route where stage: "th_stage th = Queued route"
    using assms(3) by (auto split: stage.splits)
  obtain c0 where c: "th_client th = Some c0" "c_status c0 = Waiting" "c_path c0 = thread_path (th_request th) route"
    "c_held c0 < length (c_path c0)"
    by (rule queued_client [OF inv th stage])
  let ?m = "gw_concurrency (ps_gateway p)"
  have woken: "is_woken ?m c0 t" using assms(3) stage c by (auto split: if_splits)
  obtain m1 where wk: "wake_client t c0 ?m = (m1, advance c0)"
    using wake_client_advances [OF woken] by (metis surj_pair)
  have "con_step (gates_of p) (Wake t) (set_client (gates_of p) t (m1, advance c0))"
    using con_wake [of "gates_of p" t c0] th c woken wk by simp
  with inv have r: "reach (con_start l) con_step (set_client (gates_of p) t (m1, advance c0))"
    unfolding proc_inv_def by (blast intro: reach_step)
  let ?n = "length (c_path c0) - Suc (c_held c0)"
  have "c_held (advance c0) = Suc (c_held c0)" by (simp add: advance_def)
  moreover obtain m c where "run_gates ?n t w (advance c0) m1 = (m, c)" by (metis surj_pair)
  ultimately show ?thesis using assms(3) stage c woken wk r by (intro that) auto
qed

lemma advanced_settles:
  assumes "reach (con_start l) con_step (set_client s t (m1, advance c0))" and "c_held c0 < length (c_path c0)"
    and "run_gates (length (c_path c0) - Suc (c_held c0)) t w (advance c0) m1 = (m, c)"
  shows "reach (con_start l) con_step (set_client s t (m, c))" "c_path c = c_path c0"
    "c_status c = Inside \<or> c_status c = Waiting \<and> c_held c0 < c_held c \<or> (\<exists>e. c_status c = Finished (Some e))"
proof -
  have held: "c_held (advance c0) = Suc (c_held c0)" by (simp add: advance_def)
  have "length (c_path c0) - Suc (c_held c0) = length (c_path (advance c0)) - c_held (advance c0)" by (simp add: held)
  moreover have "if length (c_path c0) - Suc (c_held c0) = 0 then c_status (advance c0) = Inside
      else c_status (advance c0) = Acquiring" using assms(2) by (auto simp: advance_def)
  note run_gates_reach [OF assms(1) calculation this assms(3)]
  with held show "reach (con_start l) con_step (set_client s t (m, c))" "c_path c = c_path c0"
    "c_status c = Inside \<or> c_status c = Waiting \<and> c_held c0 < c_held c \<or> (\<exists>e. c_status c = Finished (Some e))" by auto
qed

lemma woken_inv:
  assumes inv: "proc_inv l p" and th: "ps_threads p t = Some th"
    and "resume items t (Woken w start env) th (ps_gateway p) = Some gt"
  shows "proc_inv l (put_thread t gt p)"
  using assms
proof (cases rule: woken_cases)
  case (1 route c0 m1 m c)
  note settled = advanced_settles [OF 1(8,4,9)]
  have "c_path c = thread_path (th_request th) route" using settled(2) 1(5) by simp
  moreover have "c_status c = Inside \<or> c_status c = Waiting \<or> (\<exists>e. c_status c = Finished (Some e))" using settled(3) by blast
  ultimately show ?thesis using past_gates_inv [OF settled(1)] 1(10) put_thread_inv [OF inv] by metis
qed

lemma timed_out_inv:
  assumes inv: "proc_inv l p" and th: "ps_threads p t = Some th"
    and "resume items t (Timed_Out w) th (ps_gateway p) = Some gt"
  shows "proc_inv l (put_thread t gt p)"
proof -
  obtain route where stage: "th_stage th = Queued route" using assms(3) by (auto split: stage.splits)
  obtain c where c: "th_client th = Some c" "c_status c = Waiting" by (rule queued_client [OF inv th stage])
  obtain m1 c1 where to: "timeout_client t w c (gw_concurrency (ps_gateway p)) = (m1, c1)" by (metis surj_pair)
  have "con_step (gates_of p) (Expire t w) (set_client (gates_of p) t (m1, c1))"
    using con_expire [of "gates_of p" t c w] th c to by simp
  with inv have "reach (con_start l) con_step (set_client (gates_of p) t (m1, c1))"
    unfolding proc_inv_def by (blast intro: reach_step)
  with assms(3) stage c to show ?thesis
    by (intro put_thread_inv [OF inv, of gt c1]) (auto simp: thread_fits_def split: con_status.splits option.splits)
qed

lemma inside_inv:
  assumes inv: "proc_inv l p" and th: "ps_threads p t = Some th" and "stays_inside route (th_stage th)"
    and "\<And>c. th_client th = Some c \<Longrightarrow> moves_on c route (th_request th) (gw_concurrency (ps_gateway p)) gt"
  shows "proc_inv l (put_thread t gt p)"
proof -
  obtain c where c: "th_client th = Some c" "c_status c = Inside" "c_path c = thread_path (th_request th) route"
    using proc_inv_thread [OF inv th] assms(3) by (auto simp: thread_fits_def holds_path_def stays_inside_def)
  obtain c' where "th_client (snd gt) = Some c'" "thread_fits (snd gt)"
    "reach (con_start l) con_step (set_client (gates_of p) t (gw_concurrency (fst gt), c'))"
    by (rule moves_on_inv [OF assms(4) [OF c(1)] proc_inv_self [OF inv th c(1)] c(2,3)])
  then show ?thesis by (intro put_thread_inv [OF inv])
qed

lemma resume_inv:
  assumes inv: "proc_inv l p" and th: "ps_threads p t = Some th" and re: "resume items t a th (ps_gateway p) = Some gt"
  shows "proc_inv l (put_thread t gt p)"
proof (cases a)
  case (Reply w start env)
  then show ?thesis using reply_inv [OF inv th] re by blast
next
  case (Woken w start env)
  then show ?thesis using woken_inv [OF inv th] re by blast
next
  case (Timed_Out w)
  then show ?thesis using timed_out_inv [OF inv th] re by blast
next
  case (Backend_Reply answer env)
  then obtain route dl att ls lb q where st: "th_stage th = Awaiting route dl att ls lb q"
    using re by (auto split: stage.splits)
  then show ?thesis
    using backend_reply_moves_on [OF _ st re [unfolded Backend_Reply]]
    by (intro inside_inv [OF inv th, of route]) (simp_all add: stays_inside_def)
next
  case (Rested env)
  then obtain route dl att ls lb where st: "th_stage th = Resting route dl att ls lb"
    using re by (auto split: stage.splits)
  then show ?thesis
    using loop_head_moves_on re Rested
    by (intro inside_inv [OF inv th, of route]) (auto simp: stays_inside_def)
qed

lemma arrive_fits:
  "thread_fits (snd (arrive ops ir req clock fault gw)) \<and> th_client (snd (arrive ops ir req clock fault gw)) = None
   \<and> gw_concurrency (fst (arrive ops ir req clock fault gw)) = gw_concurrency gw"
  by (auto simp: arrive_def thread_fits_def split: sum.splits exn.splits prod.splits)

lemma proc_step_inv:
  assumes "proc_step ops ir items p e p'" and inv: "proc_inv l p"
  shows "proc_inv l p'"
  using assms(1)
proof cases
  case (proc_arrives t req clock fault)
  let ?a = "arrive ops ir req clock fault (ps_gateway p)"
  have "gates_of (put_thread t ?a p) = gates_of p"
    using proc_arrives(3) arrive_fits [of ops ir req clock fault "ps_gateway p"] by (auto simp: gates_of_def)
  with inv arrive_fits [of ops ir req clock fault "ps_gateway p"] show ?thesis
    by (simp add: proc_arrives(2) proc_inv_def)
next
  case (proc_moves t th a gt)
  then show ?thesis using resume_inv [OF inv] by simp
next
  case (proc_probed r ok)
  with inv show ?thesis by (auto simp: proc_inv_def note_probe_def gates_of_def split: prod.splits)
next
  case (proc_redis db)
  with inv show ?thesis by (simp add: proc_inv_def set_redis_def gates_of_def)
qed

lemma proc_start_inv: "proc_start l p \<Longrightarrow> proc_inv l p"
  by (auto simp: proc_start_def proc_inv_def gates_of_def con_start_def intro!: reach_start)

interpretation proc: invariant_system "proc_start l" "proc_step ops ir items" "proc_inv l" for l ops ir items
  by unfold_locales (auto intro: proc_start_inv proc_step_inv)

section \<open>Own steps\<close>

text \<open>
  How many more times a thread can be resumed: once for the rate limiter, at most once per gate, and
  twice per attempt, for the answer and for the rest before the next.
\<close>

definition attempts_of :: "request \<Rightarrow> nat" where
  "attempts_of req = nat (max_attempts (rq_retry_policy req))"

definition steps_left :: "thread \<Rightarrow> nat" where
  "steps_left th =
     (let n = 2 * attempts_of (th_request th) in
      case th_stage th of
        Checking _ _ \<Rightarrow> n + 5
      | Queued _ \<Rightarrow> (case th_client th of None \<Rightarrow> 0 | Some c \<Rightarrow> n + (length (c_path c) - c_held c))
      | Awaiting _ _ att _ _ _ \<Rightarrow> n - 2 * nat att + 1
      | Resting _ _ att _ _ \<Rightarrow> n - 2 * nat att
      | Ended _ \<Rightarrow> 0)"

text \<open>The numbers of the attempts that the stages mention, and of the requests sent.\<close>

definition counts_ok :: "thread \<Rightarrow> bool" where
  "counts_ok th \<longleftrightarrow>
     (let n = max_attempts (rq_retry_policy (th_request th)); sent = int (length (th_sent th)) in
      case th_stage th of
        Awaiting _ _ att _ _ _ \<Rightarrow> 0 < att \<and> att \<le> n \<and> sent = att
      | Resting _ _ att _ _ \<Rightarrow> 0 < att \<and> att < n \<and> sent = att
      | Ended _ \<Rightarrow> sent \<le> max 0 n
      | _ \<Rightarrow> sent = 0)"

lemma finish_thread_ended [simp]:
  "th_stage (snd (finish_thread r th gw)) = Ended r" "th_request (snd (finish_thread r th gw)) = th_request th"
  "th_sent (snd (finish_thread r th gw)) = th_sent th"
  by (simp_all add: finish_thread_def split: option.split)

lemma ended_steps_left [simp]: "th_stage th = Ended r \<Longrightarrow> steps_left th = 0"
  by (simp add: steps_left_def)

lemma finish_counts: "int (length (th_sent th)) \<le> max 0 (max_attempts (rq_retry_policy (th_request th))) \<Longrightarrow>
    counts_ok (snd (finish_thread r th gw))"
  by (simp add: counts_ok_def)

lemma loop_head_cases:
  obtains (ended) r where "th_stage (snd (loop_head items route dl att ls lb env th gw)) = Ended r"
      "th_sent (snd (loop_head items route dl att ls lb env th gw)) = th_sent th"
    | (sent) q where "th_stage (snd (loop_head items route dl att ls lb env th gw)) = Awaiting route dl (att + 1) ls lb q"
      "att < max_attempts (rq_retry_policy (th_request th))"
      "th_sent (snd (loop_head items route dl att ls lb env th gw)) = th_sent th @ [q]"
      "open_attempt items (th_request th) route dl env gw = (fst (loop_head items route dl att ls lb env th gw), Send q)"
proof -
  obtain gw1 p where "open_attempt items (th_request th) route dl env gw = (gw1, p)" by (metis surj_pair)
  then show ?thesis
    by (cases p; cases "att < max_attempts (rq_retry_policy (th_request th))")
      (use ended sent in \<open>auto simp: loop_head_def Let_def\<close>)
qed

lemma loop_head_request [simp]: "th_request (snd (loop_head items route dl att ls lb env th gw)) = th_request th"
  by (auto simp: loop_head_def Let_def split: prod.splits plan.splits)

lemma loop_head_counts:
  assumes "int (length (th_sent th)) = att" and "att \<le> max 0 (max_attempts (rq_retry_policy (th_request th)))"
  shows "counts_ok (snd (loop_head items route dl att ls lb env th gw))"
    and "steps_left (snd (loop_head items route dl att ls lb env th gw))
      \<le> 2 * attempts_of (th_request th) - 2 * nat att - 1"
  by (rule loop_head_cases [of items route dl att ls lb env th gw];
      use assms in \<open>auto simp: counts_ok_def steps_left_def attempts_of_def Let_def\<close>)+

lemma past_gates_request [simp]: "th_request (snd (past_gates items start env route th gw mc)) = th_request th"
  by (simp add: past_gates_def Let_def split: con_status.splits option.splits)

lemma past_gates_inside:
  assumes "c_status c = Inside"
  obtains dl lb gw' where "past_gates items start env route th gw (m, c)
    = loop_head items route dl 0 502 lb env (th\<lparr>th_client := Some c\<rparr>) gw'"
  using assms by (simp add: past_gates_def Let_def)

lemma past_gates_counts:
  assumes "th_sent th = []" and "c_status c = Inside \<or> c_status c = Waiting \<and> h \<le> c_held c \<or> (\<exists>e. c_status c = Finished (Some e))"
  shows "counts_ok (snd (past_gates items start env route th gw (m, c)))
    \<and> steps_left (snd (past_gates items start env route th gw (m, c)))
      \<le> 2 * attempts_of (th_request th) + (length (c_path c) - h)"
  using assms(2)
proof (elim disjE conjE exE)
  assume "c_status c = Inside"
  then obtain dl lb gw' where pg: "past_gates items start env route th gw (m, c)
      = loop_head items route dl 0 502 lb env (th\<lparr>th_client := Some c\<rparr>) gw'"
    by (rule past_gates_inside)
  show ?thesis
    using assms(1) loop_head_counts [of "th\<lparr>th_client := Some c\<rparr>" 0 items route dl 502 lb env gw']
    unfolding pg by simp
qed (use assms(1) in \<open>simp_all add: past_gates_def Let_def counts_ok_def steps_left_def\<close>)

lemma timed_out_counts:
  assumes inv: "proc_inv l p" and th: "ps_threads p t = Some th" and ok: "counts_ok th"
    and re: "resume items t (Timed_Out w) th (ps_gateway p) = Some gt"
  shows "counts_ok (snd gt) \<and> steps_left (snd gt) < steps_left th \<and> th_request (snd gt) = th_request th"
proof -
  obtain route where st: "th_stage th = Queued route" using re by (auto split: stage.splits)
  obtain c where c: "th_client th = Some c" "c_held c < length (c_path c)" by (rule queued_client [OF inv th st])
  with st have "0 < steps_left th" "th_sent th = []" using ok by (simp_all add: steps_left_def counts_ok_def Let_def)
  with re st c show ?thesis
    by (auto simp: counts_ok_def split: prod.splits con_status.splits option.splits)
qed

lemma backend_reply_counts:
  assumes re: "resume items t (Backend_Reply answer env) th gw = Some gt" and ok: "counts_ok th"
  shows "counts_ok (snd gt) \<and> steps_left (snd gt) < steps_left th \<and> th_request (snd gt) = th_request th"
proof -
  obtain route dl att ls lb q where st: "th_stage th = Awaiting route dl att ls lb q"
    using re by (auto split: stage.splits)
  then have att: "0 < att" "att \<le> max_attempts (rq_retry_policy (th_request th))" "0 < steps_left th"
    "int (length (th_sent th)) = att"
    using ok by (simp_all add: counts_ok_def steps_left_def Let_def)
  have more: "n < max_attempts (rq_retry_policy (th_request th))"
    if "wants_retry (th_request th) s dl env n k gw1 = (gw2, True)" for s n k gw1 gw2
    using that by (auto simp: wants_retry_def Let_def split: if_splits)
  note fin = finish_counts [of th]
  from re st att show ?thesis
    by (auto simp: Let_def counts_ok_def [of "at_stage _ _"] steps_left_def [of th] steps_left_def [of "at_stage _ _"]
        attempts_of_def intro!: fin dest: more split: prod.splits closing.splits bool.splits)
qed

text \<open>Every step of its own takes a thread closer to its end, and nothing else moves it.\<close>

lemma resume_counts:
  assumes inv: "proc_inv l p" and th: "ps_threads p t = Some th" and re: "resume items t a th (ps_gateway p) = Some gt"
    and ok: "counts_ok th"
  shows "counts_ok (snd gt) \<and> steps_left (snd gt) < steps_left th \<and> th_request (snd gt) = th_request th"
proof (cases a)
  case (Reply w start env)
  from inv th re [unfolded Reply] show ?thesis
  proof (cases rule: reply_cases)
    case (refused route d)
    then show ?thesis using ok by (simp add: counts_ok_def steps_left_def Let_def)
  next
    case (through route d m0 m c)
    note settled = new_client_settles [OF through(5,6)]
    have "th_sent th = []" using ok through(1) by (simp add: counts_ok_def)
    then show ?thesis
      using past_gates_counts [of th c 0 items start env route "ps_gateway p" m] settled(2,3) through
      by (simp add: steps_left_def [of th] Let_def)
  qed
next
  case (Woken w start env)
  from inv th re [unfolded Woken] show ?thesis
  proof (cases rule: woken_cases)
    case (1 route c0 m1 m c)
    note settled = advanced_settles [OF 1(8,4,9)]
    have "th_sent th = []" using ok 1(1) by (simp add: counts_ok_def)
    then show ?thesis
      using 1(1,2,4,10) settled past_gates_counts [of th c "Suc (c_held c0)" items start env route "ps_gateway p" m]
      by (auto simp: steps_left_def [of th] Let_def)
  qed
next
  case (Timed_Out w)
  from timed_out_counts [OF inv th ok re [unfolded this]] show ?thesis .
next
  case (Backend_Reply answer env)
  from backend_reply_counts [OF re [unfolded this] ok] show ?thesis .
next
  case (Rested env)
  then obtain route dl att ls lb where st: "th_stage th = Resting route dl att ls lb"
    using re by (auto split: stage.splits)
  then have "0 < att" "att < max_attempts (rq_retry_policy (th_request th))" "int (length (th_sent th)) = att"
    "steps_left th = 2 * attempts_of (th_request th) - 2 * nat att"
    using ok by (simp_all add: counts_ok_def steps_left_def Let_def)
  with loop_head_counts [of th att items route dl ls lb env "ps_gateway p"] re Rested st show ?thesis
    by (auto simp: attempts_of_def)
qed

lemma arrive_counts: "counts_ok (snd (arrive ops ir req clock fault gw))"
  by (auto simp: arrive_def counts_ok_def split: sum.splits exn.splits prod.splits)

lemma proc_step_counts:
  assumes "proc_step ops ir items p e p'" and "proc_inv l p" and "\<And>t th. ps_threads p t = Some th \<Longrightarrow> counts_ok th"
    and "ps_threads p' t = Some th"
  shows "counts_ok th"
  using assms(1)
proof cases
  case (proc_moves u uh a gt)
  then show ?thesis
    using assms(3,4) resume_counts [OF assms(2) proc_moves(3,4) assms(3) [OF proc_moves(3)]]
    by (auto split: if_splits)
qed (use assms(3,4) arrive_counts in \<open>auto simp: note_probe_def set_redis_def split: if_splits prod.splits\<close>)

lemma reach_counts:
  assumes "reach (proc_start l) (proc_step ops ir items) p" and "ps_threads p t = Some th"
  shows "counts_ok th"
  using assms
proof (induction arbitrary: t th rule: reach.induct)
  case (reach_start p)
  then show ?case by (simp add: proc_start_def)
next
  case (reach_step p e p')
  then show ?case using proc_step_counts [OF _ proc.reach_inv] by blast
qed

fun own_event :: "task \<Rightarrow> 'db event \<Rightarrow> bool" where
  "own_event t (Moves u a) \<longleftrightarrow> u = t"
| "own_event t e \<longleftrightarrow> False"

definition own_steps :: "task \<Rightarrow> 'db event list \<Rightarrow> nat" where
  "own_steps t es = length (filter (own_event t) es)"

lemma others_keep_thread:
  assumes "proc_step ops ir items p e p'" and "\<not> own_event t e" and "ps_threads p t = Some th"
  shows "ps_threads p' t = Some th"
  using assms by cases (auto simp: note_probe_def set_redis_def split: prod.splits)

lemma own_steps_bounded:
  assumes "steps (proc_step ops ir items) p es p'" and "reach (proc_start l) (proc_step ops ir items) p"
    and "ps_threads p t = Some th"
  shows "\<exists>th'. ps_threads p' t = Some th' \<and> th_request th' = th_request th \<and> own_steps t es + steps_left th' \<le> steps_left th"
  using assms
proof (induction es arbitrary: p th)
  case Nil
  then show ?case by (simp add: own_steps_def)
next
  case (Cons e es)
  then obtain q where q: "proc_step ops ir items p e q" "steps (proc_step ops ir items) q es p'" by auto
  have rq: "reach (proc_start l) (proc_step ops ir items) q" by (rule reach_step [OF Cons.prems(2) q(1)])
  show ?case
  proof (cases "own_event t e")
    case False
    from Cons.IH [OF q(2) rq others_keep_thread [OF q(1) False Cons.prems(3)]] False show ?thesis
      by (simp add: own_steps_def)
  next
    case True
    then obtain a where e: "e = Moves t a" by (cases e) auto
    obtain gt where gt: "resume items t a th (ps_gateway p) = Some gt" "q = put_thread t gt p"
      using q(1) Cons.prems(3) unfolding e by (auto elim: proc_stepE)
    from resume_counts [OF proc.reach_inv [OF Cons.prems(2)] Cons.prems(3) gt(1) reach_counts [OF Cons.prems(2,3)]]
    have dec: "steps_left (snd gt) < steps_left th" "th_request (snd gt) = th_request th" by simp_all
    from Cons.IH [OF q(2) rq, of "snd gt"] gt(2) dec True show ?thesis by (auto simp: own_steps_def)
  qed
qed

text \<open>A thread that has not ended can be resumed, whatever the environment and the backend are.\<close>

lemma never_stuck:
  assumes "reach (proc_start l) (proc_step ops ir items) p" and "ps_threads p t = Some th"
    and "\<And>r. th_stage th \<noteq> Ended r"
  obtains a p' where "a \<in> {Reply (\<lambda>_. 0) 0 env, Timed_Out 0, Backend_Reply answer env, Rested env}"
    and "proc_step ops ir items p (Moves t a) p'"
proof -
  note inv = proc.reach_inv [OF assms(1)]
  let ?A = "{Reply (\<lambda>_. 0) 0 env, Timed_Out 0, Backend_Reply answer env, Rested env}"
  have "\<exists>a \<in> ?A. \<exists>gt. resume items t a th (ps_gateway p) = Some gt"
  proof (cases "th_stage th")
    case (Checking route d)
    then have "resume items t (Reply (\<lambda>_. 0) 0 env) th (ps_gateway p) \<noteq> None"
      by (auto simp: Let_def split: prod.splits sum.splits)
    then show ?thesis by blast
  next
    case (Queued route)
    obtain c where c: "th_client th = Some c" "c_status c = Waiting" by (rule queued_client [OF inv assms(2) Queued])
    have "con_inv l (gates_of p)" using inv by (simp add: proc_inv_def con.reach_inv)
    then have "\<exists>e. c_status (snd (timeout_client t 0 c (gw_concurrency (ps_gateway p)))) = Finished (Some e)"
      using timeout_client_leaves [of l "gates_of p" t c 0] assms(2) c
      by (cases "timeout_client t 0 c (gw_concurrency (ps_gateway p))") simp
    then show ?thesis using Queued c by (intro bexI [of _ "Timed_Out 0"]) (auto split: prod.splits)
  next
    case (Awaiting route dl att ls lb q)
    then have "resume items t (Backend_Reply answer env) th (ps_gateway p) \<noteq> None"
      by (auto simp: Let_def split: prod.splits closing.splits bool.splits)
    then show ?thesis by blast
  next
    case (Resting route dl att ls lb)
    then show ?thesis by (intro bexI [of _ "Rested env"]) simp_all
  next
    case (Ended r)
    with assms(3) show ?thesis by blast
  qed
  with proc_moves [OF assms(2)] that show ?thesis by blast
qed

lemma steps_left_bound:
  assumes "proc_inv l p" and "ps_threads p t = Some th" and "counts_ok th"
  shows "steps_left th \<le> 2 * attempts_of (th_request th) + 5"
proof (cases "th_stage th")
  case (Queued route)
  then obtain c where "th_client th = Some c" "c_path c = thread_path (th_request th) route"
    using proc_inv_thread [OF assms(1,2)] by (auto simp: thread_fits_def holds_path_def)
  with Queued show ?thesis by (simp add: steps_left_def Let_def thread_path_def gate_path_def)
qed (simp_all add: steps_left_def Let_def)

section \<open>An example\<close>

text \<open>
  Two requests compete for a tenant's only slot: the second waits, is woken when the first has its
  answer, is sent itself, fails, rests, and is answered in the end.
\<close>

definition ex_process :: "mem_db process" where
  "ex_process =
     \<lparr> ps_gateway = ex_gateway [], ps_checker = ex_checker, ps_threads = Map.empty \<rparr>"

definition ex_both :: "mem_db event list" where
  "ex_both =
     (let e = ex_attempt (Inl (HttpxError ConnectError)) 20 in
      [Arrives 0 ex_request 10 Answered, Arrives 1 ex_request 10 Answered,
       Moves 0 (Reply (\<lambda>_. 0) 20 e), Moves 1 (Reply (\<lambda>_. 0) 20 e)])"

definition ex_served :: "mem_db event list" where
  "ex_served =
     (let e = ex_attempt (Inl (HttpxError ConnectError)) 20; ok = Inr \<lparr> rs_status_code = 200, rs_headers = [], rs_content = [] \<rparr> in
      [Moves 0 (Backend_Reply ok e), Probed 1 False, Redis_Becomes [], Moves 1 (Woken (\<lambda>_. 0) 20 e),
       Moves 1 (Backend_Reply (Inl (HttpxError ConnectError)) e), Moves 1 (Rested e), Moves 1 (Backend_Reply ok e)])"

definition ex_waiting :: "mem_db process" where
  "ex_waiting = (case proc_exec memory_server 0 lower_items ex_both ex_process of Some p \<Rightarrow> p | None \<Rightarrow> ex_process)"

definition ex_answered :: "mem_db process" where
  "ex_answered = (case proc_exec memory_server 0 lower_items ex_served ex_waiting of Some p \<Rightarrow> p | None \<Rightarrow> ex_process)"

lemma ex_process_start: "proc_start ex_limits ex_process"
  by (simp add: proc_start_def ex_process_def ex_gateway_def sane_limits_def ex_limits_def default_limits_def
      ex_manager_def new_manager_def new_gate_def)

lemma ex_process_runs:
  "steps (proc_step memory_server 0 lower_items) ex_process ex_both ex_waiting"
  "steps (proc_step memory_server 0 lower_items) ex_waiting ex_served ex_answered"
proof -
  have "case proc_exec memory_server 0 lower_items ex_both ex_process of None \<Rightarrow> False | Some _ \<Rightarrow> True"
    "case proc_exec memory_server 0 lower_items ex_served ex_waiting of None \<Rightarrow> False | Some _ \<Rightarrow> True"
    by (code_simp, code_simp)
  then show "steps (proc_step memory_server 0 lower_items) ex_process ex_both ex_waiting"
    "steps (proc_step memory_server 0 lower_items) ex_waiting ex_served ex_answered"
    by (auto simp: proc_exec_steps ex_waiting_def ex_answered_def split: option.splits)
qed

lemma ex_process_reached:
  "reach (proc_start ex_limits) (proc_step memory_server 0 lower_items) ex_waiting"
  "reach (proc_start ex_limits) (proc_step memory_server 0 lower_items) ex_answered"
  using reach_steps [OF reach_start [of "proc_start ex_limits", OF ex_process_start] ex_process_runs(1)]
    reach_steps [OF _ ex_process_runs(2)] by blast+

section \<open>Properties of the process\<close>

text \<open>C5.
  Every request ends. Once it has arrived, a request is resumed at most
  \<^verbatim>\<open>2 * max_attempts + 5\<close> times, however its steps interleave with those of other requests, of
  the health checker and of other gateways, and as long as it has not ended there is a step it can
  take: it never waits for something that may not come.\<close>

theorem request_terminates:
  assumes "reach (proc_start l) (proc_step ops ir items) p" and "ps_threads p t = Some th"
    and "steps (proc_step ops ir items) p es p'"
  shows "own_steps t es \<le> 2 * attempts_of (th_request th) + 5
    \<and> (\<exists>th'. ps_threads p' t = Some th'
        \<and> ((\<exists>r. th_stage th' = Ended r) \<or> (\<exists>a q. proc_step ops ir items p' (Moves t a) q)))"
proof -
  obtain th' where th': "ps_threads p' t = Some th'" "own_steps t es + steps_left th' \<le> steps_left th"
    using own_steps_bounded [OF assms(3,1,2)] by blast
  have "steps_left th \<le> 2 * attempts_of (th_request th) + 5"
    by (rule steps_left_bound [OF proc.reach_inv [OF assms(1)] assms(2) reach_counts [OF assms(1,2)]])
  moreover have "reach (proc_start l) (proc_step ops ir items) p'" by (rule reach_steps [OF assms(1,3)])
  note reached = this
  have "(\<exists>r. th_stage th' = Ended r) \<or> (\<exists>a q. proc_step ops ir items p' (Moves t a) q)"
    using never_stuck [OF reached th'(1)] by metis
  with th' calculation show ?thesis by auto
qed

theorem request_terminates_witness:
  "own_steps 1 ex_served = 4 \<and> own_steps 1 ex_served \<le> 2 * attempts_of ex_request + 5
   \<and> (\<exists>th r. ps_threads ex_answered 1 = Some th \<and> th_stage th = Ended r)"
proof -
  have "case ps_threads ex_waiting 1 of None \<Rightarrow> False | Some th \<Rightarrow> attempts_of (th_request th) = attempts_of ex_request"
    by code_simp
  then obtain th where th: "ps_threads ex_waiting 1 = Some th" "attempts_of (th_request th) = attempts_of ex_request"
    by (auto split: option.splits)
  have four: "own_steps 1 ex_served = 4" by code_simp
  have "case ps_threads ex_answered 1 of None \<Rightarrow> False | Some th \<Rightarrow> (case th_stage th of Ended _ \<Rightarrow> True | _ \<Rightarrow> False)"
    by code_simp
  then have "\<exists>th r. ps_threads ex_answered 1 = Some th \<and> th_stage th = Ended r" by (auto split: option.splits stage.splits)
  with request_terminates [OF ex_process_reached(1) th(1) ex_process_runs(2)] th(2) four show ?thesis by simp
qed

text \<open>
  The requests inside the gates, which are the ones that use a backend: they have an attempt under
  way or rest before the next.
\<close>

definition inside :: "'db process \<Rightarrow> (request \<Rightarrow> RouteDefinition \<Rightarrow> bool) \<Rightarrow> task set" where
  "inside p P = {t. \<exists>th route. ps_threads p t = Some th \<and> stays_inside route (th_stage th) \<and> P (th_request th) route}"

lemma inside_bounded:
  assumes "proc_inv l p"
    and "\<And>req route. P req route \<Longrightarrow> g \<in> set (thread_path req route)"
    and "0 \<le> limit_of l g"
  shows "finite (inside p P) \<and> int (card (inside p P)) \<le> limit_of l g"
proof -
  have con: "con_inv l (gates_of p)" using assms(1) by (simp add: proc_inv_def con.reach_inv)
  have sub: "inside p P \<subseteq> holders (gates_of p) g"
  proof
    fix t assume "t \<in> inside p P"
    then obtain th route where th: "ps_threads p t = Some th" "stays_inside route (th_stage th)" "P (th_request th) route"
      by (auto simp: inside_def)
    then obtain c where c: "th_client th = Some c" "c_status c = Inside" "c_path c = thread_path (th_request th) route"
      using proc_inv_thread [OF assms(1) th(1)] by (auto simp: thread_fits_def holds_path_def stays_inside_def)
    then have "client_ok c" using con_inv_client [OF con, of t c] th(1) by simp
    with c assms(2) [OF th(3)] th(1) show "t \<in> holders (gates_of p) g"
      by (auto simp: holders_def held_gates_def client_ok_def)
  qed
  have fin: "finite (holders (gates_of p) g)"
    using con by (simp add: con_inv_def finite_holders)
  have "int (card (holders (gates_of p) g)) \<le> limit_of l g"
  proof (cases "gate_at (cs_manager (gates_of p)) g")
    case None
    then have "holders (gates_of p) g = {}"
      using con_inv_client [OF con] by (fastforce simp: holders_def held_gates_def dest: in_set_takeD)
    with assms(3) show ?thesis by simp
  next
    case (Some x)
    with con have "gate_fits l (gates_of p) g x" by (simp add: con_inv_def)
    then show ?thesis by (simp add: gate_fits_def gate_inv_def)
  qed
  with card_mono [OF fin sub] finite_subset [OF sub fin] show ?thesis by simp
qed

text \<open>
  The gates a request holds, as its stage has it: all of its path while it uses a backend, those
  already taken while it queues for the next, none before and after.
\<close>

definition gates_held :: "thread \<Rightarrow> gate_ref list" where
  "gates_held th =
     (case th_stage th of
        Awaiting route _ _ _ _ _ \<Rightarrow> thread_path (th_request th) route
      | Resting route _ _ _ _ \<Rightarrow> thread_path (th_request th) route
      | Queued route \<Rightarrow>
          take (case th_client th of None \<Rightarrow> 0 | Some c \<Rightarrow> c_held c) (thread_path (th_request th) route)
      | _ \<Rightarrow> [])"

definition holding :: "'db process \<Rightarrow> gate_ref \<Rightarrow> task set" where
  "holding p r = {t. \<exists>th. ps_threads p t = Some th \<and> r \<in> set (gates_held th)}"

lemma client_gates_held:
  assumes "proc_inv l p" and "ps_threads p t = Some th"
  shows "gates_held th = (case th_client th of None \<Rightarrow> [] | Some c \<Rightarrow> held_gates c)"
proof -
  have "con_inv l (gates_of p)" using assms(1) by (simp add: proc_inv_def con.reach_inv)
  then have ok: "client_ok c" if "th_client th = Some c" for c
    using con_inv_client [of l "gates_of p" t c] assms(2) that by simp
  show ?thesis
    using proc_inv_thread [OF assms] ok
    by (auto simp: gates_held_def thread_fits_def holds_path_def held_gates_def client_ok_def split: stage.splits option.splits)
qed

lemma holders_holding:
  assumes "proc_inv l p"
  shows "holders (gates_of p) r = holding p r"
proof (rule set_eqI)
  fix t
  show "t \<in> holders (gates_of p) r \<longleftrightarrow> t \<in> holding p r"
  proof (cases "ps_threads p t")
    case (Some th)
    with client_gates_held [OF assms Some] show ?thesis
      by (cases "th_client th") (simp_all add: holders_def holding_def)
  qed (simp add: holders_def holding_def)
qed

lemma ended_waits_nowhere:
  assumes "proc_inv l p" and "ps_threads p t = Some th" and "th_stage th = Ended res"
  shows "t \<notin> waiting_at (gates_of p) r"
  using proc_inv_thread [OF assms(1,2)] assms(2,3) by (auto simp: waiting_at_def thread_fits_def)

text \<open>C7.
  Every slot comes back. At every moment of every interleaving, a gate's \<^verbatim>\<open>in_flight\<close> counter is
  the number of requests that hold it, and a request that has ended, with an answer or with an
  exception, holds no gate and waits for none. So when all requests have ended, every gate is as it
  was created: nothing in flight, all slots of its limit free, nobody in the queue.\<close>

theorem process_returns_slots:
  assumes "reach (proc_start l) (proc_step ops ir items) p"
    and "gate_at (gw_concurrency (ps_gateway p)) r = Some g"
  shows "g_in_flight g = int (card (holding p r))
    \<and> (\<forall>t th res. ps_threads p t = Some th \<and> th_stage th = Ended res \<longrightarrow>
         t \<notin> holding p r \<and> t \<notin> fst ` set (sem_waiters (g_semaphore g)))
    \<and> ((\<forall>t th. ps_threads p t = Some th \<longrightarrow> (\<exists>res. th_stage th = Ended res)) \<longrightarrow>
         g_in_flight g = 0 \<and> sem_value (g_semaphore g) = limit_of l r \<and> sem_waiters (g_semaphore g) = [])"
proof -
  note inv = proc.reach_inv [OF assms(1)]
  have "con_inv l (gates_of p)" using inv by (simp add: proc_inv_def con.reach_inv)
  with assms(2) have fits: "gate_fits l (gates_of p) r g" by (simp add: con_inv_def)
  then have count: "g_in_flight g = int (card (holding p r))" by (simp add: gate_fits_def holders_holding [OF inv])
  have wait: "fst ` set (sem_waiters (g_semaphore g)) = waiting_at (gates_of p) r"
    using fits by (simp add: gate_fits_def)
  have ended: "t \<notin> holding p r \<and> t \<notin> fst ` set (sem_waiters (g_semaphore g))"
    if "ps_threads p t = Some th" "th_stage th = Ended res" for t th res
    using that ended_waits_nowhere [OF inv that] by (simp add: wait holding_def gates_held_def)
  moreover have "g_in_flight g = 0 \<and> sem_value (g_semaphore g) = limit_of l r \<and> sem_waiters (g_semaphore g) = []"
    if all: "\<forall>t th. ps_threads p t = Some th \<longrightarrow> (\<exists>res. th_stage th = Ended res)"
  proof -
    have "holding p r = {}" "waiting_at (gates_of p) r = {}"
      using all ended wait by (fastforce simp: holding_def waiting_at_def bind_eq_Some_conv)+
    then show ?thesis using fits count wait by (auto simp: gate_fits_def gate_inv_def awake_def)
  qed
  ultimately show ?thesis using count by blast
qed

lemma proc_exec_threads:
  assumes "proc_exec ops ir items es p = Some p'" and "ps_threads p' t = Some th"
  shows "ps_threads p t \<noteq> None \<or> (\<exists>req clock fault. Arrives t req clock fault \<in> set es)"
  using assms
proof (induction es arbitrary: p)
  case (Cons e es)
  then obtain p1 where p1: "proc_apply ops ir items e p = Some p1" "proc_exec ops ir items es p1 = Some p'"
    by (auto simp: bind_eq_Some_conv)
  have "ps_threads p t \<noteq> None \<or> (\<exists>req clock fault. e = Arrives t req clock fault)" if "ps_threads p1 t \<noteq> None"
    using p1(1) that by (cases e) (auto simp: note_probe_def set_redis_def split: option.splits prod.splits if_splits)
  with Cons.IH [OF p1(2) Cons.prems(2)] show ?case by auto
qed simp

theorem process_returns_slots_witness:
  "g_in_flight (the (gate_at (gw_concurrency (ps_gateway ex_waiting)) (Tenant_Gate ''tenant:acme''))) = 1
   \<and> holding ex_waiting (Tenant_Gate ''tenant:acme'') = {0}
   \<and> g_in_flight (the (gate_at (gw_concurrency (ps_gateway ex_answered)) (Tenant_Gate ''tenant:acme''))) = 0
   \<and> sem_value (g_semaphore (the (gate_at (gw_concurrency (ps_gateway ex_answered)) (Tenant_Gate ''tenant:acme'')))) = 1"
proof -
  let ?r = "Tenant_Gate ''tenant:acme''"
  let ?g = "the (gate_at (gw_concurrency (ps_gateway ex_waiting)) ?r)"
  let ?h = "the (gate_at (gw_concurrency (ps_gateway ex_answered)) ?r)"
  have gates: "gate_at (gw_concurrency (ps_gateway ex_waiting)) ?r = Some ?g"
    "gate_at (gw_concurrency (ps_gateway ex_answered)) ?r = Some ?h" by (code_simp, code_simp)
  have one: "g_in_flight ?g = 1" and lim: "limit_of ex_limits ?r = 1" by (code_simp, code_simp)
  have runs: "proc_exec memory_server 0 lower_items (ex_both @ ex_served) ex_process = Some ex_answered"
    using ex_process_runs by (simp add: proc_exec_steps proc_exec_append)
  have two: "t = 0 \<or> t = 1" if "ps_threads ex_answered t = Some th" for t th
    using proc_exec_threads [OF runs that] by (auto simp: ex_process_def ex_both_def ex_served_def Let_def)
  have "case ps_threads ex_answered 0 of None \<Rightarrow> False | Some th \<Rightarrow> (case th_stage th of Ended _ \<Rightarrow> True | _ \<Rightarrow> False)"
    "case ps_threads ex_answered 1 of None \<Rightarrow> False | Some th \<Rightarrow> (case th_stage th of Ended _ \<Rightarrow> True | _ \<Rightarrow> False)"
    by (code_simp, code_simp)
  then have all: "\<forall>t th. ps_threads ex_answered t = Some th \<longrightarrow> (\<exists>res. th_stage th = Ended res)"
    using two by (fastforce split: option.splits stage.splits)
  have "g_in_flight ?h = 0 \<and> sem_value (g_semaphore ?h) = 1"
    using process_returns_slots [OF ex_process_reached(2) gates(2)] all lim by simp
  moreover have "case ps_threads ex_waiting 0 of None \<Rightarrow> False | Some th \<Rightarrow> ?r \<in> set (gates_held th)" by code_simp
  then have "0 \<in> holding ex_waiting ?r" by (auto simp: holding_def split: option.splits)
  moreover have "card (holding ex_waiting ?r) = 1"
    using process_returns_slots [OF ex_process_reached(1) gates(1)] one by simp
  ultimately have "holding ex_waiting ?r = {0}" "g_in_flight ?h = 0" "sem_value (g_semaphore ?h) = 1"
    by (auto simp: card_1_singleton_iff)
  with one show ?thesis by simp
qed

text \<open>C3.
  The limits hold for the process as a whole. At every moment of every interleaving, at most
  \<^verbatim>\<open>max_global\<close> requests have an attempt at a backend under way or rest before the next one, at
  most \<^verbatim>\<open>max_per_tenant\<close> of any tenant, \<^verbatim>\<open>max_per_route\<close> of any route and
  \<^verbatim>\<open>max_per_backend\<close> at any backend service.\<close>

theorem process_within_limits:
  assumes "reach (proc_start l) (proc_step ops ir items) p"
  shows "finite (inside p (\<lambda>req route. True))
    \<and> int (card (inside p (\<lambda>req route. True))) \<le> max_global l
    \<and> int (card (inside p (\<lambda>req route. rq_tenant_id req = tenant))) \<le> max_per_tenant l
    \<and> int (card (inside p (\<lambda>req route. rt_id route = rid))) \<le> max_per_route l
    \<and> int (card (inside p (\<lambda>req route. rt_backend_service_id route = service))) \<le> max_per_backend l"
proof -
  note inv = proc.reach_inv [OF assms]
  have sane: "sane_limits l" and con: "con_inv l (gates_of p)"
    using inv by (simp_all add: proc_inv_def con.reach_inv)
  have "gate_fits l (gates_of p) Global_Gate (m_global (gw_concurrency (ps_gateway p)))"
    using con unfolding con_inv_def by (metis gate_at.simps(1) gates_of_fields(1))
  then have "0 \<le> max_global l" by (simp add: gate_fits_def gate_inv_def)
  then show ?thesis
    using inside_bounded [OF inv, of "\<lambda>req route. True" Global_Gate]
      inside_bounded [OF inv, of "\<lambda>req route. rq_tenant_id req = tenant" "Tenant_Gate (''tenant:'' @ tenant)"]
      inside_bounded [OF inv, of "\<lambda>req route. rt_id route = rid" "Route_Gate (''route:'' @ rid)"]
      inside_bounded [OF inv, of "\<lambda>req route. rt_backend_service_id route = service" "Backend_Gate (''backend:'' @ service)"]
      sane
    by (simp add: thread_path_def gate_path_def sane_limits_def)
qed

theorem process_within_limits_witness:
  "0 \<in> inside ex_waiting (\<lambda>req route. rq_tenant_id req = ''acme'')
   \<and> int (card (inside ex_waiting (\<lambda>req route. rq_tenant_id req = ''acme''))) \<le> 1"
proof -
  have "case ps_threads ex_waiting 0 of None \<Rightarrow> False
      | Some th \<Rightarrow> rq_tenant_id (th_request th) = ''acme'' \<and> (case th_stage th of Awaiting _ _ _ _ _ _ \<Rightarrow> True | _ \<Rightarrow> False)"
    by code_simp
  then have "0 \<in> inside ex_waiting (\<lambda>req route. rq_tenant_id req = ''acme'')"
    by (auto simp: inside_def stays_inside_def split: option.splits stage.splits)
  moreover have "max_per_tenant ex_limits = 1" by (simp add: ex_limits_def)
  ultimately show ?thesis using process_within_limits [OF ex_process_reached(1), of "''acme''"] by simp
qed

end
