(* ===== verification/Logging.thy ===== *)
theory Logging
  imports Sentinel_Prelude
begin

text \<open>
  Secret redaction and the JSON log formatter of \<^verbatim>\<open>src/packages/common/logging.py\<close>. Values
  that reach a log record are Python objects: \<open>py_value\<close> has the containers
  \<^verbatim>\<open>_redact\<close> looks into, tuples, which it does not look into, and atoms. A dictionary key
  that is not a string has no \<^verbatim>\<open>lower\<close>, so redaction raises. The JSON library that turns a
  payload into a line is a parameter, \<open>dumps\<close>, which may raise; the locale \<open>json_dumps\<close>
  has what the code relies on: it takes what its documentation says it takes.

  The lemmas show that redaction never fails on string keys, changes nothing else and can be
  repeated, that a redacted value without tuples holds no secret at any depth, and what a configured
  process writes: one line for every call at or above the configured level, in order, each of a
  payload without a secret, as long as the extra fields are tuple-free JSON.
\<close>

section \<open>Values\<close>

datatype py_value =
    PNone
  | PBool bool
  | PInt int
  | PFloat rat
  | PStr string
  | PList "py_value list"
  | PTuple "py_value list"
  | PDict "(py_value \<times> py_value) list"

definition REDACTED_KEYS :: "string list" where
  "REDACTED_KEYS = [''authorization'', ''cookie'', ''api_key'', ''api-key'', ''x-api-key'', ''password'']"

definition redacted_mark :: py_value where
  "redacted_mark = PStr ''***REDACTED***''"

definition is_secret_key :: "py_value \<Rightarrow> bool" where
  "is_secret_key k = (case k of PStr s \<Rightarrow> py_lower s \<in> set REDACTED_KEYS | _ \<Rightarrow> False)"

definition attribute_error :: exn where
  "attribute_error = OtherException ''AttributeError: lower''"

section \<open>Redaction\<close>

fun redact :: "py_value \<Rightarrow> exn + py_value"
  and redact_items :: "(py_value \<times> py_value) list \<Rightarrow> exn + (py_value \<times> py_value) list"
  and redact_list :: "py_value list \<Rightarrow> exn + py_value list" where
  "redact (PDict d) = (case redact_items d of Inl e \<Rightarrow> Inl e | Inr d' \<Rightarrow> Inr (PDict d'))"
| "redact (PList l) = (case redact_list l of Inl e \<Rightarrow> Inl e | Inr l' \<Rightarrow> Inr (PList l'))"
| "redact PNone = Inr PNone"
| "redact (PBool b) = Inr (PBool b)"
| "redact (PInt i) = Inr (PInt i)"
| "redact (PFloat x) = Inr (PFloat x)"
| "redact (PStr s) = Inr (PStr s)"
| "redact (PTuple t) = Inr (PTuple t)"
| "redact_items [] = Inr []"
| "redact_items ((k, v) # d) =
     (case k of
        PStr s \<Rightarrow>
          (case (if py_lower s \<in> set REDACTED_KEYS then Inr redacted_mark else redact v) of
             Inl e \<Rightarrow> Inl e
           | Inr v' \<Rightarrow> (case redact_items d of Inl e \<Rightarrow> Inl e | Inr d' \<Rightarrow> Inr ((k, v') # d')))
      | _ \<Rightarrow> Inl attribute_error)"
| "redact_list [] = Inr []"
| "redact_list (v # l) =
     (case redact v of
        Inl e \<Rightarrow> Inl e
      | Inr v' \<Rightarrow> (case redact_list l of Inl e \<Rightarrow> Inl e | Inr l' \<Rightarrow> Inr (v' # l')))"

section \<open>The formatter\<close>

record LogRecord =
  lr_level :: string
  lr_message :: string
  lr_logger :: string
  lr_extra_fields :: "(py_value, py_value) dict option"
  lr_exc_info :: "string option"

text \<open>
  The payload of \<^verbatim>\<open>JsonFormatter.format\<close>, before it is serialised; \<open>timestamp\<close> is the
  clock's text. An empty \<^verbatim>\<open>extra\<close> is falsy.
\<close>

definition log_payload :: "string \<Rightarrow> LogRecord \<Rightarrow> exn + (py_value, py_value) dict" where
  "log_payload timestamp r =
     (let base = [(PStr ''timestamp'', PStr timestamp), (PStr ''level'', PStr (lr_level r)),
                  (PStr ''message'', PStr (lr_message r)), (PStr ''logger'', PStr (lr_logger r))];
          with_extra = (case lr_extra_fields r of
              None \<Rightarrow> Inr base
            | Some extra \<Rightarrow>
                if extra = [] then Inr base
                else (case redact_items extra of Inl e \<Rightarrow> Inl e | Inr e' \<Rightarrow> Inr (dict_update base e')))
      in case with_extra of
           Inl e \<Rightarrow> Inl e
         | Inr p \<Rightarrow> Inr (case lr_exc_info r of None \<Rightarrow> p | Some x \<Rightarrow> dict_set p (PStr ''exception'') (PStr x)))"

text \<open>The whole of \<^verbatim>\<open>format\<close>: the payload, then \<^verbatim>\<open>orjson.dumps(payload).decode()\<close>.\<close>

definition json_format ::
  "((py_value, py_value) dict \<Rightarrow> exn + string) \<Rightarrow> string \<Rightarrow> LogRecord \<Rightarrow> exn + string" where
  "json_format dumps timestamp r = (case log_payload timestamp r of Inl e \<Rightarrow> Inl e | Inr p \<Rightarrow> dumps p)"

text \<open>
  \<^verbatim>\<open>_ExtraAdapter.process\<close>: the keyword \<^verbatim>\<open>extra\<close> of a call becomes the record's
  \<^verbatim>\<open>extra_fields\<close>. A logger that is not wrapped in the adapter sets each entry as an
  attribute of its own, which the formatter never reads.
\<close>

definition adapter_record ::
  "string \<Rightarrow> string \<Rightarrow> string \<Rightarrow> (py_value, py_value) dict option \<Rightarrow> string option \<Rightarrow> LogRecord" where
  "adapter_record level msg logger extra exc =
     \<lparr> lr_level = level, lr_message = msg, lr_logger = logger, lr_extra_fields = extra, lr_exc_info = exc \<rparr>"

definition plain_record ::
  "string \<Rightarrow> string \<Rightarrow> string \<Rightarrow> (py_value, py_value) dict option \<Rightarrow> string option \<Rightarrow> LogRecord" where
  "plain_record level msg logger extra exc =
     \<lparr> lr_level = level, lr_message = msg, lr_logger = logger, lr_extra_fields = None, lr_exc_info = exc \<rparr>"

section \<open>The root logger\<close>

text \<open>
  What \<^verbatim>\<open>configure_logging\<close> uses of the standard library: the root logger with its level and
  handlers. Loggers that \<^verbatim>\<open>get_logger\<close> wraps have no level and no handlers of their own, so
  a call counts if its level reaches that of the root, and goes to the handlers of the root. A
  handler that is not the one installed here is \<open>Foreign_Handler\<close>.
\<close>

datatype log_handler = Json_Handler | Foreign_Handler

record log_root =
  root_level :: int
  root_handlers :: "log_handler list"

definition level_number :: "string \<Rightarrow> int option" where
  "level_number =
     map_of [(''CRITICAL'', 50), (''FATAL'', 50), (''ERROR'', 40), (''WARN'', 30), (''WARNING'', 30),
             (''INFO'', 20), (''DEBUG'', 10), (''NOTSET'', 0)]"

text \<open>The handlers are replaced before \<^verbatim>\<open>setLevel\<close> may raise for an unknown level.\<close>

definition configure_logging :: "string \<Rightarrow> log_root \<Rightarrow> (log_root, unit) outcome" where
  "configure_logging level rt =
     (let rt1 = rt\<lparr>root_handlers := [Json_Handler]\<rparr> in
      case level_number level of
        None \<Rightarrow> (rt1, Inl (ValueError (''Unknown level: '' @ level)))
      | Some n \<Rightarrow> (rt1\<lparr>root_level := n\<rparr>, Inr ()))"

text \<open>
  A logger of \<^verbatim>\<open>get_logger\<close> takes the level of a call, its message, the keyword
  \<^verbatim>\<open>extra\<close> and, for \<^verbatim>\<open>exception\<close>, the traceback. A call is the record it makes and
  the time at which it is formatted.
\<close>

definition get_logger ::
  "string \<Rightarrow> string \<Rightarrow> string \<Rightarrow> (py_value, py_value) dict option \<Rightarrow> string option \<Rightarrow> LogRecord" where
  "get_logger name level msg extra exc = adapter_record level msg name extra exc"

record log_call =
  lc_record :: LogRecord
  lc_timestamp :: string

definition is_enabled :: "int \<Rightarrow> log_call \<Rightarrow> bool" where
  "is_enabled threshold c = (case level_number (lr_level (lc_record c)) of None \<Rightarrow> False | Some n \<Rightarrow> threshold \<le> n)"

text \<open>
  The lines a call writes to the standard output. An exception while a record is formatted stays in
  the handler, and the line is lost.
\<close>

fun emit :: "((py_value, py_value) dict \<Rightarrow> exn + string) \<Rightarrow> log_handler \<Rightarrow> log_call \<Rightarrow> string list" where
  "emit dumps Json_Handler c = (case json_format dumps (lc_timestamp c) (lc_record c) of Inl e \<Rightarrow> [] | Inr line \<Rightarrow> [line])"
| "emit dumps Foreign_Handler c = []"

definition log_lines :: "((py_value, py_value) dict \<Rightarrow> exn + string) \<Rightarrow> log_root \<Rightarrow> log_call \<Rightarrow> string list" where
  "log_lines dumps rt c =
     (if is_enabled (root_level rt) c then concat (map (\<lambda>h. emit dumps h c) (root_handlers rt)) else [])"

definition log_output :: "((py_value, py_value) dict \<Rightarrow> exn + string) \<Rightarrow> log_root \<Rightarrow> log_call list \<Rightarrow> string list" where
  "log_output dumps rt cs = concat (map (log_lines dumps rt) cs)"

section \<open>Specification\<close>

fun is_str :: "py_value \<Rightarrow> bool" where
  "is_str (PStr s) = True"
| "is_str _ = False"

lemma is_str_iff [simp]: "is_str k \<longleftrightarrow> (\<exists>s. k = PStr s)"
  by (cases k) simp_all

text \<open>No secret key holds anything but the mark, in dictionaries, lists and tuples at any depth.\<close>

fun no_secrets :: "py_value \<Rightarrow> bool"
  and no_secret_items :: "(py_value \<times> py_value) list \<Rightarrow> bool"
  and no_secret_list :: "py_value list \<Rightarrow> bool" where
  "no_secrets (PDict d) = no_secret_items d"
| "no_secrets (PList l) = no_secret_list l"
| "no_secrets (PTuple l) = no_secret_list l"
| "no_secrets _ = True"
| "no_secret_items [] = True"
| "no_secret_items ((k, v) # d) \<longleftrightarrow>
     (if is_secret_key k then v = redacted_mark else no_secrets v) \<and> no_secret_items d"
| "no_secret_list [] = True"
| "no_secret_list (v # l) \<longleftrightarrow> no_secrets v \<and> no_secret_list l"

text \<open>
  What the JSON library takes: string keys, integers of 64 bits, containers nested at most 254
  deep, which leaves \<open>n\<close> for a value inside.
\<close>

fun json_value :: "nat \<Rightarrow> py_value \<Rightarrow> bool"
  and json_items :: "nat \<Rightarrow> (py_value \<times> py_value) list \<Rightarrow> bool"
  and json_list :: "nat \<Rightarrow> py_value list \<Rightarrow> bool" where
  "json_value n (PDict d) \<longleftrightarrow> 0 < n \<and> json_items (n - 1) d"
| "json_value n (PList l) \<longleftrightarrow> 0 < n \<and> json_list (n - 1) l"
| "json_value n (PTuple l) \<longleftrightarrow> 0 < n \<and> json_list (n - 1) l"
| "json_value n (PInt i) \<longleftrightarrow> - (2 ^ 63) < i \<and> i < 2 ^ 64"
| "json_value n _ \<longleftrightarrow> True"
| "json_items n [] \<longleftrightarrow> True"
| "json_items n ((k, v) # d) \<longleftrightarrow> is_str k \<and> json_value n v \<and> json_items n d"
| "json_list n [] \<longleftrightarrow> True"
| "json_list n (v # l) \<longleftrightarrow> json_value n v \<and> json_list n l"

text \<open>No tuple where redaction would have to look into it.\<close>

fun tuple_free :: "py_value \<Rightarrow> bool"
  and tuple_free_items :: "(py_value \<times> py_value) list \<Rightarrow> bool"
  and tuple_free_list :: "py_value list \<Rightarrow> bool" where
  "tuple_free (PDict d) \<longleftrightarrow> tuple_free_items d"
| "tuple_free (PList l) \<longleftrightarrow> tuple_free_list l"
| "tuple_free (PTuple l) \<longleftrightarrow> False"
| "tuple_free _ \<longleftrightarrow> True"
| "tuple_free_items [] \<longleftrightarrow> True"
| "tuple_free_items ((k, v) # d) \<longleftrightarrow> tuple_free v \<and> tuple_free_items d"
| "tuple_free_list [] \<longleftrightarrow> True"
| "tuple_free_list (v # l) \<longleftrightarrow> tuple_free v \<and> tuple_free_list l"

locale json_dumps =
  fixes dumps :: "(py_value, py_value) dict \<Rightarrow> exn + string"
  assumes dumps_ok: "json_items 253 p \<Longrightarrow> \<exists>line. dumps p = Inr line"

fun string_keys :: "py_value \<Rightarrow> bool"
  and string_key_items :: "(py_value \<times> py_value) list \<Rightarrow> bool"
  and string_key_list :: "py_value list \<Rightarrow> bool" where
  "string_keys (PDict d) = string_key_items d"
| "string_keys (PList l) = string_key_list l"
| "string_keys _ = True"
| "string_key_items [] = True"
| "string_key_items ((k, v) # d) \<longleftrightarrow> is_str k \<and> string_keys v \<and> string_key_items d"
| "string_key_list [] = True"
| "string_key_list (v # l) \<longleftrightarrow> string_keys v \<and> string_key_list l"

section \<open>Lemmas\<close>

lemma is_secret_key_Str [simp]: "is_secret_key (PStr s) \<longleftrightarrow> py_lower s \<in> set REDACTED_KEYS"
  by (simp add: is_secret_key_def)

lemma no_secrets_mark [simp]: "no_secrets redacted_mark" "redact redacted_mark = Inr redacted_mark"
  by (simp_all add: redacted_mark_def)

lemma redact_no_secrets:
  "redact v = Inr w \<Longrightarrow> tuple_free v \<Longrightarrow> no_secrets w"
  "redact_items d = Inr d' \<Longrightarrow> tuple_free_items d \<Longrightarrow> no_secret_items d'"
  "redact_list l = Inr l' \<Longrightarrow> tuple_free_list l \<Longrightarrow> no_secret_list l'"
  by (induction v and d and l arbitrary: w and d' and l' rule: redact_redact_items_redact_list.induct)
    (auto split: sum.splits py_value.splits if_splits)

lemma redact_clean:
  "no_secrets v \<Longrightarrow> string_keys v \<Longrightarrow> redact v = Inr v"
  "no_secret_items d \<Longrightarrow> string_key_items d \<Longrightarrow> redact_items d = Inr d"
  "no_secret_list l \<Longrightarrow> string_key_list l \<Longrightarrow> redact_list l = Inr l"
  by (induction v and d and l rule: redact_redact_items_redact_list.induct)
    (auto split: if_splits)

lemma redact_total:
  "string_keys v \<Longrightarrow> \<exists>w. redact v = Inr w \<and> string_keys w"
  "string_key_items d \<Longrightarrow> \<exists>d'. redact_items d = Inr d' \<and> string_key_items d' \<and> map fst d' = map fst d"
  "string_key_list l \<Longrightarrow> \<exists>l'. redact_list l = Inr l' \<and> string_key_list l'"
  by (induction v and d and l rule: redact_redact_items_redact_list.induct)
    (fastforce simp: redacted_mark_def)+

text \<open>Redaction keeps JSON, and so do the dictionary operations of the formatter.\<close>

lemma redact_json:
  "json_value n v \<Longrightarrow> \<exists>w. redact v = Inr w \<and> json_value n w"
  "json_items n d \<Longrightarrow> \<exists>d'. redact_items d = Inr d' \<and> json_items n d'"
  "json_list n l \<Longrightarrow> \<exists>l'. redact_list l = Inr l' \<and> json_list n l'"
  by (induction v and d and l arbitrary: n and n and n rule: redact_redact_items_redact_list.induct)
    (fastforce simp: redacted_mark_def)+

lemma json_string_keys:
  "json_value n v \<Longrightarrow> string_keys v"
  "json_items n d \<Longrightarrow> string_key_items d"
  "json_list n l \<Longrightarrow> string_key_list l"
  by (induction n v and n d and n l rule: json_value_json_items_json_list.induct) auto

lemma json_dict_set: "json_items n d \<Longrightarrow> json_value n v \<Longrightarrow> json_items n (dict_set d (PStr k) v)"
  by (induction d) auto

lemma json_dict_update: "json_items n d \<Longrightarrow> json_items n e \<Longrightarrow> json_items n (dict_update d e)"
proof (induction e arbitrary: d)
  case (Cons p e)
  then obtain k v where "p = (PStr k, v)" by (cases p) auto
  with Cons json_dict_set [OF Cons.prems(1), of v k] show ?case by simp
qed simp

lemma no_secret_dict_set:
  "no_secret_items d \<Longrightarrow> (if is_secret_key k then v = redacted_mark else no_secrets v) \<Longrightarrow>
   no_secret_items (dict_set d k v)"
  by (induction d) auto

lemma no_secret_dict_update:
  "no_secret_items d \<Longrightarrow> no_secret_items e \<Longrightarrow> no_secret_items (dict_update d e)"
proof (induction e arbitrary: d)
  case (Cons p e)
  then show ?case using no_secret_dict_set [OF Cons.prems(1), of "fst p" "snd p"] by (cases p) simp
qed simp

lemma dict_get_update_other: "k \<notin> fst ` set e \<Longrightarrow> dict_get (dict_update d e) k = dict_get d k"
  by (induction e arbitrary: d) auto

lemma dict_get_update:
  "distinct (map fst e) \<Longrightarrow> (k, v) \<in> set e \<Longrightarrow> dict_get (dict_update d e) k = Some v"
  by (induction e arbitrary: d) (auto simp: dict_get_update_other)

section \<open>Lines\<close>

lemma log_payload_redacted:
  assumes "lr_extra_fields r = Some extra" and "json_items n extra" and "tuple_free_items extra"
  shows "\<exists>p. log_payload ts r = Inr p \<and> no_secret_items p \<and> json_items n p
    \<and> (no_secret_items extra \<and> distinct (map fst extra) \<longrightarrow>
        (\<forall>(k, v) \<in> set extra. k \<noteq> PStr ''exception'' \<longrightarrow> dict_get p k = Some v))"
proof -
  let ?base = "[(PStr ''timestamp'', PStr ts), (PStr ''level'', PStr (lr_level r)),
    (PStr ''message'', PStr (lr_message r)), (PStr ''logger'', PStr (lr_logger r))]"
  have plain: "\<not> is_secret_key (PStr ''timestamp'')" "\<not> is_secret_key (PStr ''level'')"
    "\<not> is_secret_key (PStr ''message'')" "\<not> is_secret_key (PStr ''logger'')"
    "\<not> is_secret_key (PStr ''exception'')"
    by (code_simp, code_simp, code_simp, code_simp, code_simp)
  have base: "no_secret_items ?base" "json_items n ?base"
    by (simp only: no_secret_items.simps no_secrets.simps plain if_False simp_thms) simp
  obtain e where e: "redact_items extra = Inr e" "json_items n e" using redact_json(2) [OF assms(2)] by blast
  have clean: "no_secret_items e" by (rule redact_no_secrets(2) [OF e(1) assms(3)])
  have same: "no_secret_items extra \<Longrightarrow> e = extra"
    using redact_clean(2) [OF _ json_string_keys(2) [OF assms(2)]] e by simp
  define q where "q = dict_update ?base e"
  have q: "no_secret_items q" "json_items n q"
    unfolding q_def by (rule no_secret_dict_update [OF base(1) clean], rule json_dict_update [OF base(2) e(2)])
  define p where "p = (case lr_exc_info r of None \<Rightarrow> q | Some x \<Rightarrow> dict_set q (PStr ''exception'') (PStr x))"
  have "extra = [] \<Longrightarrow> q = ?base" using e by (simp add: q_def)
  then have lp: "log_payload ts r = Inr p"
    using assms(1) e
    by (cases "extra = []"; cases "lr_exc_info r") (simp_all add: log_payload_def Let_def p_def q_def)
  have "no_secret_items p" "json_items n p"
    using q no_secret_dict_set [OF q(1), of "PStr ''exception''"] json_dict_set [OF q(2)] plain(5)
    by (simp_all add: p_def del: is_secret_key_Str split: option.split)
  moreover have "dict_get p k = Some v"
    if "no_secret_items extra" "distinct (map fst extra)" "(k, v) \<in> set extra" "k \<noteq> PStr ''exception''" for k v
    using dict_get_update [OF that(2,3), of ?base] same [OF that(1)] that(4)
    by (simp add: p_def q_def split: option.split)
  ultimately show ?thesis using lp by blast
qed

lemma log_payload_without_extra:
  assumes "lr_extra_fields r = None"
  shows "\<exists>p. log_payload ts r = Inr p \<and> no_secret_items p \<and> json_items n p"
proof -
  have "log_payload ts r = log_payload ts (r\<lparr>lr_extra_fields := Some []\<rparr>)"
    using assms by (simp add: log_payload_def)
  then show ?thesis using log_payload_redacted [of "r\<lparr>lr_extra_fields := Some []\<rparr>" "[]" n ts] by auto
qed

text \<open>A call whose extra fields are JSON without tuples.\<close>

definition clean_call :: "log_call \<Rightarrow> bool" where
  "clean_call c =
     (case lr_extra_fields (lc_record c) of
        None \<Rightarrow> True
      | Some extra \<Rightarrow> json_items 253 extra \<and> tuple_free_items extra)"

context json_dumps
begin

lemma clean_call_line:
  assumes "clean_call c"
  obtains p line where "log_payload (lc_timestamp c) (lc_record c) = Inr p" "no_secret_items p" "dumps p = Inr line"
proof -
  obtain p where p: "log_payload (lc_timestamp c) (lc_record c) = Inr p" "no_secret_items p" "json_items 253 p"
  proof (cases "lr_extra_fields (lc_record c)")
    case None
    with log_payload_without_extra [of _ _ 253] that show ?thesis by blast
  next
    case (Some extra)
    with assms have "json_items 253 extra" "tuple_free_items extra" by (simp_all add: clean_call_def)
    with log_payload_redacted [OF Some] that show ?thesis by blast
  qed
  with dumps_ok [OF p(3)] that show ?thesis by blast
qed

end

text \<open>A JSON library to evaluate the model with: it writes the keys of a payload, and takes no more than it must.\<close>

definition outline_dumps :: "(py_value, py_value) dict \<Rightarrow> exn + string" where
  "outline_dumps p =
     (if json_items 253 p
      then Inr (concat (map (\<lambda>(k, v). (case k of PStr s \<Rightarrow> s @ '';'' | _ \<Rightarrow> [])) p))
      else Inl (OtherException ''JSONEncodeError''))"

interpretation outline: json_dumps outline_dumps
  by unfold_locales (simp add: outline_dumps_def)

lemma configure_logging_fields:
  "configure_logging level rt = (rt', Inr ()) \<Longrightarrow>
   level_number level = Some (root_level rt') \<and> root_handlers rt' = [Json_Handler]"
  by (auto simp: configure_logging_def Let_def split: option.splits)

section \<open>Properties\<close>

text \<open>C24.
  What the process writes. Once \<^verbatim>\<open>configure_logging\<close> has succeeded, whatever handlers there were
  before, every call that reaches the configured level writes exactly one line, in the order of the
  calls, and no other line is written. Each line is the JSON of a payload in which no key that names
  a secret, in whatever letter case and at whatever depth, holds anything but the mark. This is for
  calls whose extra fields are JSON (string keys, integers of 64 bits, at most 253 levels) without
  tuples: on others the formatter raises and the line is lost, and a tuple is written as it is.\<close>

theorem log_output_redacted:
  assumes "json_dumps dumps" and "configure_logging level rt = (rt', Inr ())" and "\<forall>c \<in> set cs. clean_call c"
    and "enabled = filter (is_enabled (the (level_number level))) cs"
  shows "map Inr (log_output dumps rt' cs) = map (\<lambda>c. json_format dumps (lc_timestamp c) (lc_record c)) enabled
    \<and> (\<forall>c \<in> set enabled. \<exists>p. json_format dumps (lc_timestamp c) (lc_record c) = dumps p \<and> no_secret_items p)"
  using assms(3) unfolding assms(4)
proof (induction cs)
  case Nil
  then show ?case by (simp add: log_output_def)
next
  case (Cons c cs)
  note conf = configure_logging_fields [OF assms(2)]
  obtain p line where "log_payload (lc_timestamp c) (lc_record c) = Inr p" "no_secret_items p" "dumps p = Inr line"
    using Cons.prems json_dumps.clean_call_line [OF assms(1), of c] by auto
  then have line: "json_format dumps (lc_timestamp c) (lc_record c) = Inr line"
    and "json_format dumps (lc_timestamp c) (lc_record c) = dumps p" "no_secret_items p" by (simp_all add: json_format_def)
  then have clean: "\<exists>p. json_format dumps (lc_timestamp c) (lc_record c) = dumps p \<and> no_secret_items p" by blast
  have "log_lines dumps rt' c = (if is_enabled (the (level_number level)) c then [line] else [])"
    using conf line by (simp add: log_lines_def)
  with Cons line clean show ?case by (auto simp: log_output_def)
qed

definition ex_calls :: "log_call list" where
  "ex_calls =
     (let secret = Some [(PStr ''tenant_id'', PStr ''acme''),
                         (PStr ''headers'', PDict [(PStr ''Authorization'', PStr ''Bearer k'')])] in
      [\<lparr> lc_record = get_logger ''sentinel.gateway'' ''INFO'' ''request.completed'' secret None, lc_timestamp = ''t1'' \<rparr>,
       \<lparr> lc_record = get_logger ''sentinel.gateway'' ''DEBUG'' ''request.completed'' secret None, lc_timestamp = ''t2'' \<rparr>,
       \<lparr> lc_record = get_logger ''sentinel.health'' ''ERROR'' ''health_checker.iteration_failed'' None (Some ''tb''),
         lc_timestamp = ''t3'' \<rparr>])"

definition ex_root :: log_root where
  "ex_root = fst (configure_logging ''INFO'' \<lparr> root_level = 30, root_handlers = [Foreign_Handler] \<rparr>)"

theorem log_output_redacted_witness:
  "log_output outline_dumps ex_root ex_calls
     = [''timestamp;level;message;logger;tenant_id;headers;'', ''timestamp;level;message;logger;exception;'']
   \<and> (\<exists>p. json_format outline_dumps ''t1'' (lc_record (hd ex_calls)) = outline_dumps p \<and> no_secret_items p)"
proof -
  have c: "configure_logging ''INFO'' \<lparr> root_level = 30, root_handlers = [Foreign_Handler] \<rparr> = (ex_root, Inr ())"
    by (simp add: ex_root_def configure_logging_def level_number_def)
  have h: "\<forall>c \<in> set ex_calls. clean_call c"
    by (simp add: ex_calls_def clean_call_def get_logger_def adapter_record_def Let_def)
  have v: "log_output outline_dumps ex_root ex_calls
     = [''timestamp;level;message;logger;tenant_id;headers;'', ''timestamp;level;message;logger;exception;'']"
    by code_simp
  have first: "hd ex_calls \<in> set (filter (is_enabled (the (level_number ''INFO''))) ex_calls)"
    "lc_timestamp (hd ex_calls) = ''t1''"
    by (simp_all add: ex_calls_def Let_def is_enabled_def level_number_def get_logger_def adapter_record_def)
  from log_output_redacted [OF outline.json_dumps_axioms c h refl, THEN conjunct2, rule_format, OF first(1)]
  have "\<exists>p. json_format outline_dumps ''t1'' (lc_record (hd ex_calls)) = outline_dumps p \<and> no_secret_items p"
    unfolding first(2) .
  with v show ?thesis by blast
qed

text \<open>
  Two limits. A tuple is not looked into, so a dictionary inside one is written with its secrets; and a
  record of a logger without the adapter loses its extra fields altogether, which is what becomes
  of the rate limiter's report that Redis is unavailable.
\<close>

lemma redact_tuple_opaque: "redact (PTuple t) = Inr (PTuple t)"
  by simp

lemma unserialisable_line_is_lost:
  assumes "dumps p = Inl x" and "log_payload (lc_timestamp c) (lc_record c) = Inr p"
  shows "log_lines dumps rt c = []"
proof -
  have "emit dumps h c = []" for h using assms by (cases h) (simp_all add: json_format_def)
  then show ?thesis by (simp add: log_lines_def)
qed

lemma plain_logger_drops_extra:
  "log_payload ts (plain_record level msg logger extra exc) = log_payload ts (plain_record level msg logger None exc)"
  by (simp add: plain_record_def)

text \<open>An unknown level stops the start of the gateway with the handlers already replaced.\<close>

lemma configure_logging_unknown:
  "level_number level = None \<Longrightarrow>
   fst (configure_logging level rt) = rt\<lparr>root_handlers := [Json_Handler]\<rparr> \<and> raised (configure_logging level rt)"
  by (simp add: configure_logging_def Let_def raised_def)

lemma levels_are_upper_case: "level_number ''info'' = None"
  by (simp add: level_number_def)

end
