(* ===== verification/Cluster.thy ===== *)
theory Cluster
  imports Process Gateway
begin

text \<open>
  Several gateway processes in front of one Redis, as the deployment starts them. Each node is
  booted by \<open>startup\<close>, builds its requests from what clients send with \<open>proxy_request\<close>
  and then moves along the steps of \<open>proc_step\<close>, on a Redis whose content is the same for all
  nodes and whose clock ticks between the steps. The nodes share nothing else: gates, circuit
  breakers, selectors and health states are their own.

  Every node of the cluster is a process of \<open>Process\<close>, so that whatever holds there holds for
  each node; what the nodes do to Redis together is a history of \<open>Rate_Limiter\<close>, so that its
  bounds hold for the cluster.
\<close>

section \<open>Nodes\<close>

text \<open>
  A node: what its endpoint reads, its process, and the requests whose endpoint raised before it
  called the pipeline, with the exception.
\<close>

record 'db node =
  nd_settings :: Settings
  nd_backends :: "(string, instance_ref list) dict"
  nd_process :: "'db process"
  nd_raised :: "task \<Rightarrow> exn option"

definition boot :: "Settings \<Rightarrow> yaml_doc option \<Rightarrow> 'db \<Rightarrow> instance_store \<Rightarrow> exn + 'db node" where
  "boot s doc db st =
     and_then (startup s doc db st) (\<lambda>a.
       Inr \<lparr> nd_settings = s, nd_backends = app_backends a,
             nd_process = \<lparr> ps_gateway = app_gateway a, ps_checker = app_health_checker a, ps_threads = Map.empty \<rparr>,
             nd_raised = Map.empty \<rparr>)"

record 'db cluster =
  cl_redis :: 'db
  cl_nodes :: "nat \<Rightarrow> 'db node"

text \<open>A node as it sees Redis now, and the cluster after it has made a step.\<close>

definition node_view :: "'db cluster \<Rightarrow> nat \<Rightarrow> 'db process" where
  "node_view s g = set_redis (cl_redis s) (nd_process (cl_nodes s g))"

definition put_node :: "nat \<Rightarrow> 'db process \<Rightarrow> 'db cluster \<Rightarrow> 'db cluster" where
  "put_node g p s =
     s\<lparr>cl_redis := gw_redis (ps_gateway p), cl_nodes := (cl_nodes s)(g := (cl_nodes s g)\<lparr>nd_process := p\<rparr>)\<rparr>"

definition put_raised :: "nat \<Rightarrow> task \<Rightarrow> exn \<Rightarrow> 'db cluster \<Rightarrow> 'db cluster" where
  "put_raised g t e s =
     s\<lparr>cl_nodes := (cl_nodes s)(g := (cl_nodes s g)\<lparr>nd_raised := (nd_raised (cl_nodes s g))(t \<mapsto> e)\<rparr>)\<rparr>"

section \<open>Steps\<close>

text \<open>
  A client's request arrives at a node, as a new task. The endpoint first reads the body and builds
  the policies; a client that disconnects, or a failure mode that does not exist, makes it raise
  there, and the request ends in that exception without the pipeline having been called.
\<close>

datatype 'db cluster_event =
    Serves nat task inbound string seconds redis_fault
  | Resumes nat task "'db action"
  | Probes nat instance_ref bool
  | Passes nat

fun cluster_apply ::
  "'db redis_ops \<Rightarrow> int \<Rightarrow> (headers \<Rightarrow> headers) \<Rightarrow> 'db cluster_event \<Rightarrow> 'db cluster \<Rightarrow> 'db cluster option" where
  "cluster_apply ops inf_reply items (Serves g t q fresh clock fault) s =
     (if nd_raised (cl_nodes s g) t \<noteq> None \<or> ps_threads (nd_process (cl_nodes s g)) t \<noteq> None then None
      else
        case proxy_request (nd_settings (cl_nodes s g)) (nd_backends (cl_nodes s g)) fresh q of
          Inl e \<Rightarrow> Some (put_raised g t e s)
        | Inr req \<Rightarrow>
            map_option (\<lambda>p. put_node g p s)
              (proc_apply ops inf_reply items (Arrives t req clock fault) (node_view s g)))"
| "cluster_apply ops inf_reply items (Resumes g t a) s =
     map_option (\<lambda>p. put_node g p s) (proc_apply ops inf_reply items (Moves t a) (node_view s g))"
| "cluster_apply ops inf_reply items (Probes g r ok) s =
     map_option (\<lambda>p. put_node g p s) (proc_apply ops inf_reply items (Probed r ok) (node_view s g))"
| "cluster_apply ops inf_reply items (Passes d) s = Some (s\<lparr>cl_redis := elapse ops (cl_redis s) d\<rparr>)"

fun cluster_exec ::
  "'db redis_ops \<Rightarrow> int \<Rightarrow> (headers \<Rightarrow> headers) \<Rightarrow> 'db cluster_event list \<Rightarrow> 'db cluster \<Rightarrow> 'db cluster option" where
  "cluster_exec ops inf_reply items [] s = Some s"
| "cluster_exec ops inf_reply items (e # es) s =
     Option.bind (cluster_apply ops inf_reply items e s) (cluster_exec ops inf_reply items es)"

definition cluster_step ::
  "'db redis_ops \<Rightarrow> int \<Rightarrow> (headers \<Rightarrow> headers) \<Rightarrow> 'db cluster \<Rightarrow> 'db cluster_event \<Rightarrow> 'db cluster \<Rightarrow> bool" where
  "cluster_step ops inf_reply items s e s' \<longleftrightarrow> cluster_apply ops inf_reply items e s = Some s'"

lemma cluster_exec_steps:
  "steps (cluster_step ops ir items) s es s' \<longleftrightarrow> cluster_exec ops ir items es s = Some s'"
  by (induction es arbitrary: s) (auto simp: cluster_step_def bind_eq_Some_conv)

text \<open>What became of a request: nothing yet, or an answer, or the exception it ended in.\<close>

definition outcome :: "'db cluster \<Rightarrow> nat \<Rightarrow> task \<Rightarrow> (exn + PipelineResult) option" where
  "outcome s g t =
     (case nd_raised (cl_nodes s g) t of
        Some e \<Rightarrow> Some (Inl e)
      | None \<Rightarrow>
          (case ps_threads (nd_process (cl_nodes s g)) t of
             None \<Rightarrow> None
           | Some th \<Rightarrow> (case th_stage th of Ended r \<Rightarrow> Some r | _ \<Rightarrow> None)))"

text \<open>All nodes have just been started, on limits that are not negative.\<close>

definition cluster_start :: "'db cluster \<Rightarrow> bool" where
  "cluster_start s \<longleftrightarrow>
     (\<forall>g. sane_limits (settings_limits (nd_settings (cl_nodes s g)))
        \<and> (\<exists>doc st. boot (nd_settings (cl_nodes s g)) doc (cl_redis s) st = Inr (cl_nodes s g)))"

section \<open>Every node is a process\<close>

lemma node_view_fields [simp]:
  "ps_threads (node_view s g) = ps_threads (nd_process (cl_nodes s g))"
  "gw_redis (ps_gateway (node_view s g)) = cl_redis s"
  by (simp_all add: node_view_def set_redis_def)

lemma put_node_fields [simp]:
  "cl_redis (put_node g p s) = gw_redis (ps_gateway p)"
  "cl_nodes (put_node g p s) h = (if h = g then (cl_nodes s g)\<lparr>nd_process := p\<rparr> else cl_nodes s h)"
  by (simp_all add: put_node_def)

lemma put_raised_fields [simp]:
  "cl_redis (put_raised g t e s) = cl_redis s"
  "nd_settings (cl_nodes (put_raised g t e s) h) = nd_settings (cl_nodes s h)"
  "nd_backends (cl_nodes (put_raised g t e s) h) = nd_backends (cl_nodes s h)"
  "nd_process (cl_nodes (put_raised g t e s) h) = nd_process (cl_nodes s h)"
  "nd_raised (cl_nodes (put_raised g t e s) h) = (if h = g then (nd_raised (cl_nodes s g))(t \<mapsto> e) else nd_raised (cl_nodes s h))"
  by (simp_all add: put_raised_def)

text \<open>Each node's part of a step is at most two steps of its process: Redis has changed, and its own.\<close>

lemma node_step_reach:
  assumes "reach (proc_start l) (proc_step ops ir items) (nd_process (cl_nodes s g))"
    and "proc_apply ops ir items e (node_view s g) = Some p"
  shows "reach (proc_start l) (proc_step ops ir items) p"
proof -
  have "proc_step ops ir items (nd_process (cl_nodes s g)) (Redis_Becomes (cl_redis s)) (node_view s g)"
    unfolding node_view_def by (rule proc_redis)
  note view = reach_step [OF assms(1) this]
  have "proc_step ops ir items (node_view s g) e p" using assms(2) by (simp only: proc_apply_iff)
  from reach_step [OF view this] show ?thesis .
qed

definition nodes_ok :: "'db redis_ops \<Rightarrow> int \<Rightarrow> (headers \<Rightarrow> headers) \<Rightarrow> 'db cluster \<Rightarrow> bool" where
  "nodes_ok ops ir items s \<longleftrightarrow>
     (\<forall>g. reach (proc_start (settings_limits (nd_settings (cl_nodes s g)))) (proc_step ops ir items)
            (nd_process (cl_nodes s g)))"

lemma boot_Inr:
  assumes "boot cfg doc db st = Inr n"
  obtains a where "startup cfg doc db st = Inr a" "nd_settings n = cfg" "nd_backends n = app_backends a"
    "nd_process n = \<lparr> ps_gateway = app_gateway a, ps_checker = app_health_checker a, ps_threads = Map.empty \<rparr>"
    "nd_raised n = Map.empty"
  using assms by (auto simp: boot_def and_then_def split: sum.splits)

lemma cluster_start_ok: "cluster_start s \<Longrightarrow> nodes_ok ops ir items s"
  unfolding nodes_ok_def
proof
  fix g
  let ?n = "cl_nodes s g"
  assume "cluster_start s"
  then obtain doc st where sane: "sane_limits (settings_limits (nd_settings ?n))"
    and bo: "boot (nd_settings ?n) doc (cl_redis s) st = Inr ?n" unfolding cluster_start_def by blast
  from bo obtain a where "startup (nd_settings ?n) doc (cl_redis s) st = Inr a"
    "nd_process ?n = \<lparr> ps_gateway = app_gateway a, ps_checker = app_health_checker a, ps_threads = Map.empty \<rparr>"
    by (rule boot_Inr)
  with sane have "proc_start (settings_limits (nd_settings ?n)) (nd_process ?n)"
    by (auto simp: proc_start_def elim: startup_Inr)
  then show "reach (proc_start (settings_limits (nd_settings ?n))) (proc_step ops ir items) (nd_process ?n)"
    by (rule reach_start)
qed

lemma put_node_ok:
  assumes "nodes_ok ops ir items s" and "proc_apply ops ir items e (node_view s g) = Some p"
  shows "nodes_ok ops ir items (put_node g p s)"
  using assms node_step_reach [OF _ assms(2)] by (simp add: nodes_ok_def)

lemma put_raised_ok: "nodes_ok ops ir items s \<Longrightarrow> nodes_ok ops ir items (put_raised g t e s)"
  by (simp add: nodes_ok_def)

lemma cluster_step_ok: "nodes_ok ops ir items s \<Longrightarrow> cluster_step ops ir items s e s' \<Longrightarrow> nodes_ok ops ir items s'"
  by (cases e) (auto simp: cluster_step_def nodes_ok_def [of ops ir items "s\<lparr>cl_redis := _\<rparr>"]
      split: sum.splits if_splits simp del: proc_apply.simps intro: put_node_ok put_raised_ok, simp add: nodes_ok_def)

interpretation cluster: invariant_system cluster_start "cluster_step ops ir items" "nodes_ok ops ir items" for ops ir items
  by unfold_locales (auto intro: cluster_start_ok cluster_step_ok)

section \<open>What the cluster asks Redis\<close>

text \<open>The check a step makes, if the request gets that far.\<close>

definition arrival_check :: "'db gateway \<Rightarrow> request \<Rightarrow> seconds \<Rightarrow> redis_fault \<Rightarrow> limiter_event list" where
  "arrival_check gw req clock fault =
     (if int (length (rq_body req)) > gw_max_body_size_bytes gw then []
      else (case match_route (gw_routes gw) (rq_tenant_id req) (rq_method req) (rq_path req) of
              Inl e \<Rightarrow> []
            | Inr route \<Rightarrow> [TokenCheck (rq_rate_limit_key req) (rq_rate_limit_policy req) clock fault]))"

fun check_of :: "'db cluster \<Rightarrow> 'db cluster_event \<Rightarrow> limiter_event list" where
  "check_of s (Serves g t q fresh clock fault) =
     (let n = cl_nodes s g in
      case proxy_request (nd_settings n) (nd_backends n) fresh q of
        Inl e \<Rightarrow> []
      | Inr req \<Rightarrow> arrival_check (ps_gateway (nd_process n)) req clock fault)"
| "check_of s (Passes d) = [Tick d]"
| "check_of s e = []"

fun cluster_checks ::
  "'db redis_ops \<Rightarrow> int \<Rightarrow> (headers \<Rightarrow> headers) \<Rightarrow> 'db cluster_event list \<Rightarrow> 'db cluster \<Rightarrow> limiter_event list" where
  "cluster_checks ops inf_reply items [] s = []"
| "cluster_checks ops inf_reply items (e # es) s =
     check_of s e @
     (case cluster_apply ops inf_reply items e s of
        None \<Rightarrow> []
      | Some s' \<Rightarrow> cluster_checks ops inf_reply items es s')"

section \<open>What the cluster forwards\<close>

text \<open>How often the request of a thread was sent, if it counts against the key \<open>k\<close>.\<close>

definition sent_for :: "string \<Rightarrow> 'db cluster \<Rightarrow> nat \<Rightarrow> task \<Rightarrow> nat" where
  "sent_for k s g t =
     (case ps_threads (nd_process (cl_nodes s g)) t of
        None \<Rightarrow> 0
      | Some th \<Rightarrow> if rq_rate_limit_key (th_request th) = k then length (th_sent th) else 0)"

text \<open>
  How often it may still come to be sent: \<open>a\<close> times from the moment the limiter admits it. The
  sum over all threads is what the key has been allowed so far.
\<close>

definition may_send :: "nat \<Rightarrow> string \<Rightarrow> thread \<Rightarrow> nat" where
  "may_send a k th =
     (if rq_rate_limit_key (th_request th) \<noteq> k then 0
      else case th_stage th of
             Checking route d \<Rightarrow> if allowed d then a else 0
           | Ended r \<Rightarrow> length (th_sent th)
           | _ \<Rightarrow> a)"

definition credit :: "nat \<Rightarrow> string \<Rightarrow> 'db cluster \<Rightarrow> nat \<Rightarrow> task \<Rightarrow> nat" where
  "credit a k s g t =
     (case ps_threads (nd_process (cl_nodes s g)) t of None \<Rightarrow> 0 | Some th \<Rightarrow> may_send a k th)"

lemma sent_within_credit:
  assumes "counts_ok th" and "attempts_of (th_request th) \<le> a" and "rq_rate_limit_key (th_request th) = k"
  shows "length (th_sent th) \<le> may_send a k th" and "may_send a k th \<le> a"
  using assms by (auto simp: counts_ok_def may_send_def attempts_of_def Let_def split: stage.splits)

lemma refused_sends_nothing:
  assumes "resume items t act th gw = Some gt" and "th_stage th = Checking route d" and "\<not> allowed d"
    and "counts_ok th"
  shows "may_send a k (snd gt) = 0"
  using assms by (cases act) (auto simp: may_send_def counts_ok_def Let_def)

lemma resume_may_send:
  assumes "proc_inv l p" and "ps_threads p t = Some th" and "counts_ok th"
    and "resume items t act th (ps_gateway p) = Some gt" and "attempts_of (th_request th) \<le> a"
  shows "may_send a k (snd gt) \<le> may_send a k th"
proof -
  from resume_counts [OF assms(1,2,4,3)]
  have new: "counts_ok (snd gt)" "th_request (snd gt) = th_request th" by simp_all
  have live: "\<nexists>r. th_stage th = Ended r" using assms(4) by (cases act) auto
  show ?thesis
  proof (cases "rq_rate_limit_key (th_request th) = k")
    case True
    show ?thesis
    proof (cases "\<exists>route d. th_stage th = Checking route d \<and> \<not> allowed d")
      case True
      with refused_sends_nothing [OF assms(4) _ _ assms(3)] show ?thesis by fastforce
    next
      case False
      with live True have "may_send a k th = a" by (auto simp: may_send_def split: stage.splits)
      with sent_within_credit(2) [OF new(1)] new(2) assms(5) True show ?thesis by simp
    qed
  qed (simp add: may_send_def new(2))
qed

section \<open>One step\<close>

lemma limiter_run_append:
  "fst (limiter_run ops ir db (es @ fs)) = fst (limiter_run ops ir (fst (limiter_run ops ir db es)) fs)"
  "snd (limiter_run ops ir db (es @ fs)) =
     snd (limiter_run ops ir db es) @ snd (limiter_run ops ir (fst (limiter_run ops ir db es)) fs)"
  by (induction es arbitrary: db) (simp_all add: limiter_run_Cons del: limiter_run.simps(2))

lemma put_breaker_redis [simp]: "gw_redis (put_breaker sv b gw) = gw_redis gw"
  by (simp add: put_breaker_def)

lemma failure_redis:
  "gw_redis (fst (failure_then sv env pl gw)) = gw_redis gw"
  "gw_redis (fst (failure_close sv env kind st b gw)) = gw_redis gw"
  by (auto simp: failure_then_def failure_close_def with_breaker_def split: prod.splits sum.splits)

lemma open_attempt_redis: "gw_redis (fst (open_attempt items req route dl env gw)) = gw_redis gw"
  by (auto simp: open_attempt_def Let_def failure_redis with_breaker_def split: prod.splits sum.splits exn.splits)

lemma close_attempt_redis: "gw_redis (fst (close_attempt rid sv env ls lb a gw)) = gw_redis gw"
  by (auto simp: close_attempt_def Let_def failure_redis split: sum.splits exn.splits httpx_error.splits)

lemma wants_retry_redis: "gw_redis (fst (wants_retry req sv dl env att k gw)) = gw_redis gw"
  by (simp add: wants_retry_def Let_def)

lemma finish_thread_redis [simp]: "gw_redis (fst (finish_thread r th gw)) = gw_redis gw"
  by (simp add: finish_thread_def release_all_def split: option.split)

lemma loop_head_redis [simp]: "gw_redis (fst (loop_head items route dl att ls lb env th gw)) = gw_redis gw"
proof -
  obtain gw1 pl where "open_attempt items (th_request th) route dl env gw = (gw1, pl)" by (metis surj_pair)
  with open_attempt_redis [of items "th_request th" route dl env gw] show ?thesis
    by (cases pl) (simp_all add: loop_head_def Let_def)
qed

lemma past_gates_redis [simp]: "gw_redis (fst (past_gates items start env route th gw mc)) = gw_redis gw"
  by (simp add: past_gates_def Let_def split: con_status.split option.split)

text \<open>Only an arriving request uses Redis.\<close>

lemma resume_redis:
  assumes "resume items t act th gw = Some gt"
  shows "gw_redis (fst gt) = gw_redis gw"
proof (cases act)
  case (Backend_Reply answer env)
  then obtain route dl att ls lb q where st: "th_stage th = Awaiting route dl att ls lb q"
    using assms by (auto split: stage.splits)
  let ?req = "th_request th" and ?svc = "rt_backend_service_id route"
  obtain gw1 k where cl: "close_attempt (rq_request_id ?req) ?svc env ls lb answer gw = (gw1, k)" by (metis surj_pair)
  with close_attempt_redis [of "rq_request_id ?req" ?svc env ls lb answer gw]
  have gw1: "gw_redis gw1 = gw_redis gw" by simp
  have gw2: "gw_redis gw2 = gw_redis gw" if "wants_retry ?req ?svc dl env att kd gw1 = (gw2, w)" for kd gw2 w
    using wants_retry_redis [of ?req ?svc dl env att kd gw1] that gw1 by simp
  from assms Backend_Reply st cl gw1 show ?thesis
    by (cases k) (auto simp: Let_def gw2 split: prod.splits bool.splits)
qed (use assms in \<open>auto simp: Let_def split: stage.splits if_splits prod.splits sum.splits option.splits con_status.splits\<close>)

text \<open>No thread may make more than \<open>a\<close> attempts.\<close>

definition attempts_within :: "nat \<Rightarrow> 'db cluster \<Rightarrow> bool" where
  "attempts_within a s \<longleftrightarrow>
     (\<forall>g. cfg_retry_max_attempts (nd_settings (cl_nodes s g)) \<le> int a
        \<and> (\<forall>t th. ps_threads (nd_process (cl_nodes s g)) t = Some th \<longrightarrow> attempts_of (th_request th) \<le> a))"

lemma proxy_request_attempts:
  "proxy_request cfg backends fresh q = Inr req \<Longrightarrow> attempts_of req = nat (cfg_retry_max_attempts cfg)"
  by (auto simp: proxy_request_def and_then_Inr Let_def attempts_of_def settings_retry_policy_def)

lemma arrive_request [simp]: "th_request (snd (arrive ops ir req clock fault gw)) = req"
  by (auto simp: arrive_def split: sum.splits exn.splits prod.splits)

text \<open>An arriving request makes its check, and may be sent only if that admits it.\<close>

lemma arrive_checks:
  "gw_redis (fst (arrive ops ir req clock fault gw))
     = fst (limiter_run ops ir (gw_redis gw) (arrival_check gw req clock fault))
   \<and> may_send a k (snd (arrive ops ir req clock fault gw))
     = a * admitted_count k (snd (limiter_run ops ir (gw_redis gw) (arrival_check gw req clock fault)))"
proof (cases "match_route (gw_routes gw) (rq_tenant_id req) (rq_method req) (rq_path req)")
  case (Inl e)
  then show ?thesis by (cases e) (simp_all add: arrive_def arrival_check_def may_send_def)
next
  case (Inr route)
  then show ?thesis by (auto simp: arrive_def arrival_check_def may_send_def split: prod.splits)
qed

text \<open>Summing over nodes and tasks, when a step touches one of them.\<close>

definition total :: "(nat \<Rightarrow> nat \<Rightarrow> nat) \<Rightarrow> nat \<Rightarrow> nat \<Rightarrow> nat" where
  "total f m n = (\<Sum>g<m. \<Sum>t<n. f g t)"

lemma total_mono: "(\<And>g t. f g t \<le> h g t) \<Longrightarrow> total f m n \<le> total h m n"
  unfolding total_def by (intro sum_mono)

lemma total_grows:
  assumes "f' g0 t0 \<le> f g0 t0 + d" and "\<And>g t. (g, t) \<noteq> (g0, t0) \<Longrightarrow> f' g t \<le> f g t"
  shows "total f' m n \<le> total f m n + d"
proof -
  let ?e = "\<lambda>g t. if t = t0 then if g = g0 then d else 0 else 0"
  have "total f' m n \<le> total (\<lambda>g t. f g t + ?e g t) m n"
    by (rule total_mono) (use assms in \<open>auto simp: add.commute\<close>)
  also have "\<dots> = total f m n + total ?e m n" by (simp add: total_def sum.distrib)
  also have "total ?e m n \<le> d" by (cases "t0 < n") (simp_all add: total_def)
  finally show ?thesis by simp
qed

text \<open>What one step does to Redis and to the credit of a key.\<close>

lemma arrival_check_view [simp]:
  "arrival_check (ps_gateway (node_view s g)) req clock fault = arrival_check (ps_gateway (nd_process (cl_nodes s g))) req clock fault"
  by (simp add: arrival_check_def node_view_def set_redis_def)

lemma credit_put_node:
  "credit a k (put_node g p s) h t =
     (if h = g then case ps_threads p t of None \<Rightarrow> 0 | Some th \<Rightarrow> may_send a k th else credit a k s h t)"
  by (simp add: credit_def)

definition step_effect ::
  "'db redis_ops \<Rightarrow> int \<Rightarrow> nat \<Rightarrow> string \<Rightarrow> nat \<Rightarrow> nat \<Rightarrow> limiter_event list \<Rightarrow> 'db cluster \<Rightarrow> 'db cluster \<Rightarrow> bool" where
  "step_effect ops ir a k m n es s s' \<longleftrightarrow>
     cl_redis s' = fst (limiter_run ops ir (cl_redis s) es)
   \<and> attempts_within a s'
   \<and> total (credit a k s') m n
       \<le> total (credit a k s) m n + a * admitted_count k (snd (limiter_run ops ir (cl_redis s) es))"

lemma serves_effect:
  assumes "attempts_within a s" and "cluster_apply ops ir items (Serves g t q fresh clock fault) s = Some s'"
  shows "step_effect ops ir a k m n (check_of s (Serves g t q fresh clock fault)) s s'"
proof (cases "proxy_request (nd_settings (cl_nodes s g)) (nd_backends (cl_nodes s g)) fresh q")
  case (Inl e)
  with assms(2) have s': "s' = put_raised g t e s" by (simp split: if_splits)
  have "attempts_within a s'" "credit a k s' = credit a k s"
    using assms(1) by (simp_all add: s' attempts_within_def credit_def fun_eq_iff)
  with Inl show ?thesis by (simp add: step_effect_def s')
next
  case (Inr req)
  let ?p = "node_view s g" and ?es = "arrival_check (ps_gateway (nd_process (cl_nodes s g))) req clock fault"
  let ?a = "arrive ops ir req clock fault (ps_gateway ?p)"
  from assms(2) Inr have free: "ps_threads (nd_process (cl_nodes s g)) t = None"
    and s': "s' = put_node g (put_thread t ?a ?p) s"
    by (auto split: option.splits if_splits)
  have ch: "gw_redis (fst ?a) = fst (limiter_run ops ir (cl_redis s) ?es)"
    "may_send a k (snd ?a) = a * admitted_count k (snd (limiter_run ops ir (cl_redis s) ?es))"
    using arrive_checks [of ops ir req clock fault "ps_gateway ?p" a k] by simp_all
  have "attempts_of req \<le> a"
    using assms(1) proxy_request_attempts [OF Inr] by (simp add: attempts_within_def nat_le_iff)
  with assms(1) have "attempts_within a s'" by (auto simp: s' attempts_within_def)
  moreover have "total (credit a k s') m n \<le> total (credit a k s) m n + may_send a k (snd ?a)"
    by (rule total_grows [of _ g t]) (auto simp: s' credit_put_node, simp_all add: credit_def)
  ultimately show ?thesis using Inr ch by (simp add: step_effect_def s')
qed

lemma resumes_effect:
  assumes "attempts_within a s" and "nodes_ok ops ir items s" and "cluster_apply ops ir items (Resumes g t act) s = Some s'"
  shows "step_effect ops ir a k m n [] s s'"
proof -
  let ?p = "node_view s g"
  from assms(3) obtain th gt where th: "ps_threads ?p t = Some th" "resume items t act th (ps_gateway ?p) = Some gt"
    and s': "s' = put_node g (put_thread t gt ?p) s"
    by (auto split: option.splits)
  have view: "reach (proc_start (settings_limits (nd_settings (cl_nodes s g)))) (proc_step ops ir items) ?p"
    using assms(2) proc_redis [of ops ir items "nd_process (cl_nodes s g)" "cl_redis s"]
    unfolding nodes_ok_def node_view_def by (blast intro: reach_step)
  note inv = proc.reach_inv [OF view] and ok = reach_counts [OF view th(1)]
  have at: "attempts_of (th_request th) \<le> a" using assms(1) th(1) by (auto simp: attempts_within_def)
  from resume_counts [OF inv th ok] have req: "th_request (snd gt) = th_request th" by simp
  have "attempts_within a s'" using assms(1) at req by (auto simp: s' attempts_within_def)
  moreover have "total (credit a k s') m n \<le> total (credit a k s) m n + 0"
    using resume_may_send [OF inv th(1) ok th(2) at, of k] th(1)
    by (intro total_grows [of _ g t]) (auto simp: s' credit_put_node, simp_all add: credit_def)
  ultimately show ?thesis using resume_redis [OF th(2)] by (simp add: step_effect_def s')
qed

lemma cluster_step_effect:
  assumes "attempts_within a s" and "nodes_ok ops ir items s" and "cluster_apply ops ir items e s = Some s'"
  shows "step_effect ops ir a k m n (check_of s e) s s'"
proof (cases e)
  case (Serves g t q fresh clock fault)
  with serves_effect assms show ?thesis by metis
next
  case (Resumes g t act)
  with resumes_effect assms show ?thesis by (metis check_of.simps(3))
next
  case (Probes g r ok)
  have "credit a k (put_node g (note_probe r ok (node_view s g)) s) = credit a k s"
    by (auto simp: credit_put_node note_probe_def fun_eq_iff credit_def split: prod.split)
  with assms Probes show ?thesis
    by (auto simp: step_effect_def attempts_within_def note_probe_def split: prod.splits if_splits)
next
  case (Passes d)
  with assms have "credit a k s' = credit a k s" by (auto simp: credit_def fun_eq_iff)
  with assms Passes show ?thesis by (auto simp: step_effect_def attempts_within_def)
qed

section \<open>Runs\<close>

lemma cluster_run_effect:
  assumes "cluster_exec ops ir items es s = Some s'" and "attempts_within a s" and "nodes_ok ops ir items s"
  shows "step_effect ops ir a k m n (cluster_checks ops ir items es s) s s' \<and> nodes_ok ops ir items s'"
  using assms
proof (induction es arbitrary: s)
  case Nil
  then show ?case by (simp add: step_effect_def)
next
  case (Cons e es)
  then obtain u where u: "cluster_apply ops ir items e s = Some u" "cluster_exec ops ir items es u = Some s'"
    by (auto simp: bind_eq_Some_conv)
  note one = cluster_step_effect [OF Cons.prems(2,3) u(1), of k m n]
  have ok: "nodes_ok ops ir items u"
    using cluster.inv_step [OF Cons.prems(3)] u(1) by (simp add: cluster_step_def)
  from one have "attempts_within a u" by (simp add: step_effect_def)
  note rest = Cons.IH [OF u(2) this ok]
  let ?c1 = "check_of s e" and ?c2 = "cluster_checks ops ir items es u"
  let ?d = "cl_redis s" and ?d1 = "fst (limiter_run ops ir (cl_redis s) (check_of s e))"
  have run: "fst (limiter_run ops ir ?d (?c1 @ ?c2)) = fst (limiter_run ops ir ?d1 ?c2)"
    "admitted_count k (snd (limiter_run ops ir ?d (?c1 @ ?c2)))
       = admitted_count k (snd (limiter_run ops ir ?d ?c1)) + admitted_count k (snd (limiter_run ops ir ?d1 ?c2))"
    by (simp_all add: limiter_run_append)
  from one rest show ?case
    by (simp add: u(1) step_effect_def run distrib_left)
qed

lemma sent_for_credit:
  assumes "attempts_within a s" and "nodes_ok ops ir items s"
  shows "sent_for k s g t \<le> credit a k s g t"
proof (cases "ps_threads (nd_process (cl_nodes s g)) t")
  case None
  then show ?thesis by (simp add: sent_for_def)
next
  case (Some th)
  have "reach (proc_start (settings_limits (nd_settings (cl_nodes s g)))) (proc_step ops ir items) (nd_process (cl_nodes s g))"
    using assms(2) by (simp add: nodes_ok_def)
  from reach_counts [OF this Some] have ok: "counts_ok th" .
  have "attempts_of (th_request th) \<le> a" using assms(1) Some by (auto simp: attempts_within_def)
  with sent_within_credit(1) [OF ok] Some show ?thesis by (simp add: sent_for_def credit_def)
qed

lemma cluster_forwards_admitted:
  assumes "cluster_start s" and "cluster_exec ops ir items es s = Some s'"
    and "\<And>g. cfg_retry_max_attempts (nd_settings (cl_nodes s g)) \<le> int a"
  shows "total (sent_for k s') m n
    \<le> a * admitted_count k (snd (limiter_run ops ir (cl_redis s) (cluster_checks ops ir items es s)))"
proof -
  have empty: "ps_threads (nd_process (cl_nodes s g)) t = None" for g t
    using assms(1) by (auto simp: cluster_start_def elim!: allE [of _ g] boot_Inr)
  then have "attempts_within a s" "credit a k s = (\<lambda>_ _. 0)"
    using assms(3) by (simp_all add: attempts_within_def credit_def fun_eq_iff)
  with cluster_run_effect [OF assms(2) _ cluster_start_ok [OF assms(1)], of a k m n]
  have eff: "attempts_within a s'" "nodes_ok ops ir items s'"
    "total (credit a k s') m n
      \<le> a * admitted_count k (snd (limiter_run ops ir (cl_redis s) (cluster_checks ops ir items es s)))"
    by (simp_all add: step_effect_def total_def)
  from total_mono [OF sent_for_credit [OF eff(1,2)]] eff(3) show ?thesis by (rule order_trans)
qed

text \<open>All checks on the key of a client are made with the gateway's one policy, up to the failure mode.\<close>

lemma proxy_request_bucket:
  assumes "proxy_request cfg backends fresh q = Inr req"
  shows "same_bucket (token_bucket_policy 100 100) (rq_rate_limit_policy req)"
  using assms by (auto simp: proxy_request_def and_then_Inr Let_def same_bucket_def token_bucket_policy_def)

lemma cluster_checks_of_bucket:
  "list_all (of_bucket (token_bucket_policy 100 100) k) (cluster_checks ops ir items es s)"
proof (induction es arbitrary: s)
  case (Cons e es)
  have "list_all (of_bucket (token_bucket_policy 100 100) k) (check_of s e)"
    by (cases e) (auto simp: Let_def arrival_check_def proxy_request_bucket split: sum.splits)
  with Cons show ?case by (simp split: option.split)
qed simp

section \<open>Two gateways, one client\<close>

text \<open>
  Both probe the instance that is to serve, both serve a request of the same client, one of them
  fails at first and is sent again.
\<close>

definition ex_node :: "mem_db node" where
  "ex_node = (case boot settings (Some ex_doc) ([] :: mem_db) ex_blank of Inr n \<Rightarrow> n)"

definition ex_cluster :: "mem_db cluster" where
  "ex_cluster = \<lparr> cl_redis = [], cl_nodes = (\<lambda>g. ex_node) \<rparr>"

definition ex_traffic :: "mem_db cluster_event list" where
  "ex_traffic =
     (let e = ex_attempt (Inl (HttpxError ConnectError)) 20; serve = (\<lambda>g c. Serves g 0 (ex_inbound ''users/7'') ''fresh'' c Answered) in
      [Probes 0 0 True, Probes 1 0 True, Probes 0 0 True, Probes 1 0 True,
       serve 0 10, Passes 500, serve 1 (21 / 2),
       Resumes 1 0 (Reply (\<lambda>_. 0) 20 e), Resumes 0 0 (Reply (\<lambda>_. 0) 20 e),
       Resumes 0 0 (Backend_Reply (Inl (HttpxError ConnectError)) e), Resumes 0 0 (Rested e)])"

definition ex_cluster_end :: "mem_db cluster" where
  "ex_cluster_end = (case cluster_exec memory_server 0 lower_items ex_traffic ex_cluster of Some s \<Rightarrow> s | None \<Rightarrow> ex_cluster)"

lemma ex_node_boot: "boot settings (Some ex_doc) ([] :: mem_db) ex_blank = Inr ex_node"
  by (simp add: ex_node_def boot_def and_then_def ex_app_startup)

lemma ex_node_settings: "nd_settings ex_node = settings"
  by (rule boot_Inr [OF ex_node_boot])

lemma ex_cluster_start: "cluster_start ex_cluster"
  unfolding cluster_start_def ex_cluster_def
  by (auto simp: ex_node_settings sane_limits_def settings_limits_def settings_def [symmetric] intro!: exI ex_node_boot)
    (simp_all add: settings_def)

lemma ex_cluster_runs: "cluster_exec memory_server 0 lower_items ex_traffic ex_cluster = Some ex_cluster_end"
proof -
  have "case cluster_exec memory_server 0 lower_items ex_traffic ex_cluster of None \<Rightarrow> False | Some _ \<Rightarrow> True"
    by code_simp
  then show ?thesis by (auto simp: ex_cluster_end_def split: option.splits)
qed

section \<open>Property\<close>

text \<open>C2.
  The budget of an API key holds for the cluster. However many gateways serve a client's requests,
  however their steps interleave, whatever their clocks show, whatever their failure mode is and
  whatever the backends answer, the requests forwarded to backends under one API key number at most
  \<^verbatim>\<open>retry_max_attempts\<close> times what the bucket gives: 100 tokens, and 100 more whenever the key
  expired although less than a second of clock readings had passed; 100 for every second that the
  readings of the checks move forward, all forward steps added up; the digits lost in storing the
  count; and the checks that fail-open gateways let through without an answer of Redis. More
  gateways do not buy a client more; retries do, by this factor, and disagreeing clocks do, by what
  they add to the forward movement.\<close>

theorem cluster_forwards_within_budget:
  assumes "redis_server ops" and "cluster_start s" and "cluster_exec ops ir items es s = Some s'"
    and "\<And>g. cfg_retry_max_attempts (nd_settings (cl_nodes s g)) \<le> int a"
    and "k = rate_limit_key_of api_key" and "sound_bucket (peek ops (cl_redis s) k)"
    and "checks = cluster_checks ops ir items es s" and "short_readings (check_times k checks)"
  shows "of_nat (total (sent_for k s') m n)
    \<le> of_nat a *
       (100 * (1 + of_nat (lapses (token_bucket_policy 100 100) k None 0 checks))
        + 100 * of_int (climb (check_times k checks)) / 1000
        + of_nat (length (check_times k checks)) * store_error (token_bucket_policy 100 100)
        + of_nat (open_failures k checks))"
    (is "_ \<le> of_nat a * ?budget")
proof -
  let ?p = "token_bucket_policy 100 100"
  let ?n = "admitted_count k (snd (limiter_run ops ir (cl_redis s) checks))"
  have p: "sane_bucket ?p" "tb_cost ?p = 1" "capacity ?p = 100" "refill_rate ?p = 100"
    by (simp_all add: sane_bucket_def token_bucket_policy_def)
  have of: "list_all (of_bucket ?p k) checks" unfolding assms(7) by (rule cluster_checks_of_bucket)
  have "of_nat ?n \<le> ?budget"
    using redis_server.token_bound [OF assms(1,6) of p(1) assms(8), of ir 0]
      redis_server.token_run_counts [OF assms(1,6) of p(1), of ir]
    by (simp add: admitted_granted p)
  moreover have "of_nat (total (sent_for k s') m n) \<le> (of_nat (a * ?n) :: rat)"
    using cluster_forwards_admitted [OF assms(2,3,4)] assms(7) by (simp only: of_nat_le_iff)
  ultimately show ?thesis
    by (simp only: of_nat_mult) (rule order_trans [OF _ mult_left_mono], assumption, assumption, simp)
qed

theorem cluster_forwards_within_budget_witness:
  "total (sent_for (rate_limit_key_of ''k1'') ex_cluster_end) 2 1 = 3
   \<and> (of_nat (total (sent_for (rate_limit_key_of ''k1'') ex_cluster_end) 2 1) :: rat)
      \<le> 2 * (100 + 100 * 500 / 1000 + 2 * (100 / (2 * 10 ^ 13)))"
proof -
  let ?k = "rate_limit_key_of ''k1''" and ?c = "cluster_checks memory_server 0 lower_items ex_traffic ex_cluster"
  have checks: "check_times ?k ?c = [10000, 10500]" "lapses (token_bucket_policy 100 100) ?k None 0 ?c = 0"
    "open_failures ?k ?c = 0" by (code_simp, code_simp, code_simp)
  have h: "sound_bucket (peek memory_server (cl_redis ex_cluster) ?k)" by code_simp
  have short: "short_readings (check_times ?k ?c)" unfolding checks(1) by (simp add: short_readings_def)
  have a: "cfg_retry_max_attempts (nd_settings (cl_nodes ex_cluster g)) \<le> int 2" for g
    by (simp add: ex_cluster_def ex_node_settings settings_def)
  have sent: "total (sent_for ?k ex_cluster_end) 2 1 = 3" by code_simp
  from cluster_forwards_within_budget [OF memory.redis_server_axioms ex_cluster_start ex_cluster_runs a refl h refl short, of 2 1]
  show ?thesis unfolding checks sent by (simp add: store_error_def token_bucket_policy_def)
qed

end
