(* ===== verification/Answers.thy ===== *)
theory Answers
  imports Cluster
begin

text \<open>
  Every client of the cluster is answered. \<open>Availability\<close> shows this of one run of
  \<open>handle\<close> on a sound shared state; here soundness is an invariant of the whole process,
  established by \<open>startup\<close> and kept by every step of every request and of the health checker,
  so that nothing about the state has to be assumed.
\<close>

section \<open>What the outside world does\<close>

text \<open>
  A shuffle permutes, and the HTTP client answers or fails in one of the ways the pipeline catches.
\<close>

definition permutes :: "'db attempt_env \<Rightarrow> bool" where
  "permutes env \<longleftrightarrow> (\<forall>xs. mset (ae_shuffle env xs) = mset xs)"

fun action_ok :: "'db action \<Rightarrow> bool" where
  "action_ok (Reply waited start env) \<longleftrightarrow> permutes env"
| "action_ok (Woken waited start env) \<longleftrightarrow> permutes env"
| "action_ok (Timed_Out waited) \<longleftrightarrow> True"
| "action_ok (Backend_Reply answer env) \<longleftrightarrow> handled_answer answer"
| "action_ok (Rested env) \<longleftrightarrow> permutes env"

definition backends_of :: "(string, instance_ref list) dict \<Rightarrow> string \<Rightarrow> instance_ref list" where
  "backends_of backends s = (case dict_get backends s of None \<Rightarrow> [] | Some l \<Rightarrow> l)"

section \<open>Threads\<close>

definition thread_ok :: "(string \<Rightarrow> instance_ref list) \<Rightarrow> thread \<Rightarrow> bool" where
  "thread_ok conf th \<longleftrightarrow>
     (\<forall>s. backends_of (rq_backends (th_request th)) s = conf s)
   \<and> (\<forall>c. th_client th = Some c \<longrightarrow> only_rejected c) \<and> (\<forall>x. th_stage th \<noteq> Ended (Inl x))"

definition result_ok ::
  "(instance_ref \<Rightarrow> string) \<Rightarrow> (instance_ref \<Rightarrow> int) \<Rightarrow> (string \<Rightarrow> instance_ref list) \<Rightarrow> 'db gateway \<times> thread \<Rightarrow> bool" where
  "result_ok ids weights conf gt \<longleftrightarrow> pipeline_ok ids weights conf (fst gt) \<and> thread_ok conf (snd gt)"

lemma only_rejected_leave [simp]: "only_rejected (leave None c)"
  by (simp add: only_rejected_def leave_def)

lemma thread_ok_at_stage:
  "thread_ok conf th \<Longrightarrow> (\<And>x. st \<noteq> Ended (Inl x)) \<Longrightarrow> thread_ok conf (at_stage st th)"
  by (simp add: thread_ok_def)

lemma finish_thread_ok:
  assumes "pipeline_ok ids weights conf gw" and "thread_ok conf th"
  shows "result_ok ids weights conf (finish_thread (Inr r) th gw)"
  using assms
  by (auto simp: result_ok_def finish_thread_def thread_ok_def release_all_def pipeline_ok_manager client_steps_limits
      split: option.splits)

lemma loop_head_ok:
  assumes ok: "pipeline_ok ids weights conf gw" and th: "thread_ok conf th"
    and inj: "\<And>s. inj_on ids (set (conf s))" and "permutes env"
  shows "result_ok ids weights conf (loop_head items route dl att ls lb env th gw)"
proof -
  let ?req = "th_request th"
  obtain gw1 p where op: "open_attempt items ?req route dl env gw = (gw1, p)" by (metis surj_pair)
  have conf: "(case dict_get (rq_backends ?req) (rt_backend_service_id route) of None \<Rightarrow> [] | Some l \<Rightarrow> l)
      = conf (rt_backend_service_id route)"
    using th by (simp add: thread_ok_def backends_of_def)
  have o: "pipeline_ok ids weights conf gw1" "\<And>x. p \<noteq> Fail_With x"
    using open_attempt_ok [OF op ok refl conf inj] assms(4) by (simp_all add: permutes_def)
  show ?thesis
  proof (cases p)
    case (Send q)
    with op o(1) th finish_thread_ok [OF ok th] show ?thesis
      by (auto simp: loop_head_def Let_def result_ok_def thread_ok_def)
  qed (use op o finish_thread_ok [OF ok th] finish_thread_ok [OF o(1) th] in \<open>auto simp: loop_head_def Let_def\<close>)
qed

lemma run_gates_ok:
  "only_rejected c \<Longrightarrow> only_rejected (snd (run_gates n t w c m)) \<and> m_limits (fst (run_gates n t w c m)) = m_limits m"
proof (induction n arbitrary: c m)
  case (Suc n)
  obtain m1 c1 where tr: "try_acquire t (w (c_held c)) c m = (m1, c1)" by (metis surj_pair)
  have "only_rejected c1" "m_limits m1 = m_limits m"
    using client_steps_rejected(1) [OF Suc.prems] client_steps_limits(1) tr by (metis snd_conv, metis fst_conv)
  with Suc.IH [of c1 m1] tr show ?case by simp
qed simp

lemma gate_failure_ok: "is_rejection e \<Longrightarrow> \<exists>r. gate_failure req e = Inr r"
  by (auto simp: is_rejection_def gate_failure_def)

lemma pipeline_ok_ensure:
  "pipeline_ok ids weights conf gw \<Longrightarrow>
   pipeline_ok ids weights conf (gw\<lparr>gw_breakers := snd (breaker_for (gw_breakers gw) s)\<rparr>)"
  by (simp add: pipeline_ok_def)

lemma past_gates_ok:
  assumes ok: "pipeline_ok ids weights conf gw" and th: "thread_ok conf th"
    and inj: "\<And>s. inj_on ids (set (conf s))" and "permutes env"
    and "only_rejected c" and "m_limits m = m_limits (gw_concurrency gw)"
  shows "result_ok ids weights conf (past_gates items start env route th gw (m, c))"
proof -
  let ?gw = "gw\<lparr>gw_concurrency := m\<rparr>" and ?th = "th\<lparr>th_client := Some c\<rparr>"
  let ?gw2 = "?gw\<lparr>gw_breakers := snd (breaker_for (gw_breakers ?gw) (rt_backend_service_id route))\<rparr>"
  have gw: "pipeline_ok ids weights conf ?gw" by (rule pipeline_ok_manager [OF ok assms(6)])
  have gw2: "pipeline_ok ids weights conf ?gw2" by (rule pipeline_ok_ensure [OF gw])
  have th1: "thread_ok conf ?th" using th assms(5) by (simp add: thread_ok_def)
  note head = loop_head_ok [OF gw2 th1 inj assms(4)]
  have rej: "thread_ok conf (at_stage (Ended (gate_failure (th_request th) e)) ?th)" if "c_status c = Finished (Some e)" for e
    using gate_failure_ok [of e "th_request th"] assms(5) that th1
    by (intro thread_ok_at_stage) (auto simp: only_rejected_def)
  have queue: "thread_ok conf (at_stage (Queued route) ?th)" using th1 by (rule thread_ok_at_stage) simp
  show ?thesis
    using head gw rej queue
    by (auto simp: past_gates_def Let_def result_ok_def split: con_status.splits option.splits)
qed

lemma reply_ok:
  assumes ok: "pipeline_ok ids weights conf gw" and th: "thread_ok conf th"
    and inj: "\<And>s. inj_on ids (set (conf s))" and act: "action_ok (Reply w start env)"
    and re: "resume items t (Reply w start env) th gw = Some gt"
  shows "result_ok ids weights conf gt"
proof -
  obtain route d where st: "th_stage th = Checking route d" using re by (auto split: stage.splits)
  let ?req = "th_request th"
  have "sane_limits (m_limits (gw_concurrency gw))" using ok by (simp add: pipeline_ok_def)
  then obtain m where cg: "create_gates (rq_tenant_id ?req) (rt_id route) (rt_backend_service_id route)
      (gw_concurrency gw) = (m, Inr ())" by (rule create_gates_ok)
  have lim: "m_limits m = m_limits (gw_concurrency gw)"
    using cg by (auto simp: create_gates_def Let_def split: prod.splits sum.splits)
  obtain m1 c where rg: "run_gates 4 t w (new_client ?req route) m = (m1, c)" by (metis surj_pair)
  have "only_rejected (new_client ?req route)" by (simp add: only_rejected_def)
  from run_gates_ok [OF this, of 4 t w m] rg lim
  have "only_rejected c" "m_limits m1 = m_limits (gw_concurrency gw)" by simp_all
  from past_gates_ok [OF ok th inj _ this] act
  have "result_ok ids weights conf (past_gates items start env route th gw (m1, c))" by simp
  moreover have "thread_ok conf (at_stage (Ended (Inr x)) th)" for x using th by (rule thread_ok_at_stage) simp
  ultimately show ?thesis using re st cg rg ok
    by (auto simp: Let_def result_ok_def split: if_splits)
qed

lemma woken_ok:
  assumes ok: "pipeline_ok ids weights conf gw" and th: "thread_ok conf th"
    and inj: "\<And>s. inj_on ids (set (conf s))" and act: "action_ok (Woken w start env)"
    and re: "resume items t (Woken w start env) th gw = Some gt"
  shows "result_ok ids weights conf gt"
proof -
  obtain route c where st: "th_stage th = Queued route" "th_client th = Some c"
    using re by (auto split: stage.splits option.splits)
  obtain m1 c1 where wk: "wake_client t c (gw_concurrency gw) = (m1, c1)" by (metis surj_pair)
  have "only_rejected c" using th st(2) by (simp add: thread_ok_def)
  then have c1: "only_rejected c1" "m_limits m1 = m_limits (gw_concurrency gw)"
    using client_steps_rejected(2) client_steps_limits(2) wk by (metis snd_conv, metis fst_conv)
  obtain m2 c2 where rg: "run_gates (length (c_path c1) - c_held c1) t w c1 m1 = (m2, c2)" by (metis surj_pair)
  from run_gates_ok [OF c1(1), of "length (c_path c1) - c_held c1" t w m1] rg c1(2)
  have "only_rejected c2" "m_limits m2 = m_limits (gw_concurrency gw)" by simp_all
  from past_gates_ok [OF ok th inj _ this] act
  have "result_ok ids weights conf (past_gates items start env route th gw (m2, c2))" by simp
  with re st wk rg show ?thesis by (auto split: if_splits)
qed

lemma timed_out_ok:
  assumes ok: "pipeline_ok ids weights conf gw" and th: "thread_ok conf th"
    and inj: "\<And>s. inj_on ids (set (conf s))" and act: "action_ok (Timed_Out w)"
    and re: "resume items t (Timed_Out w) th gw = Some gt"
  shows "result_ok ids weights conf gt"
proof -
  obtain route c where st: "th_stage th = Queued route" "th_client th = Some c"
    using re by (auto split: stage.splits option.splits)
  obtain m1 c1 where to: "timeout_client t w c (gw_concurrency gw) = (m1, c1)" by (metis surj_pair)
  have "only_rejected c" using th st(2) by (simp add: thread_ok_def)
  then have c1: "only_rejected c1" "m_limits m1 = m_limits (gw_concurrency gw)"
    using client_steps_rejected(3) client_steps_limits(3) to by (metis snd_conv, metis fst_conv)
  have "thread_ok conf (at_stage (Ended (gate_failure (th_request th) e)) (th\<lparr>th_client := Some c1\<rparr>))"
    if "c_status c1 = Finished (Some e)" for e
    using gate_failure_ok [of e "th_request th"] c1(1) that th
    by (intro thread_ok_at_stage) (auto simp: only_rejected_def thread_ok_def)
  with re st to pipeline_ok_manager [OF ok c1(2)] show ?thesis
    by (auto simp: result_ok_def split: con_status.splits option.splits)
qed

lemma backend_reply_ok:
  assumes ok: "pipeline_ok ids weights conf gw" and th: "thread_ok conf th"
    and inj: "\<And>s. inj_on ids (set (conf s))" and act: "action_ok (Backend_Reply answer env)"
    and re: "resume items t (Backend_Reply answer env) th gw = Some gt"
  shows "result_ok ids weights conf gt"
proof -
  obtain route dl att ls lb q where st: "th_stage th = Awaiting route dl att ls lb q"
    using re by (auto split: stage.splits)
  let ?req = "th_request th" and ?svc = "rt_backend_service_id route"
  obtain gw1 k where cl: "close_attempt (rq_request_id ?req) ?svc env ls lb answer gw = (gw1, k)" by (metis surj_pair)
  have k: "pipeline_ok ids weights conf gw1" "\<And>x. k \<noteq> Crash x"
    using close_attempt_ok [OF cl ok] act by simp_all
  have rest: "thread_ok conf (at_stage (Resting route dl att st b) th)" for st b
    using th by (rule thread_ok_at_stage) simp
  have wr: "pipeline_ok ids weights conf gw2" if "wants_retry ?req ?svc dl env att kd gw1 = (gw2, w)" for kd gw2 w
    by (rule wants_retry_ok [OF that k(1)])
  show ?thesis
    using re st cl k finish_thread_ok [OF _ th] rest wr
    by (cases k) (auto simp: Let_def result_ok_def [of _ _ _ "(_, at_stage _ _)"] split: prod.splits bool.splits)
qed

lemma resume_ok:
  assumes ok: "pipeline_ok ids weights conf gw" and th: "thread_ok conf th"
    and inj: "\<And>s. inj_on ids (set (conf s))" and "action_ok a" and re: "resume items t a th gw = Some gt"
  shows "result_ok ids weights conf gt"
proof (cases a)
  case (Rested env)
  then obtain route dl att ls lb where st: "th_stage th = Resting route dl att ls lb"
    using re by (auto split: stage.splits)
  with re Rested loop_head_ok [OF ok th inj] assms(4) show ?thesis by auto
next
  case (Reply w start env)
  from reply_ok [OF ok th inj assms(4) [unfolded this] re [unfolded this]] show ?thesis .
next
  case (Woken w start env)
  from woken_ok [OF ok th inj assms(4) [unfolded this] re [unfolded this]] show ?thesis .
next
  case (Timed_Out w)
  from timed_out_ok [OF ok th inj assms(4) [unfolded this] re [unfolded this]] show ?thesis .
next
  case (Backend_Reply answer env)
  from backend_reply_ok [OF ok th inj assms(4) [unfolded this] re [unfolded this]] show ?thesis .
qed

lemma arrive_ok:
  assumes "pipeline_ok ids weights conf gw" and "\<And>s. backends_of (rq_backends req) s = conf s"
  shows "result_ok ids weights conf (arrive ops ir req clock fault gw)"
proof -
  obtain m where m: "match_route (gw_routes gw) (rq_tenant_id req) (rq_method req) (rq_path req) = m" by blast
  have th: "thread_ok conf (new_thread req st)" if "\<And>x. st \<noteq> Ended (Inl x)" for st
    using assms(2) that by (simp add: thread_ok_def)
  have db: "pipeline_ok ids weights conf (gw\<lparr>gw_redis := db\<rparr>)" for db
    using assms(1) by (simp add: pipeline_ok_def the_breaker_def)
  show ?thesis
  proof (cases m)
    case (Inl e)
    then obtain x where "e = RouteNotFoundError x" using m by (auto simp: match_route_def Let_def split: option.splits)
    with assms(1) m Inl th show ?thesis by (auto simp: arrive_def result_ok_def)
  next
    case (Inr route)
    with assms(1) m th db show ?thesis by (auto simp: arrive_def result_ok_def split: prod.splits)
  qed
qed

section \<open>The process\<close>

definition process_ok ::
  "(instance_ref \<Rightarrow> string) \<Rightarrow> (instance_ref \<Rightarrow> int) \<Rightarrow> (string \<Rightarrow> instance_ref list) \<Rightarrow> 'db process \<Rightarrow> bool" where
  "process_ok ids weights conf p \<longleftrightarrow>
     pipeline_ok ids weights conf (ps_gateway p) \<and> (\<forall>t th. ps_threads p t = Some th \<longrightarrow> thread_ok conf th)"

text \<open>What a step has to satisfy: requests come with the node's backends.\<close>

fun event_ok :: "(string \<Rightarrow> instance_ref list) \<Rightarrow> 'db event \<Rightarrow> bool" where
  "event_ok conf (Arrives t req clock fault) \<longleftrightarrow> (\<forall>s. backends_of (rq_backends req) s = conf s)"
| "event_ok conf (Moves t a) \<longleftrightarrow> action_ok a"
| "event_ok conf e \<longleftrightarrow> True"

lemma put_thread_ok:
  "process_ok ids weights conf p \<Longrightarrow> result_ok ids weights conf gt \<Longrightarrow> process_ok ids weights conf (put_thread t gt p)"
  by (simp add: process_ok_def result_ok_def)

lemma set_redis_ok: "process_ok ids weights conf p \<Longrightarrow> process_ok ids weights conf (set_redis db p)"
  by (simp add: process_ok_def set_redis_def pipeline_ok_def the_breaker_def)

lemma note_probe_ok:
  assumes "process_ok ids weights conf p"
  shows "process_ok ids weights conf (note_probe r ok p)"
proof -
  obtain hc st where n: "note_result ok (ps_checker p) (gw_instances (ps_gateway p)) r = (hc, st)" by (metis surj_pair)
  have "keeps_identity ids weights (gw_instances (ps_gateway p))"
    using assms by (simp add: process_ok_def pipeline_ok_def)
  from note_result_keeps_identity [OF this, of ok "ps_checker p" r] n have "keeps_identity ids weights st" by simp
  with assms n show ?thesis by (simp add: process_ok_def note_probe_def pipeline_ok_def the_breaker_def)
qed

lemma proc_apply_ok:
  assumes ok: "process_ok ids weights conf p" and inj: "\<And>s. inj_on ids (set (conf s))"
    and "event_ok conf e" and "proc_apply ops ir items e p = Some p'"
  shows "process_ok ids weights conf p'"
proof (cases e)
  case (Arrives t req clock fault)
  with assms(3,4) ok arrive_ok [of ids weights conf "ps_gateway p" req] show ?thesis
    by (auto simp: process_ok_def [of _ _ _ p] split: option.splits intro!: put_thread_ok [OF ok])
next
  case (Moves t a)
  with assms(4) obtain th gt where th: "ps_threads p t = Some th" "resume items t a th (ps_gateway p) = Some gt"
    and p': "p' = put_thread t gt p" by (auto split: option.splits)
  have "result_ok ids weights conf gt"
    by (rule resume_ok [OF _ _ inj _ th(2)]) (use ok th(1) assms(3) Moves in \<open>auto simp: process_ok_def\<close>)
  with ok p' show ?thesis by (simp add: put_thread_ok)
qed (use assms(4) ok in \<open>auto simp: note_probe_ok set_redis_ok\<close>)

section \<open>The cluster\<close>

definition node_ids :: "'db node \<Rightarrow> instance_ref \<Rightarrow> string" where
  "node_ids n r = bi_id (gw_instances (ps_gateway (nd_process n)) r)"

definition node_weights :: "'db node \<Rightarrow> instance_ref \<Rightarrow> int" where
  "node_weights n r = bi_weight (gw_instances (ps_gateway (nd_process n)) r)"

text \<open>The instances of a service have identifiers of their own.\<close>

definition distinct_ids :: "'db node \<Rightarrow> bool" where
  "distinct_ids n \<longleftrightarrow> (\<forall>l \<in> set (map snd (nd_backends n)). distinct (map (node_ids n) l))"

text \<open>The endpoint knows the failure mode it is configured with, and bodies can be read.\<close>

definition known_mode :: "'db node \<Rightarrow> bool" where
  "known_mode n \<longleftrightarrow> cfg_rate_limit_default_fail_mode (nd_settings n) \<in> {''FAIL_OPEN'', ''FAIL_CLOSED''}"

fun cluster_event_ok :: "'db cluster_event \<Rightarrow> bool" where
  "cluster_event_ok (Serves g t q fresh clock fault) \<longleftrightarrow> \<not> isl (ib_body q)"
| "cluster_event_ok (Resumes g t a) \<longleftrightarrow> action_ok a"
| "cluster_event_ok e \<longleftrightarrow> True"

definition cluster_ok :: "'db cluster \<Rightarrow> 'db cluster \<Rightarrow> bool" where
  "cluster_ok s0 s \<longleftrightarrow>
     (\<forall>g. nd_backends (cl_nodes s g) = nd_backends (cl_nodes s0 g)
        \<and> known_mode (cl_nodes s g) \<and> nd_raised (cl_nodes s g) = Map.empty
        \<and> process_ok (node_ids (cl_nodes s0 g)) (node_weights (cl_nodes s0 g)) (backends_of (nd_backends (cl_nodes s0 g)))
            (nd_process (cl_nodes s g)))"

lemma distinct_ids_inj: "distinct_ids n \<Longrightarrow> inj_on (node_ids n) (set (backends_of (nd_backends n) s))"
  by (cases "dict_get (nd_backends n) s")
    (auto simp: distinct_ids_def backends_of_def dict_get_def distinct_map dest!: map_of_SomeD)

lemma startup_pipeline_ok:
  assumes "startup cfg doc db st = Inr a" and "sane_limits (settings_limits cfg)"
  shows "pipeline_ok (\<lambda>r. bi_id (gw_instances (app_gateway a) r)) (\<lambda>r. bi_weight (gw_instances (app_gateway a) r))
    conf (app_gateway a)"
proof -
  obtain m where m: "new_manager (settings_limits cfg) = Inr m" "gw_concurrency (app_gateway a) = m"
    and init: "gw_breakers (app_gateway a) = []" "gw_selector (app_gateway a) = new_selector"
    by (rule startup_Inr [OF assms(1)]) blast
  from m(1) have "m_limits m = settings_limits cfg" by (auto simp: new_manager_def split: sum.splits)
  with m(2) init assms(2) new_selector_inv keeps_identity_self show ?thesis
    by (simp add: pipeline_ok_def the_breaker_def breaker_for_def Let_def new_breaker_def
        default_breaker_config_def)
qed

lemma boot_ok:
  assumes "boot cfg doc db st = Inr n" and "sane_limits (settings_limits cfg)"
  shows "process_ok (node_ids n) (node_weights n) (backends_of (nd_backends n)) (nd_process n)"
proof -
  obtain a where "startup cfg doc db st = Inr a"
    and n: "nd_process n = \<lparr> ps_gateway = app_gateway a, ps_checker = app_health_checker a, ps_threads = Map.empty \<rparr>"
    using boot_Inr [OF assms(1)] by blast
  note ok = startup_pipeline_ok [OF this(1) assms(2)]
  have "node_ids n = (\<lambda>r. bi_id (gw_instances (app_gateway a) r))"
    "node_weights n = (\<lambda>r. bi_weight (gw_instances (app_gateway a) r))"
    by (simp_all add: node_ids_def node_weights_def n fun_eq_iff)
  with ok n show ?thesis by (simp add: process_ok_def)
qed

lemma cluster_start_all_ok:
  assumes "cluster_start s" and "\<And>g. known_mode (cl_nodes s g)"
  shows "cluster_ok s s"
  unfolding cluster_ok_def
proof (intro allI conjI refl assms(2))
  fix g
  obtain doc st where "sane_limits (settings_limits (nd_settings (cl_nodes s g)))"
    and bo: "boot (nd_settings (cl_nodes s g)) doc (cl_redis s) st = Inr (cl_nodes s g)"
    using assms(1) unfolding cluster_start_def by blast
  from boot_ok [OF bo this(1)]
  show "process_ok (node_ids (cl_nodes s g)) (node_weights (cl_nodes s g)) (backends_of (nd_backends (cl_nodes s g)))
    (nd_process (cl_nodes s g))" .
  from bo show "nd_raised (cl_nodes s g) = Map.empty" by (rule boot_Inr)
qed

text \<open>An endpoint that knows its failure mode and gets a body does not raise.\<close>

lemma proxy_request_builds:
  assumes "known_mode n" and "\<not> isl (ib_body q)"
  obtains req where "proxy_request (nd_settings n) backends fresh q = Inr req"
    and "\<And>s. backends_of (rq_backends req) s = backends_of backends s"
  using assms
  by (cases "ib_body q")
    (auto simp: proxy_request_def known_mode_def failure_mode_of_def and_then_def Let_def)

lemma put_node_all_ok:
  assumes "cluster_ok s0 s" and "\<And>g. distinct_ids (cl_nodes s0 g)"
    and "event_ok (backends_of (nd_backends (cl_nodes s0 g))) e"
    and "proc_apply ops ir items e (node_view s g) = Some p"
  shows "cluster_ok s0 (put_node g p s)"
proof -
  let ?n = "cl_nodes s0 g"
  have "process_ok (node_ids ?n) (node_weights ?n) (backends_of (nd_backends ?n)) (node_view s g)"
    using assms(1) by (simp add: cluster_ok_def node_view_def set_redis_ok)
  from proc_apply_ok [OF this distinct_ids_inj [OF assms(2)] assms(3,4)] assms(1) show ?thesis
    by (simp add: cluster_ok_def known_mode_def)
qed

lemma cluster_apply_ok:
  assumes "cluster_ok s0 s" and "\<And>g. distinct_ids (cl_nodes s0 g)" and "cluster_event_ok e"
    and "cluster_apply ops ir items e s = Some s'"
  shows "cluster_ok s0 s'"
proof (cases e)
  case (Serves g t q fresh clock fault)
  have known: "known_mode (cl_nodes s g)" and same: "nd_backends (cl_nodes s g) = nd_backends (cl_nodes s0 g)"
    using assms(1) by (simp_all add: cluster_ok_def)
  have body: "\<not> isl (ib_body q)" using assms(3) Serves by simp
  obtain req where req: "proxy_request (nd_settings (cl_nodes s g)) (nd_backends (cl_nodes s g)) fresh q = Inr req"
    "\<And>sv. backends_of (rq_backends req) sv = backends_of (nd_backends (cl_nodes s0 g)) sv"
    using proxy_request_builds [OF known body] same by metis
  obtain p where p: "proc_apply ops ir items (Arrives t req clock fault) (node_view s g) = Some p" "s' = put_node g p s"
    using Serves assms(4) req(1) by (auto split: if_splits simp del: proc_apply.simps)
  from put_node_all_ok [OF assms(1,2) _ p(1)] req(2) p(2) show ?thesis by simp
next
  case (Passes d)
  with assms(1,4) show ?thesis by (auto simp: cluster_ok_def known_mode_def)
next
  case (Resumes g t a)
  with assms(4) obtain p where p: "proc_apply ops ir items (Moves t a) (node_view s g) = Some p" "s' = put_node g p s"
    by (auto simp del: proc_apply.simps)
  from put_node_all_ok [OF assms(1,2) _ p(1)] p(2) assms(3) Resumes show ?thesis by simp
next
  case (Probes g r ok)
  with assms(4) obtain p where p: "proc_apply ops ir items (Probed r ok) (node_view s g) = Some p" "s' = put_node g p s"
    by (auto simp del: proc_apply.simps)
  from put_node_all_ok [OF assms(1,2) _ p(1)] p(2) show ?thesis by simp
qed

lemma cluster_exec_ok:
  assumes "cluster_exec ops ir items es s = Some s'" and "cluster_ok s0 s" and "\<And>g. distinct_ids (cl_nodes s0 g)"
    and "list_all cluster_event_ok es"
  shows "cluster_ok s0 s'"
  using assms(1,2,4)
proof (induction es arbitrary: s)
  case (Cons e es)
  then show ?case using cluster_apply_ok [OF Cons.prems(2) assms(3)] by (auto simp: bind_eq_Some_conv)
qed simp

text \<open>A request that has arrived stays known.\<close>

definition known_task :: "'db cluster \<Rightarrow> nat \<Rightarrow> task \<Rightarrow> bool" where
  "known_task s g t \<longleftrightarrow> nd_raised (cl_nodes s g) t \<noteq> None \<or> ps_threads (nd_process (cl_nodes s g)) t \<noteq> None"

lemma proc_apply_threads:
  assumes "proc_apply ops ir items e p = Some p'" and "ps_threads p t \<noteq> None"
  shows "ps_threads p' t \<noteq> None"
  using assms by (cases e) (auto simp: note_probe_def set_redis_def split: option.splits prod.splits if_splits)

lemma put_node_known:
  assumes "proc_apply ops ir items e (node_view s h) = Some p" and "known_task s g t"
  shows "known_task (put_node h p s) g t"
  using assms(2) proc_apply_threads [OF assms(1), of t] by (auto simp: known_task_def)

lemma put_raised_known: "known_task s g t \<Longrightarrow> known_task (put_raised h u x s) g t"
  by (auto simp: known_task_def)

lemma cluster_apply_known:
  assumes "cluster_apply ops ir items e s = Some s'" and "known_task s g t"
  shows "known_task s' g t"
proof (cases e)
  case (Serves h u q fresh clock fault)
  then show ?thesis
    using assms put_node_known [OF _ assms(2)] put_raised_known [OF assms(2)]
    by (auto split: sum.splits if_splits simp del: proc_apply.simps)
next
  case (Passes d)
  with assms show ?thesis by (auto simp: known_task_def)
qed (use assms put_node_known [OF _ assms(2)] in \<open>auto simp del: proc_apply.simps\<close>)

lemma serves_known:
  assumes "cluster_apply ops ir items (Serves g t q fresh clock fault) s = Some s'"
  shows "known_task s' g t"
  using assms by (auto simp: known_task_def split: sum.splits if_splits)

lemma cluster_exec_known:
  assumes "cluster_exec ops ir items es s = Some s'"
    and "known_task s g t \<or> Serves g t q fresh clock fault \<in> set es"
  shows "known_task s' g t"
  using assms
proof (induction es arbitrary: s)
  case (Cons e es)
  then obtain u where u: "cluster_apply ops ir items e s = Some u" "cluster_exec ops ir items es u = Some s'"
    by (auto simp: bind_eq_Some_conv)
  have "known_task u g t \<or> Serves g t q fresh clock fault \<in> set es"
    using Cons.prems(2) cluster_apply_known [OF u(1)] serves_known u(1) by auto
  with Cons.IH [OF u(2)] show ?case by blast
qed simp

lemma cluster_never_stuck:
  assumes "nodes_ok ops ir items s" and "ps_threads (nd_process (cl_nodes s g)) t = Some th"
    and "\<And>r. th_stage th \<noteq> Ended r"
  shows "\<exists>a s'. action_ok a \<and> cluster_apply ops ir items (Resumes g t a) s = Some s'"
proof -
  let ?env = "\<lparr> ae_shuffle = id, t_admit = 0, t_remaining = 0, ae_send = (\<lambda>_. Inl ZeroDivisionError),
      ae_during_send = id, t_outcome = 0, t_opened = 0, t_state = 0, ae_draw = 0, t_budget = 0, ae_during_sleep = id \<rparr>"
  let ?l = "settings_limits (nd_settings (cl_nodes s g))"
  have "reach (proc_start ?l) (proc_step ops ir items) (node_view s g)"
    using assms(1) proc_redis [of ops ir items "nd_process (cl_nodes s g)" "cl_redis s"]
    unfolding nodes_ok_def node_view_def by (blast intro: reach_step)
  then obtain a p where a: "a \<in> {Reply (\<lambda>_. 0) 0 ?env, Timed_Out 0, Backend_Reply (Inl (HttpxError ConnectError)) ?env, Rested ?env}"
    and "proc_step ops ir items (node_view s g) (Moves t a) p"
    using never_stuck [of ?l ops ir items "node_view s g" t th ?env "Inl (HttpxError ConnectError)"] assms(2,3) by auto
  then have "cluster_apply ops ir items (Resumes g t a) s = Some (put_node g p s)"
    by (simp add: proc_apply_iff del: proc_apply.simps)
  moreover have "action_ok a" using a by (auto simp: permutes_def handled_answer_def)
  ultimately show ?thesis by blast
qed

section \<open>Property\<close>

lemma ex_cluster_distinct: "distinct_ids (cl_nodes ex_cluster g)"
proof -
  have "distinct_ids ex_node" unfolding distinct_ids_def by code_simp
  then show ?thesis by (simp add: ex_cluster_def)
qed

text \<open>C9.
  Every client is answered. Start any number of gateways from configuration files in which the
  instances of a service have distinct identifiers, with limits that are not negative and one of the
  two failure modes, and let them serve any requests whose bodies can be read, in any interleaving
  with each other, with health checks, with faults of Redis and with the time-outs of the gates; let
  backends answer with any status or fail with the errors the pipeline catches. Then at every moment
  each request that was received has been given a response, or it has no outcome yet and there is a
  step it can take: none ends in an exception, before, in or after the pipeline.\<close>

theorem cluster_always_answers:
  assumes "cluster_start s" and "\<And>g. distinct_ids (cl_nodes s g)" and "\<And>g. known_mode (cl_nodes s g)"
    and "cluster_exec ops ir items es s = Some s'" and "list_all cluster_event_ok es"
    and "Serves g t q fresh clock fault \<in> set es"
  shows "(\<exists>res. outcome s' g t = Some (Inr res))
    \<or> outcome s' g t = None \<and> (\<exists>a s''. action_ok a \<and> cluster_apply ops ir items (Resumes g t a) s' = Some s'')"
proof -
  have ok: "cluster_ok s s'"
    by (rule cluster_exec_ok [OF assms(4) cluster_start_all_ok [OF assms(1,3)] assms(2,5)])
  then have none: "nd_raised (cl_nodes s' g) t = None" by (simp add: cluster_ok_def)
  with cluster_exec_known [OF assms(4) disjI2 [OF assms(6)]]
  obtain th where th: "ps_threads (nd_process (cl_nodes s' g)) t = Some th" by (auto simp: known_task_def)
  with ok have "thread_ok (backends_of (nd_backends (cl_nodes s g))) th"
    by (auto simp: cluster_ok_def process_ok_def)
  then have fine: "th_stage th \<noteq> Ended (Inl x)" for x by (simp add: thread_ok_def)
  have "nodes_ok ops ir items s'"
    using cluster.start_steps_inv [OF assms(1)] assms(4) by (simp add: cluster_exec_steps)
  note step = cluster_never_stuck [OF this th]
  show ?thesis
  proof (cases "th_stage th")
    case (Ended r)
    with fine none th show ?thesis by (cases r) (auto simp: outcome_def)
  qed (use step none th in \<open>auto simp: outcome_def\<close>)
qed

definition ex_reply :: "mem_db cluster_event list" where
  "ex_reply =
     [Resumes 1 0 (Backend_Reply (Inr \<lparr> rs_status_code = 200, rs_headers = [], rs_content = [] \<rparr>)
        (ex_attempt (Inl (HttpxError ConnectError)) 20))]"

theorem cluster_always_answers_witness:
  "\<exists>s res. cluster_exec memory_server 0 lower_items (ex_traffic @ ex_reply) ex_cluster = Some s
    \<and> outcome s 1 0 = Some (Inr res)"
proof -
  have ok: "list_all cluster_event_ok (ex_traffic @ ex_reply)"
    by (simp add: ex_traffic_def ex_reply_def Let_def permutes_def ex_attempt_def handled_answer_def ex_inbound_def)
  have served: "Serves 1 0 (ex_inbound ''users/7'') ''fresh'' (21 / 2) Answered \<in> set (ex_traffic @ ex_reply)"
    by (simp add: ex_traffic_def Let_def)
  have known: "known_mode (cl_nodes ex_cluster g)" for g
    by (simp add: known_mode_def ex_cluster_def ex_node_settings settings_def)
  have "case cluster_exec memory_server 0 lower_items (ex_traffic @ ex_reply) ex_cluster of None \<Rightarrow> False
      | Some s \<Rightarrow> (case outcome s 1 0 of None \<Rightarrow> False | Some _ \<Rightarrow> True)" by code_simp
  then obtain s r where s: "cluster_exec memory_server 0 lower_items (ex_traffic @ ex_reply) ex_cluster = Some s"
    "outcome s 1 0 = Some r"
    by (auto split: option.splits)
  from cluster_always_answers [OF ex_cluster_start ex_cluster_distinct known s(1) ok served] s show ?thesis by auto
qed

end
