(* ===== verification/Process_Handle.thy ===== *)
theory Process_Handle
  imports Process
begin

text \<open>
  The life of every thread of the process is a run of \<open>handle\<close>. \<open>rest\<close> says what remains
  of \<open>handle\<close> at each stage of a thread. A stretch between two suspensions takes a thread from
  a stage to a stage; \<open>patch\<close> writes into an environment what the thread met in the stretch: the
  shared state it found, the readings, the answer. \<open>own_env\<close> collects this along a run of the
  process, and in the environment it makes \<open>handle\<close> does exactly what the thread did. Hence what
  is proved of \<open>handle\<close> holds for every request in every interleaving.
\<close>

section \<open>What is left of a request\<close>

text \<open>
  \<open>rest\<close> is what \<open>handle\<close> still does when a thread is at a given stage: everything from
  the suspension on. Its argument \<open>gw\<close> is the shared state at the moment of the suspension.
\<close>

definition prepend :: "outbound_request list \<Rightarrow> 'g \<times> outbound_request list \<times> 'r \<Rightarrow> 'g \<times> outbound_request list \<times> 'r" where
  "prepend qs x = (fst x, qs @ fst (snd x), snd (snd x))"

definition released :: "client \<Rightarrow> 'db gateway \<times> 'q \<times> 'r \<Rightarrow> 'db gateway \<times> 'q \<times> 'r" where
  "released c x = (release_all c (fst x), snd x)"

definition after_gates ::
  "request \<Rightarrow> RouteDefinition \<Rightarrow> 'db handle_env \<Rightarrow> 'db gateway \<times> client
    \<Rightarrow> 'db gateway \<times> outbound_request list \<times> (exn + PipelineResult)" where
  "after_gates req route env gc =
     (case c_status (snd gc) of
        Finished (Some e) \<Rightarrow> (fst gc, [], gate_failure req e)
      | _ \<Rightarrow> released (snd gc) (dispatch (he_items env) req route (he_start env) (he_attempt env) (fst gc)))"

definition waited_at_gate ::
  "'db handle_env \<Rightarrow> client \<Rightarrow> 'db gateway \<Rightarrow> 'db gateway \<times> client" where
  "waited_at_gate env c gw =
     (let t = he_task env; e = he_wait env (c_held c); gw2 = we_during_wait e gw in
      if is_woken (gw_concurrency gw2) c t \<and> \<not> we_expired e
      then (case wake_client t c (gw_concurrency gw2) of
              (m, c1) \<Rightarrow> acquire_gates (length (c_path c) - Suc (c_held c)) t (he_wait env) c1 (gw2\<lparr>gw_concurrency := m\<rparr>))
      else (case timeout_client t (we_waited e) c (gw_concurrency gw2) of
              (m, c1) \<Rightarrow> (gw2\<lparr>gw_concurrency := m\<rparr>, c1)))"

definition after_sending ::
  "(headers \<Rightarrow> headers) \<Rightarrow> request \<Rightarrow> RouteDefinition \<Rightarrow> DeadlineTracker \<Rightarrow> (nat \<Rightarrow> 'db attempt_env) \<Rightarrow> int \<Rightarrow> int \<Rightarrow> bytes
    \<Rightarrow> outbound_request \<Rightarrow> 'db gateway \<Rightarrow> 'db gateway \<times> outbound_request list \<times> (exn + PipelineResult)" where
  "after_sending items req route dl envs att ls lb q gw =
     (let e = envs (nat att); service = rt_backend_service_id route in
      case close_attempt (rq_request_id req) service e ls lb (ae_send e q) (ae_during_send e gw) of
        (gw2, Done r) \<Rightarrow> (gw2, [], Inr r)
      | (gw2, Crash x) \<Rightarrow> (gw2, [], Inl x)
      | (gw2, Failed kind status body) \<Rightarrow>
          (case wants_retry req service dl e att kind gw2 of
             (gw3, False) \<Rightarrow> (gw3, [], Inr (proxy_result (rq_request_id req) status body))
           | (gw3, True) \<Rightarrow> dispatch_loop items req route dl envs att status body (ae_during_sleep e gw3)))"

definition rest ::
  "thread \<Rightarrow> 'db handle_env \<Rightarrow> 'db gateway \<Rightarrow> 'db gateway \<times> outbound_request list \<times> (exn + PipelineResult)" where
  "rest th env gw =
     (let req = th_request th in
      case th_stage th of
        Checking route d \<Rightarrow>
          (let gw1 = he_during_check env gw in
           if \<not> allowed d then (gw1, [], Inr (rate_limited_result (rq_request_id req) d))
           else serve req route env gw1)
      | Queued route \<Rightarrow> after_gates req route env (waited_at_gate env (the (th_client th)) gw)
      | Awaiting route dl att ls lb q \<Rightarrow>
          released (the (th_client th)) (after_sending (he_items env) req route dl (he_attempt env) att ls lb q gw)
      | Resting route dl att ls lb \<Rightarrow>
          released (the (th_client th))
            (dispatch_loop (he_items env) req route dl (he_attempt env) att ls lb
               (ae_during_sleep (he_attempt env (nat att)) gw))
      | Ended r \<Rightarrow> (gw, [], r))"

lemma prepend_simps [simp]:
  "prepend [] x = x" "prepend qs (prepend qs' x) = prepend (qs @ qs') x"
  "prepend qs (gw, qs', r) = (gw, qs @ qs', r)"
  by (simp_all add: prepend_def)

lemma released_prepend [simp]: "released c (prepend qs x) = prepend qs (released c x)"
  by (simp add: released_def prepend_def)

lemma released_simps [simp]: "released c (gw, qr) = (release_all c gw, qr)"
  by (simp add: released_def)

text \<open>The loop looks at the environments of later attempts only.\<close>

lemma dispatch_loop_cong:
  assumes "\<And>n. nat att < n \<Longrightarrow> envs n = envs' n" and "0 \<le> att"
  shows "dispatch_loop items req route dl envs att ls lb gw = dispatch_loop items req route dl envs' att ls lb gw"
  using assms
proof (induction "nat (max_attempts (rq_retry_policy req) - att)" arbitrary: att ls lb gw rule: less_induct)
  case less
  show ?case
  proof (cases "att < max_attempts (rq_retry_policy req)")
    case False
    then show ?thesis by (simp add: dispatch_loop.simps [of _ _ _ _ _ att])
  next
    case True
    have e: "envs (nat (att + 1)) = envs' (nat (att + 1))" using less.prems by simp
    have "nat (max_attempts (rq_retry_policy req) - (att + 1)) < nat (max_attempts (rq_retry_policy req) - att)"
      using True by simp
    from less.hyps [OF this] less.prems
    have IH: "dispatch_loop items req route dl envs (att + 1) ls lb gw = dispatch_loop items req route dl envs' (att + 1) ls lb gw"
      for ls lb gw by simp
    show ?thesis unfolding dispatch_loop.simps [of _ _ _ _ _ att] Let_def e IH ..
  qed
qed

lemma close_attempt_cong:
  assumes "t_outcome e = t_outcome e'" and "t_opened e = t_opened e'"
  shows "close_attempt rid s e = close_attempt rid s e'"
  by (intro ext) (unfold close_attempt_def failure_close_def assms, rule refl)

lemma wants_retry_cong:
  assumes "t_state e = t_state e'" and "ae_draw e = ae_draw e'" and "t_budget e = t_budget e'"
  shows "wants_retry req s dl e = wants_retry req s dl e'"
  by (intro ext) (unfold wants_retry_def assms, rule refl)

lemma after_sending_cong:
  assumes "\<And>n. nat att < n \<Longrightarrow> envs n = envs' n" and "0 \<le> att"
    and "ae_send (envs (nat att)) = ae_send (envs' (nat att))" and "ae_during_send (envs (nat att)) = ae_during_send (envs' (nat att))"
    and "ae_during_sleep (envs (nat att)) = ae_during_sleep (envs' (nat att))"
    and "t_outcome (envs (nat att)) = t_outcome (envs' (nat att))" and "t_opened (envs (nat att)) = t_opened (envs' (nat att))"
    and "t_state (envs (nat att)) = t_state (envs' (nat att))" and "ae_draw (envs (nat att)) = ae_draw (envs' (nat att))"
    and "t_budget (envs (nat att)) = t_budget (envs' (nat att))"
  shows "after_sending items req route dl envs att ls lb q gw = after_sending items req route dl envs' att ls lb q gw"
proof -
  have loop: "dispatch_loop items req route dl envs att ls lb gw = dispatch_loop items req route dl envs' att ls lb gw"
    for ls lb gw by (rule dispatch_loop_cong) (use assms(1,2) in auto)
  show ?thesis
    unfolding after_sending_def Let_def assms(3-5) close_attempt_cong [OF assms(6,7)]
      wants_retry_cong [OF assms(8-10)] loop by (rule refl)
qed

lemma dispatch_loop_sends:
  assumes "att < max_attempts (rq_retry_policy req)"
    and "open_attempt items req route dl (envs (nat (att + 1))) gw = (gw1, Send q)"
  shows "dispatch_loop items req route dl envs att ls lb gw =
    prepend [q] (after_sending items req route dl envs (att + 1) ls lb q gw1)"
  using assms
  by (subst dispatch_loop.simps) (simp add: Let_def after_sending_def split: prod.splits closing.splits bool.splits)

lemma dispatch_loop_stops:
  assumes "\<not> att < max_attempts (rq_retry_policy req) \<and> gw1 = gw \<and> p = Give_Up
      \<or> att < max_attempts (rq_retry_policy req) \<and> open_attempt items req route dl (envs (nat (att + 1))) gw = (gw1, p)"
    and "\<forall>q. p \<noteq> Send q"
  shows "dispatch_loop items req route dl envs att ls lb gw =
    (gw1, [], case p of Answer_With r \<Rightarrow> Inr r | Fail_With x \<Rightarrow> Inl x
       | _ \<Rightarrow> Inr (proxy_result (rq_request_id req) ls lb))"
  using assms by (subst dispatch_loop.simps) (auto simp: Let_def split: plan.splits)

text \<open>What an attempt does before it is sent depends on three readings only.\<close>

definition opened_by :: "'db attempt_env \<Rightarrow> 'db attempt_env \<Rightarrow> 'db attempt_env" where
  "opened_by e0 e = e\<lparr>ae_shuffle := ae_shuffle e0, t_admit := t_admit e0, t_remaining := t_remaining e0\<rparr>"

lemma open_attempt_opened_by:
  "open_attempt items req route dl e0 gw = (gw1, Send q) \<Longrightarrow>
   open_attempt items req route dl (opened_by e0 e) gw = (gw1, Send q)"
  by (auto simp: open_attempt_def opened_by_def failure_then_def Let_def split: prod.splits sum.splits exn.splits if_splits)

lemma during_fields:
  "t_admit (e\<lparr>ae_during_send := f, ae_during_sleep := g\<rparr>) = t_admit e"
  "t_remaining (e\<lparr>ae_during_send := f, ae_during_sleep := g\<rparr>) = t_remaining e"
  "ae_shuffle (e\<lparr>ae_during_send := f, ae_during_sleep := g\<rparr>) = ae_shuffle e"
  "t_outcome (e\<lparr>ae_during_send := f, ae_during_sleep := g\<rparr>) = t_outcome e"
  "t_opened (e\<lparr>ae_during_send := f, ae_during_sleep := g\<rparr>) = t_opened e"
  by simp_all

lemma open_attempt_during [simp]:
  "open_attempt items req route dl (e\<lparr>ae_during_send := f, ae_during_sleep := g\<rparr>) gw = open_attempt items req route dl e gw"
  unfolding open_attempt_def failure_then_def during_fields by (rule refl)

text \<open>
  The attempt a stretch opened, as the environment must have it: if the request was sent, the
  readings before the sending are those of the stretch and the others belong to a later one.
\<close>

definition next_attempt :: "thread \<Rightarrow> 'db attempt_env \<Rightarrow> 'db attempt_env \<Rightarrow> 'db attempt_env" where
  "next_attempt th' e0 e = (case th_stage th' of Awaiting _ _ _ _ _ _ \<Rightarrow> opened_by e0 e | _ \<Rightarrow> e0)"

lemma loop_head_rest:
  assumes lh: "loop_head items route dl att ls lb e0 th gw = (gw', th')" and c: "th_client th = Some c" and "0 \<le> att"
    and env: "he_items env = items"
  obtains (result) new where "th_sent th' = th_sent th @ new" "\<And>ro. th_stage th' \<noteq> Queued ro"
    "\<And>envs. envs (nat (att + 1)) = next_attempt th' e0 (he_attempt env (nat (att + 1))) \<Longrightarrow>
       (\<And>n. nat (att + 1) < n \<Longrightarrow> envs n = he_attempt env n) \<Longrightarrow>
       released c (dispatch_loop items (th_request th) route dl envs att ls lb gw) = prepend new (rest th' env gw')"
proof -
  let ?req = "th_request th" and ?n = "nat (att + 1)"
  let ?e = "he_attempt env ?n"
  obtain gw1 p where op: "open_attempt items ?req route dl e0 gw = (gw1, p)" by (metis surj_pair)
  have stop: thesis
    if "\<not> att < max_attempts (rq_retry_policy ?req) \<and> g = gw \<and> k = Give_Up
        \<or> att < max_attempts (rq_retry_policy ?req) \<and> gw1 = g \<and> p = k"
      and k: "\<forall>q. k \<noteq> Send q"
      and fin: "(gw', th') = finish_thread (case k of Answer_With r \<Rightarrow> Inr r | Fail_With x \<Rightarrow> Inl x
       | _ \<Rightarrow> Inr (proxy_result (rq_request_id ?req) ls lb)) th g" for g k
  proof (rule result [of "[]"])
    show "th_sent th' = th_sent th @ []" using arg_cong [OF fin, of snd] by simp
    have st: "th_stage th' = Ended (case k of Answer_With r \<Rightarrow> Inr r | Fail_With x \<Rightarrow> Inl x
       | _ \<Rightarrow> Inr (proxy_result (rq_request_id ?req) ls lb))"
      using arg_cong [OF fin, of snd] by simp
    then show "th_stage th' \<noteq> Queued ro" for ro by simp
    fix envs assume e1: "envs ?n = next_attempt th' e0 ?e"
    from that(1) op st have "\<not> att < max_attempts (rq_retry_policy ?req) \<and> g = gw \<and> k = Give_Up
        \<or> att < max_attempts (rq_retry_policy ?req) \<and> open_attempt items ?req route dl (envs ?n) gw = (g, k)"
      by (auto simp: e1 next_attempt_def)
    from dispatch_loop_stops [where envs = envs, OF this k] fin c
    show "released c (dispatch_loop items ?req route dl envs att ls lb gw) = prepend [] (rest th' env gw')"
      by (simp add: finish_thread_def rest_def)
  qed
  show ?thesis
  proof (cases "att < max_attempts (rq_retry_policy ?req)")
    case False
    then show ?thesis using lh by (intro stop [of gw Give_Up]) (simp_all add: loop_head_def)
  next
    case True
    show ?thesis
    proof (cases p)
      case (Send q)
      have th': "gw' = gw1" "th' = at_stage (Awaiting route dl (att + 1) ls lb q) (th\<lparr>th_sent := th_sent th @ [q]\<rparr>)"
        using lh True op Send by (simp_all add: loop_head_def Let_def)
      show ?thesis
      proof (rule result [of "[q]"])
        show "th_sent th' = th_sent th @ [q]" "th_stage th' \<noteq> Queued ro" for ro by (simp_all add: th')
        fix envs assume "envs ?n = next_attempt th' e0 ?e" and later: "\<And>n. ?n < n \<Longrightarrow> envs n = he_attempt env n"
        then have e1: "envs ?n = opened_by e0 ?e" by (simp add: next_attempt_def th')
        have "open_attempt items ?req route dl (envs ?n) gw = (gw1, Send q)"
          unfolding e1 by (rule open_attempt_opened_by) (use op Send in simp)
        note sent = dispatch_loop_sends [where envs = envs, OF True this, of ls lb]
        have "after_sending items ?req route dl envs (att + 1) ls lb q gw1 =
            after_sending items ?req route dl (he_attempt env) (att + 1) ls lb q gw1"
          by (rule after_sending_cong) (use later assms(3) in \<open>simp_all add: e1 opened_by_def\<close>)
        with sent c env show "released c (dispatch_loop items ?req route dl envs att ls lb gw) = prepend [q] (rest th' env gw')"
          by (simp add: rest_def th')
      qed
    qed (use lh True op in \<open>intro stop [of gw1 p]; simp add: loop_head_def Let_def\<close>)+
  qed
qed

text \<open>The gates look at the environments of later waits only.\<close>

lemma client_step_held:
  "try_acquire t w c m = (m1, c1) \<Longrightarrow> \<forall>e. c_status c1 \<noteq> Finished e \<Longrightarrow> c_held c \<le> c_held c1"
  "wake_client t c m = (m1, c1) \<Longrightarrow> c_held c \<le> c_held c1"
  by (auto simp: try_acquire_def wake_client_def Let_def advance_def leave_def
      split: option.splits prod.splits attempt.splits)

lemma acquire_gates_cong:
  assumes "\<And>i. c_held c \<le> i \<Longrightarrow> env i = env' i"
  shows "acquire_gates n t env c gw = acquire_gates n t env' c gw"
  using assms
proof (induction n arbitrary: c gw)
  case (Suc n)
  have e: "env (c_held c) = env' (c_held c)" using Suc.prems by simp
  obtain m c1 where tr: "try_acquire t (we_waited (env' (c_held c))) c (gw_concurrency gw) = (m, c1)" by (metis surj_pair)
  show ?case
  proof (cases "c_status c1")
    case Waiting
    let ?gw2 = "we_during_wait (env' (c_held c)) (gw\<lparr>gw_concurrency := m\<rparr>)"
    obtain m2 c2 where wk: "wake_client t c1 (gw_concurrency ?gw2) = (m2, c2)" by (metis surj_pair)
    have "c_held c \<le> c_held c2"
      using client_step_held(1) [OF tr] client_step_held(2) [OF wk] Waiting by simp
    then have "acquire_gates n t env c2 g = acquire_gates n t env' c2 g" for g
      using Suc.IH [of c2] Suc.prems by auto
    with tr Waiting wk e show ?thesis by (simp add: Let_def split: prod.split)
  next
    case (Finished x)
    with tr e show ?thesis by simp
  next
    case Acquiring
    then have "c_held c \<le> c_held c1" using client_step_held(1) [OF tr] by simp
    with tr e Acquiring Suc.IH [of c1] Suc.prems show ?thesis by (simp add: Let_def)
  next
    case Inside
    then have "c_held c \<le> c_held c1" using client_step_held(1) [OF tr] by simp
    with tr e Inside Suc.IH [of c1] Suc.prems show ?thesis by (simp add: Let_def)
  qed
qed simp

lemma try_acquire_waited:
  assumes "try_acquire t w c m = (m1, c1)" and "\<forall>e. c_status c1 \<noteq> Finished e"
  shows "try_acquire t w' c m = (m1, c1)"
  using assms
  by (auto simp: try_acquire_def gate_enter_def Let_def leave_def split: option.splits prod.splits bool.splits if_splits)

lemma run_gates_waited:
  assumes "run_gates n t w c m = (m', c')" and "\<forall>e. c_status c' \<noteq> Finished e"
  shows "run_gates n t w' c m = (m', c')"
  using assms
proof (induction n arbitrary: c m)
  case (Suc n)
  obtain m1 c1 where tr: "try_acquire t (w (c_held c)) c m = (m1, c1)" by (metis surj_pair)
  show ?case
  proof (cases "c_status c1 = Acquiring")
    case True
    then have "try_acquire t (w' (c_held c)) c m = (m1, c1)" by (intro try_acquire_waited [OF tr]) simp
    with True tr Suc show ?thesis by simp
  next
    case False
    with tr Suc.prems have "m' = m1" "c' = c1" by simp_all
    with try_acquire_waited [OF tr, of "w' (c_held c)"] Suc.prems(2) False show ?thesis by simp
  qed
qed simp

lemma run_gates_cong:
  assumes "\<And>i. c_held c \<le> i \<Longrightarrow> w i = w' i"
  shows "run_gates n t w c m = run_gates n t w' c m"
  using assms
proof (induction n arbitrary: c m)
  case (Suc n)
  obtain m1 c1 where tr: "try_acquire t (w' (c_held c)) c m = (m1, c1)" by (metis surj_pair)
  show ?case
  proof (cases "c_status c1 = Acquiring")
    case True
    then have "c_held c \<le> c_held c1" using client_step_held(1) [OF tr] by simp
    with Suc.IH [of c1] Suc.prems have "run_gates n t w c1 m1 = run_gates n t w' c1 m1" by auto
    with tr True Suc.prems show ?thesis by simp
  qed (use tr Suc.prems in simp)
qed simp

text \<open>Acquiring the gates is to take what can be had at once and then, perhaps, to wait.\<close>

lemma acquire_gates_run:
  assumes "reach (con_start l) con_step (set_client s (he_task env) (m, c))"
    and "n = length (c_path c) - c_held c"
    and "if n = 0 then c_status c = Inside else c_status c = Acquiring"
    and "run_gates n (he_task env) (\<lambda>i. we_waited (he_wait env i)) c m = (m', c')"
  shows "acquire_gates n (he_task env) (he_wait env) c (gw\<lparr>gw_concurrency := m\<rparr>) =
    (if c_status c' = Waiting then waited_at_gate env c' (gw\<lparr>gw_concurrency := m'\<rparr>) else (gw\<lparr>gw_concurrency := m'\<rparr>, c'))"
  using assms
proof (induction n arbitrary: c m)
  case 0
  then show ?case by simp
next
  case (Suc n)
  let ?t = "he_task env" and ?w = "we_waited (he_wait env (c_held c))"
  let ?s = "set_client s ?t (m, c)"
  have acq: "c_status c = Acquiring" and held: "c_held c < length (c_path c)" using Suc.prems(2,3) by simp_all
  obtain m1 c1 where tr: "try_acquire ?t ?w c m = (m1, c1)" by (metis surj_pair)
  have "con_step ?s (Try ?t ?w) (set_client s ?t (m1, c1))" using con_try [of ?s ?t c ?w] acq tr by simp
  from reach_step [OF Suc.prems(1) this] have r1: "reach (con_start l) con_step (set_client s ?t (m1, c1))" .
  have st: "c_path c1 = c_path c \<and>
      (c1 = advance c \<or> c_status c1 = Waiting \<and> c_held c1 = c_held c \<or> (\<exists>e. c_status c1 = Finished (Some e)))"
    using try_acquire_status [OF con.reach_inv [OF Suc.prems(1)], of ?t c ?w m1 c1] acq tr by simp
  then consider (adv) "c1 = advance c" | (wait) "c_status c1 = Waiting" "c_held c1 = c_held c" "c_path c1 = c_path c"
    | (out) e where "c_status c1 = Finished (Some e)" by blast
  then show ?case
  proof cases
    case adv
    have next_c: "n = length (c_path c1) - c_held c1"
      "if n = 0 then c_status c1 = Inside else c_status c1 = Acquiring"
      using advance_status [OF held, of n] Suc.prems(2) adv by simp_all
    then have "run_gates n ?t (\<lambda>i. we_waited (he_wait env i)) c1 m1 = (m', c')"
      using Suc.prems(4) tr by (cases "n = 0") simp_all
    from Suc.IH [OF r1 next_c this] next_c(2) tr show ?thesis by (cases "n = 0") (simp_all add: Let_def)
  next
    case wait
    then have "m' = m1" "c' = c1" using Suc.prems(4) tr by simp_all
    moreover have "n = length (c_path c1) - Suc (c_held c1)" using Suc.prems(2) wait by simp
    ultimately show ?thesis using tr wait by (simp add: waited_at_gate_def Let_def split: prod.split)
  next
    case out
    with Suc.prems(4) tr show ?thesis by (auto simp: Let_def)
  qed
qed

lemma waited_at_gate_cong:
  assumes "he_task env1 = he_task env" and "\<And>i. c_held c \<le> i \<Longrightarrow> he_wait env1 i = he_wait env i"
  shows "waited_at_gate env1 c gw = waited_at_gate env c gw"
proof -
  have e: "he_wait env1 (c_held c) = he_wait env (c_held c)" using assms(2) by simp
  have "acquire_gates n t (he_wait env1) c1 g = acquire_gates n t (he_wait env) c1 g"
    if "wake_client t c m = (m1, c1)" for n t g m m1 c1
    using client_step_held(2) [OF that] assms(2) by (intro acquire_gates_cong) auto
  then show ?thesis unfolding waited_at_gate_def Let_def assms(1) e by (auto split: prod.splits)
qed

text \<open>
  A stretch that ran through the gates, from gate \<open>n\<close> on: unless it ended in a queue, the times it
  waited, its start and the attempt it opened are those of the environment.
\<close>

definition entered ::
  "(nat \<Rightarrow> py_float) \<Rightarrow> seconds \<Rightarrow> 'db attempt_env \<Rightarrow> thread \<Rightarrow> nat \<Rightarrow> 'db handle_env \<Rightarrow> 'db handle_env" where
  "entered w start e0 th' n env =
     (case th_stage th' of
        Queued _ \<Rightarrow> env
      | _ \<Rightarrow> env\<lparr>he_wait := \<lambda>i. if n \<le> i then (he_wait env i)\<lparr>we_waited := w i\<rparr> else he_wait env i,
               he_start := start, he_attempt := (he_attempt env)(1 := next_attempt th' e0 (he_attempt env 1))\<rparr>)"

definition agrees_from :: "nat \<Rightarrow> 'db handle_env \<Rightarrow> 'db handle_env \<Rightarrow> bool" where
  "agrees_from n env env' \<longleftrightarrow>
     he_items env = he_items env' \<and> he_task env = he_task env' \<and> he_start env = he_start env'
   \<and> he_attempt env = he_attempt env' \<and> (\<forall>i \<ge> n. he_wait env i = he_wait env' i)"

lemma entered_fields [simp]:
  "he_items (entered w start e0 th' n env) = he_items env" "he_task (entered w start e0 th' n env) = he_task env"
  by (auto simp: entered_def split: stage.split)

lemma past_gates_rest:
  assumes con: "reach (con_start l) con_step (set_client s t (m, c))" "n = length (c_path c) - c_held c"
      "if n = 0 then c_status c = Inside else c_status c = Acquiring"
    and rg: "run_gates n t w c m = (m', c')"
    and gt: "past_gates items start e0 route th gw (m', c') = (gw', th')"
    and env: "he_items env = items" "he_task env = t"
  obtains new where "th_sent th' = th_sent th @ new"
    "\<And>E. agrees_from (c_held c) E (entered w start e0 th' (c_held c) env) \<Longrightarrow>
       after_gates (th_request th) route E (acquire_gates n t (he_wait E) c (gw\<lparr>gw_concurrency := m\<rparr>))
         = prepend new (rest th' env gw')"
proof -
  let ?req = "th_request th" and ?gw1 = "gw\<lparr>gw_concurrency := m'\<rparr>"
  have run: "acquire_gates n t (he_wait E) c (gw\<lparr>gw_concurrency := m\<rparr>) =
      (if c_status c' = Waiting then waited_at_gate E c' ?gw1 else (?gw1, c'))"
    if "he_task E = t" "run_gates n t (\<lambda>i. we_waited (he_wait E i)) c m = (m', c')" for E :: "'a handle_env"
    using acquire_gates_run [of l s E m c n m' c' gw] con that by simp
  have waits: "run_gates n t (\<lambda>i. we_waited (he_wait E i)) c m = (m', c')" if "\<forall>e. c_status c' \<noteq> Finished e" for E :: "'a handle_env"
    by (rule run_gates_waited [OF rg that])
  from run_gates_reach [OF con rg] consider (out) e where "c_status c' = Finished (Some e)"
    | (wait) "c_status c' = Waiting" "c_held c \<le> c_held c'" | (inside) "c_status c' = Inside" by blast
  then show ?thesis
  proof cases
    case out
    then have th': "gw' = ?gw1" "th_sent th' = th_sent th" "th_stage th' = Ended (gate_failure ?req e)"
      using gt by (auto simp: past_gates_def)
    show ?thesis
    proof (rule that [of "[]"])
      fix E assume E: "agrees_from (c_held c) E (entered w start e0 th' (c_held c) env)"
      have "run_gates n t (\<lambda>i. we_waited (he_wait E i)) c m = run_gates n t w c m"
        by (rule run_gates_cong) (use E in \<open>simp add: agrees_from_def entered_def th'\<close>)
      with run [of E] rg out E env th'
      show "after_gates ?req route E (acquire_gates n t (he_wait E) c (gw\<lparr>gw_concurrency := m\<rparr>)) = prepend [] (rest th' env gw')"
        by (simp add: after_gates_def rest_def agrees_from_def)
    qed (use th' in simp)
  next
    case wait
    then have th': "gw' = ?gw1" "th' = at_stage (Queued route) (th\<lparr>th_client := Some c'\<rparr>)"
      using gt by (auto simp: past_gates_def)
    show ?thesis
    proof (rule that [of "[]"])
      fix E assume "agrees_from (c_held c) E (entered w start e0 th' (c_held c) env)"
      then have E: "agrees_from (c_held c) E env" by (simp add: entered_def th')
      have "waited_at_gate E c' g = waited_at_gate env c' g" for g
        by (rule waited_at_gate_cong) (use E wait(2) in \<open>simp_all add: agrees_from_def\<close>)
      moreover have eqs: "he_items E = he_items env" "he_start E = he_start env" "he_attempt E = he_attempt env"
        using E by (simp_all add: agrees_from_def)
      have "after_gates ?req route E x = after_gates ?req route env x" for x
        unfolding after_gates_def eqs by (rule refl)
      ultimately show "after_gates ?req route E (acquire_gates n t (he_wait E) c (gw\<lparr>gw_concurrency := m\<rparr>)) = prepend [] (rest th' env gw')"
        using run [of E, OF _ waits] E wait env by (simp add: rest_def th' agrees_from_def)
    qed (use th' in simp)
  next
    case inside
    let ?th1 = "th\<lparr>th_client := Some c'\<rparr>" and ?dl = "new_deadline (total_deadline_ms (rq_retry_policy ?req)) start"
    have lh: "loop_head items route ?dl 0 502 ''{\"error\":{\"code\":\"BAD_GATEWAY\"}}'' e0 ?th1
        (?gw1\<lparr>gw_breakers := snd (breaker_for (gw_breakers ?gw1) (rt_backend_service_id route))\<rparr>) = (gw', th')"
      using gt inside by (simp add: past_gates_def Let_def)
    obtain new where new: "th_sent th' = th_sent ?th1 @ new" "\<And>ro. th_stage th' \<noteq> Queued ro"
      "\<And>envs. envs (nat (0 + 1)) = next_attempt th' e0 (he_attempt env (nat (0 + 1))) \<Longrightarrow>
       (\<And>n. nat (0 + 1) < n \<Longrightarrow> envs n = he_attempt env n) \<Longrightarrow>
       released c' (dispatch_loop items ?req route ?dl envs 0 502 ''{\"error\":{\"code\":\"BAD_GATEWAY\"}}''
         (?gw1\<lparr>gw_breakers := snd (breaker_for (gw_breakers ?gw1) (rt_backend_service_id route))\<rparr>)) = prepend new (rest th' env gw')"
      by (rule loop_head_rest [OF lh _ _ env(1), of c']) simp_all
    show ?thesis
    proof (rule that [of new])
      fix E assume E: "agrees_from (c_held c) E (entered w start e0 th' (c_held c) env)"
      then have f: "he_start E = start" "he_attempt E = (he_attempt env)(1 := next_attempt th' e0 (he_attempt env 1))"
        using new(2) by (auto simp: agrees_from_def entered_def split: stage.splits)
      have "he_task E = t" "he_items E = items" using E env by (simp_all add: agrees_from_def)
      moreover have "acquire_gates n t (he_wait E) c (gw\<lparr>gw_concurrency := m\<rparr>) = (?gw1, c')"
        using run [of E, OF \<open>he_task E = t\<close> waits] inside by simp
      moreover have "released c' (dispatch items ?req route start (he_attempt E) ?gw1) = prepend new (rest th' env gw')"
        unfolding dispatch_def Let_def by (rule new(3)) (simp_all add: f(2))
      ultimately show "after_gates ?req route E (acquire_gates n t (he_wait E) c (gw\<lparr>gw_concurrency := m\<rparr>)) = prepend new (rest th' env gw')"
        using inside f(1) by (simp add: after_gates_def)
    qed (use new(1) in simp)
  qed
qed

section \<open>Every thread is a run of handle\<close>

text \<open>
  What a stretch of a thread writes into the environment: \<open>gw\<close> is the shared state it found, which
  is what the other tasks left at the suspension before it, and \<open>th'\<close> is the thread after it.
\<close>

fun patch :: "thread \<Rightarrow> 'db action \<Rightarrow> 'db gateway \<Rightarrow> thread \<Rightarrow> 'db handle_env \<Rightarrow> 'db handle_env" where
  "patch th (Reply w start e0) gw th' env = (entered w start e0 th' 0 env)\<lparr>he_during_check := \<lambda>_. gw\<rparr>"
| "patch th (Woken w start e0) gw th' env =
     (let n = c_held (the (th_client th)); env1 = entered w start e0 th' (Suc n) env in
      env1\<lparr>he_wait := (he_wait env1)(n := \<lparr> we_during_wait = \<lambda>_. gw, we_expired = False, we_waited = 0 \<rparr>)\<rparr>)"
| "patch th (Timed_Out w) gw th' env =
     env\<lparr>he_wait := (he_wait env)
           (c_held (the (th_client th)) := \<lparr> we_during_wait = \<lambda>_. gw, we_expired = True, we_waited = w \<rparr>)\<rparr>"
| "patch th (Backend_Reply answer e0) gw th' env =
     (case th_stage th of
        Awaiting route dl att ls lb q \<Rightarrow>
          env\<lparr>he_attempt := (he_attempt env)(nat att :=
            e0\<lparr>ae_send := \<lambda>_. answer, ae_during_send := \<lambda>_. gw,
               ae_during_sleep := ae_during_sleep (he_attempt env (nat att))\<rparr>)\<rparr>
      | _ \<Rightarrow> env)"
| "patch th (Rested e0) gw th' env =
     (case th_stage th of
        Resting route dl att ls lb \<Rightarrow>
          env\<lparr>he_attempt := (he_attempt env)
            (nat att := (he_attempt env (nat att))\<lparr>ae_during_sleep := \<lambda>_. gw\<rparr>,
             nat (att + 1) := next_attempt th' e0 (he_attempt env (nat (att + 1))))\<rparr>
      | _ \<Rightarrow> env)"

lemma patch_fields [simp]:
  "he_items (patch th a gw th' env) = he_items env" "he_task (patch th a gw th' env) = he_task env"
  by (cases a; simp add: Let_def split: stage.split)+

lemma serve_after_gates:
  assumes "create_gates (rq_tenant_id req) (rt_id route) (rt_backend_service_id route) (gw_concurrency gw) = (m, Inr ())"
  shows "serve req route env gw =
    after_gates req route env (acquire_gates 4 (he_task env) (he_wait env)
      \<lparr> c_path = gate_path (rq_tenant_id req) (rt_id route) (rt_backend_service_id route), c_held = 0, c_status = Acquiring \<rparr>
      (gw\<lparr>gw_concurrency := m\<rparr>))"
  using assms
  by (auto simp: serve_def acquire_path_def after_gates_def gate_failure_def
      split: prod.splits con_status.splits option.splits exn.splits)

text \<open>One stretch: what was left before it, in the patched environment, is the stretch and what is left after it.\<close>

definition continues :: "'db gateway \<Rightarrow> thread \<Rightarrow> 'db handle_env \<Rightarrow> 'db gateway \<times> thread \<Rightarrow> 'db handle_env \<Rightarrow> bool" where
  "continues gs th env1 gt env \<longleftrightarrow>
     (\<exists>new. th_sent (snd gt) = th_sent th @ new \<and> rest th env1 gs = prepend new (rest (snd gt) env (fst gt)))"

lemma reply_continues:
  assumes inv: "proc_inv l p" and th: "ps_threads p t = Some th" and env: "he_items env = items" "he_task env = t"
    and re: "resume items t (Reply w start e0) th (ps_gateway p) = Some gt"
  shows "continues gs th (patch th (Reply w start e0) (ps_gateway p) (snd gt) env) gt env"
proof -
  let ?gw = "ps_gateway p" and ?req = "th_request th"
  let ?E = "patch th (Reply w start e0) ?gw (snd gt) env"
  from inv th re show ?thesis
  proof (cases rule: reply_cases)
    case (refused route d)
    then show ?thesis by (simp add: continues_def rest_def)
  next
    case (through route d m0 m c)
    let ?c = "new_client ?req route"
    have gt: "past_gates items start e0 route th ?gw (m, c) = (fst gt, snd gt)" using through(7) by simp
    obtain new where new: "th_sent (snd gt) = th_sent th @ new"
      "\<And>E. agrees_from (c_held ?c) E (entered w start e0 (snd gt) (c_held ?c) env) \<Longrightarrow>
        after_gates ?req route E (acquire_gates 4 t (he_wait E) ?c (?gw\<lparr>gw_concurrency := m0\<rparr>))
          = prepend new (rest (snd gt) env (fst gt))"
      by (rule past_gates_rest [OF through(5) _ _ through(6) gt env]) simp_all
    have "agrees_from (c_held ?c) ?E (entered w start e0 (snd gt) (c_held ?c) env)"
      by (simp add: agrees_from_def new_client_def)
    from new(2) [OF this] have "rest th ?E gs = prepend new (rest (snd gt) env (fst gt))"
      using env through(1,3,4) by (simp add: rest_def serve_after_gates new_client_def thread_path_def)
    then show ?thesis using new(1) by (auto simp: continues_def)
  qed
qed

lemma woken_continues:
  assumes inv: "proc_inv l p" and th: "ps_threads p t = Some th" and env: "he_items env = items" "he_task env = t"
    and re: "resume items t (Woken w start e0) th (ps_gateway p) = Some gt"
  shows "continues gs th (patch th (Woken w start e0) (ps_gateway p) (snd gt) env) gt env"
proof -
  let ?gw = "ps_gateway p" and ?req = "th_request th"
  let ?E = "patch th (Woken w start e0) ?gw (snd gt) env"
  from inv th re show ?thesis
  proof (cases rule: woken_cases)
    case (1 route c0 m1 m c)
    let ?n = "length (c_path c0) - Suc (c_held c0)"
    have held: "c_held (advance c0) = Suc (c_held c0)" by (simp add: advance_def)
    have gt: "past_gates items start e0 route th ?gw (m, c) = (fst gt, snd gt)" using 1(10) by simp
    have status: "if ?n = 0 then c_status (advance c0) = Inside else c_status (advance c0) = Acquiring"
      using 1(4) by (auto simp: advance_def)
    obtain new where new: "th_sent (snd gt) = th_sent th @ new"
      "\<And>E. agrees_from (c_held (advance c0)) E (entered w start e0 (snd gt) (c_held (advance c0)) env) \<Longrightarrow>
        after_gates ?req route E (acquire_gates ?n t (he_wait E) (advance c0) (?gw\<lparr>gw_concurrency := m1\<rparr>))
          = prepend new (rest (snd gt) env (fst gt))"
      by (rule past_gates_rest [OF 1(8) _ status 1(9) gt env]) (simp_all add: held)
    have "agrees_from (c_held (advance c0)) ?E (entered w start e0 (snd gt) (c_held (advance c0)) env)"
      using 1(2) by (simp add: agrees_from_def held Let_def)
    note after = new(2) [OF this]
    have w: "he_wait ?E (c_held c0) = \<lparr> we_during_wait = \<lambda>_. ?gw, we_expired = False, we_waited = 0 \<rparr>"
      using 1(2) by (simp add: Let_def)
    have "rest th ?E gs = prepend new (rest (snd gt) env (fst gt))"
      using after env 1(1,2,6,7) w by (simp add: rest_def [of th] waited_at_gate_def Let_def del: patch.simps)
    then show ?thesis using new(1) by (auto simp: continues_def)
  qed
qed

lemma timed_out_continues:
  assumes env: "he_task env = t" and re: "resume items t (Timed_Out w) th gw = Some gt"
  shows "continues gs th (patch th (Timed_Out w) gw (snd gt) env) gt env"
proof -
  obtain route c m c1 e where st: "th_stage th = Queued route" "th_client th = Some c"
    "timeout_client t w c (gw_concurrency gw) = (m, c1)" "c_status c1 = Finished (Some e)"
    "gt = (gw\<lparr>gw_concurrency := m\<rparr>, at_stage (Ended (gate_failure (th_request th) e)) (th\<lparr>th_client := Some c1\<rparr>))"
    using re by (auto split: stage.splits option.splits prod.splits con_status.splits)
  then show ?thesis using env by (simp add: continues_def rest_def waited_at_gate_def after_gates_def)
qed

lemma backend_reply_continues:
  assumes st: "th_stage th = Awaiting route dl att ls lb q" "th_client th = Some c" "0 \<le> att" and env: "he_items env = items"
    and re: "resume items t (Backend_Reply a e0) th gw = Some gt"
  shows "continues gs th (patch th (Backend_Reply a e0) gw (snd gt) env) gt env"
proof -
  let ?req = "th_request th" and ?svc = "rt_backend_service_id route"
  let ?e = "e0\<lparr>ae_send := (\<lambda>_. a), ae_during_send := (\<lambda>_. gw), ae_during_sleep := ae_during_sleep (he_attempt env (nat att))\<rparr>"
  let ?envs = "(he_attempt env)(nat att := ?e)"
  let ?env1 = "env\<lparr>he_attempt := ?envs\<rparr>"
  have E: "patch th (Backend_Reply a e0) gw (snd gt) env = ?env1" using st(1) by simp
  have loop: "dispatch_loop items ?req route dl ?envs att s b g = dispatch_loop items ?req route dl (he_attempt env) att s b g"
    for s b g by (rule dispatch_loop_cong) (use st(3) in auto)
  have cong: "close_attempt rid s ?e = close_attempt rid s e0" "wants_retry r s dl ?e = wants_retry r s dl e0" for rid s r
    by (rule close_attempt_cong; simp) (rule wants_retry_cong; simp)
  obtain gw1 k where cl: "close_attempt (rq_request_id ?req) ?svc e0 ls lb a gw = (gw1, k)" by (metis surj_pair)
  have "th_sent (snd gt) = th_sent th @ [] \<and> rest th ?env1 gs = prepend [] (rest (snd gt) env (fst gt))"
  proof (cases k)
    case (Failed kind s b)
    obtain gw2 more where wr: "wants_retry ?req ?svc dl e0 att kind gw1 = (gw2, more)" by (metis surj_pair)
    show ?thesis
      using re st cl Failed wr env
      by (cases more) (auto simp: rest_def after_sending_def cong loop finish_thread_def)
  qed (use re st cl in \<open>auto simp: rest_def after_sending_def cong finish_thread_def\<close>)
  then show ?thesis unfolding continues_def E by blast
qed

lemma rested_continues:
  assumes st: "th_stage th = Resting route dl att ls lb" "th_client th = Some c" "0 \<le> att" and env: "he_items env = items"
    and re: "resume items t (Rested e0) th gw = Some gt"
  shows "continues gs th (patch th (Rested e0) gw (snd gt) env) gt env"
proof -
  let ?req = "th_request th"
  have lh: "loop_head items route dl att ls lb e0 th gw = (fst gt, snd gt)" using re st by simp
  obtain new where new: "th_sent (snd gt) = th_sent th @ new"
    "\<And>envs. envs (nat (att + 1)) = next_attempt (snd gt) e0 (he_attempt env (nat (att + 1))) \<Longrightarrow>
       (\<And>n. nat (att + 1) < n \<Longrightarrow> envs n = he_attempt env n) \<Longrightarrow>
       released c (dispatch_loop items ?req route dl envs att ls lb gw) = prepend new (rest (snd gt) env (fst gt))"
    by (rule loop_head_rest [OF lh st(2,3) env]) blast
  have ne: "nat att \<noteq> nat (att + 1)" using st(3) by simp
  let ?env1 = "patch th (Rested e0) gw (snd gt) env"
  have "released c (dispatch_loop items ?req route dl (he_attempt ?env1) att ls lb gw) = prepend new (rest (snd gt) env (fst gt))"
    by (rule new(2)) (use st in auto)
  moreover have "ae_during_sleep (he_attempt ?env1 (nat att)) = (\<lambda>_. gw)" using st ne by simp
  ultimately have "rest th ?env1 gs = prepend new (rest (snd gt) env (fst gt))"
    using st env by (simp add: rest_def [of th] del: patch.simps)
  then show ?thesis using new(1) by (auto simp: continues_def)
qed

lemma resume_continues:
  assumes inv: "proc_inv l p" and th: "ps_threads p t = Some th" and ok: "counts_ok th"
    and env: "he_items env = items" "he_task env = t"
    and re: "resume items t a th (ps_gateway p) = Some gt"
  shows "continues gs th (patch th a (ps_gateway p) (snd gt) env) gt env"
proof (cases a)
  case (Reply w start e0)
  then show ?thesis using reply_continues [OF inv th env] re by blast
next
  case (Woken w start e0)
  then show ?thesis using woken_continues [OF inv th env] re by blast
next
  case (Timed_Out w)
  then show ?thesis using timed_out_continues [OF env(2)] re by blast
next
  case (Backend_Reply answer e0)
  then obtain route dl att ls lb q where st: "th_stage th = Awaiting route dl att ls lb q"
    using re by (auto split: stage.splits)
  obtain c where "th_client th = Some c"
    using proc_inv_thread [OF inv th] st by (auto simp: thread_fits_def holds_path_def)
  moreover have "0 \<le> att" using ok st by (simp add: counts_ok_def)
  ultimately show ?thesis using backend_reply_continues [OF st _ _ env(1)] re Backend_Reply by blast
next
  case (Rested e0)
  then obtain route dl att ls lb where st: "th_stage th = Resting route dl att ls lb"
    using re by (auto split: stage.splits)
  obtain c where "th_client th = Some c"
    using proc_inv_thread [OF inv th] st by (auto simp: thread_fits_def holds_path_def)
  moreover have "0 \<le> att" using ok st by (simp add: counts_ok_def)
  ultimately show ?thesis using rested_continues [OF st _ _ env(1)] re Rested by blast
qed

section \<open>The environment a run makes\<close>

text \<open>
  Along a run of the process from \<open>p\<close> on, what the task \<open>t\<close> met at its own steps. The steps of
  the others matter through the shared states they lead to; \<open>d\<close> stands for what the task never
  looked at. And the shared state right after the last step of the task, \<open>gs\<close> if it makes none.
\<close>

fun own_env ::
  "'db redis_ops \<Rightarrow> int \<Rightarrow> (headers \<Rightarrow> headers) \<Rightarrow> task \<Rightarrow> 'db handle_env \<Rightarrow> 'db event list \<Rightarrow> 'db process \<Rightarrow> 'db handle_env" where
  "own_env ops ir items t d [] p = d"
| "own_env ops ir items t d (e # es) p =
     (case proc_apply ops ir items e p of
        None \<Rightarrow> d
      | Some p' \<Rightarrow>
          (let env = own_env ops ir items t d es p' in
           case e of
             Arrives u req clock fault \<Rightarrow> if u = t then env\<lparr>he_clock := clock, he_fault := fault\<rparr> else env
           | Moves u a \<Rightarrow>
               if u = t then patch (the (ps_threads p t)) a (ps_gateway p) (the (ps_threads p' t)) env else env
           | _ \<Rightarrow> env))"

fun is_own :: "task \<Rightarrow> 'db event \<Rightarrow> bool" where
  "is_own t (Arrives u req clock fault) \<longleftrightarrow> u = t"
| "is_own t (Moves u a) \<longleftrightarrow> u = t"
| "is_own t _ \<longleftrightarrow> False"

fun left_behind ::
  "'db redis_ops \<Rightarrow> int \<Rightarrow> (headers \<Rightarrow> headers) \<Rightarrow> task \<Rightarrow> 'db gateway \<Rightarrow> 'db event list \<Rightarrow> 'db process \<Rightarrow> 'db gateway" where
  "left_behind ops ir items t gs [] p = gs"
| "left_behind ops ir items t gs (e # es) p =
     (case proc_apply ops ir items e p of
        None \<Rightarrow> gs
      | Some p' \<Rightarrow> left_behind ops ir items t (if is_own t e then ps_gateway p' else gs) es p')"

lemma own_env_fields [simp]:
  "he_items (own_env ops ir items t d es p) = he_items d" "he_task (own_env ops ir items t d es p) = he_task d"
  by (induction es arbitrary: p) (auto simp: Let_def split: option.split event.split)

lemma own_env_other:
  assumes "\<not> is_own t e" and "proc_apply ops ir items e p = Some p'"
  shows "own_env ops ir items t d (e # es) p = own_env ops ir items t d es p'"
    and "left_behind ops ir items t gs (e # es) p = left_behind ops ir items t gs es p'"
    and "ps_threads p' t = ps_threads p t"
  using assms
  by (cases e; auto simp: Let_def note_probe_def set_redis_def simp del: proc_apply.simps
      dest!: proc_apply_iff [THEN iffD2] elim!: proc_stepE split: prod.splits)+

text \<open>What a thread still does along a run is what its rest does in the environment of the run.\<close>

lemma run_rest:
  assumes "reach (proc_start l) (proc_step ops ir items) p" and "ps_threads p t = Some th"
    and "proc_exec ops ir items es p = Some p'" and "ps_threads p' t = Some th'"
    and env: "he_items d = items" "he_task d = t"
  shows "\<exists>new. th_sent th' = th_sent th @ new \<and> th_request th' = th_request th
    \<and> rest th (own_env ops ir items t d es p) gs = prepend new (rest th' d (left_behind ops ir items t gs es p))"
  using assms(1-3)
proof (induction es arbitrary: p th gs)
  case Nil
  with assms(4) show ?case by simp
next
  case (Cons e es)
  then obtain q where q: "proc_apply ops ir items e p = Some q" "proc_exec ops ir items es q = Some p'"
    by (auto simp: bind_eq_Some_conv)
  have reached: "reach (proc_start l) (proc_step ops ir items) q"
    using reach_step [OF Cons.prems(1) proc_apply_iff [THEN iffD2, OF q(1)]] .
  show ?case
  proof (cases "is_own t e")
    case False
    note o = own_env_other [OF False q(1)]
    have "ps_threads q t = Some th" using o(3) Cons.prems(2) by simp
    from Cons.IH [OF reached this q(2), of gs] show ?thesis by (simp only: o)
  next
    case True
    then obtain a where e: "e = Moves t a" using q(1) Cons.prems(2) by (cases e) auto
    then obtain gt where gt: "resume items t a th (ps_gateway p) = Some gt" "q = put_thread t gt p"
      using q(1) Cons.prems(2) by auto
    note inv = proc.reach_inv [OF Cons.prems(1)] and ok = reach_counts [OF Cons.prems(1,2)]
    have req: "th_request (snd gt) = th_request th" using resume_counts [OF inv Cons.prems(2) gt(1) ok] by simp
    let ?env = "own_env ops ir items t d es q"
    have own: "own_env ops ir items t d (e # es) p = patch th a (ps_gateway p) (snd gt) ?env"
      "left_behind ops ir items t gs (e # es) p = left_behind ops ir items t (fst gt) es q"
      using q(1) e Cons.prems(2) gt(2) by (simp_all del: proc_apply.simps)
    have "continues gs th (patch th a (ps_gateway p) (snd gt) ?env) gt ?env"
      by (rule resume_continues [OF inv Cons.prems(2) ok _ _ gt(1)]) (simp_all add: env)
    then obtain new where new: "th_sent (snd gt) = th_sent th @ new"
      "rest th (patch th a (ps_gateway p) (snd gt) ?env) gs = prepend new (rest (snd gt) ?env (fst gt))"
      by (auto simp: continues_def)
    have "ps_threads q t = Some (snd gt)" using gt(2) by simp
    from Cons.IH [OF reached this q(2), of "fst gt"] new req show ?thesis
      by (auto simp del: own_env.simps left_behind.simps simp: own)
  qed
qed

lemma arrive_rest:
  assumes "he_items env = items" and "arrive ops ir req clock fault gw = (gw', th)"
  shows "handle ops ir req (env\<lparr>he_clock := clock, he_fault := fault\<rparr>) gw = prepend (th_sent th) (rest th env gw')"
proof -
  let ?env1 = "env\<lparr>he_clock := clock, he_fault := fault\<rparr>"
  have fields: "he_task ?env1 = he_task env" "he_wait ?env1 = he_wait env" "he_items ?env1 = he_items env"
    "he_start ?env1 = he_start env" "he_attempt ?env1 = he_attempt env" by simp_all
  have "serve req route ?env1 g = serve req route env g" for route g
    unfolding serve_def fields by (rule refl)
  then show ?thesis using assms(2)
    by (auto simp: arrive_def handle_def rest_def Let_def split: if_splits sum.splits exn.splits prod.splits)
qed

section \<open>Properties\<close>

text \<open>C4.
  Every request, in every interleaving, is a run of \<open>handle\<close>. Take any reachable state of a
  process, let a request arrive there and the process run on in any way, and say the request has
  ended. Then \<open>handle\<close>, called with that request on the shared state its arrival found, in the
  environment made of exactly what the request met at its own steps in this run (the shared states
  it found when it was resumed, its clock readings, its backends' answers, the fault of its Redis
  call), gives the answer or exception it ended with, sends to backends exactly what it sent, and
  leaves the shared state of its last step, whatever \<open>d\<close> has for what it never looked at. So what is
  proved of \<open>handle\<close> holds of every request the process serves.\<close>

theorem every_request_runs_handle:
  assumes "reach (proc_start l) (proc_step ops ir items) p" and "es = Arrives t req clock fault # es'"
    and "proc_exec ops ir items es p = Some p'" and "ps_threads p' t = Some th" and "th_stage th = Ended r"
    and "he_items d = items" and "he_task d = t"
  shows "handle ops ir req (own_env ops ir items t d es p) (ps_gateway p)
    = (left_behind ops ir items t (ps_gateway p) es p, th_sent th, r)"
proof -
  obtain gw1 th1 where ar: "arrive ops ir req clock fault (ps_gateway p) = (gw1, th1)" by (metis surj_pair)
  from assms(2,3) obtain q where q: "proc_apply ops ir items (Arrives t req clock fault) p = Some q"
    "proc_exec ops ir items es' q = Some p'" by (auto simp: bind_eq_Some_conv)
  then have q': "q = put_thread t (gw1, th1) p" using ar by (auto split: option.splits)
  have reached: "reach (proc_start l) (proc_step ops ir items) q"
    using reach_step [OF assms(1) proc_apply_iff [THEN iffD2, OF q(1)]] .
  let ?env = "own_env ops ir items t d es' q"
  have own: "own_env ops ir items t d es p = ?env\<lparr>he_clock := clock, he_fault := fault\<rparr>"
    "left_behind ops ir items t (ps_gateway p) es p = left_behind ops ir items t gw1 es' q"
    using q(1) q' by (simp_all add: assms(2) del: proc_apply.simps)
  have "ps_threads q t = Some th1" using q' by simp
  from run_rest [OF reached this q(2) assms(4,6,7), of gw1] obtain new where new: "th_sent th = th_sent th1 @ new"
    "rest th1 ?env gw1 = prepend new (rest th d (left_behind ops ir items t gw1 es' q))" by blast
  have "handle ops ir req (?env\<lparr>he_clock := clock, he_fault := fault\<rparr>) (ps_gateway p)
      = prepend (th_sent th1) (rest th1 ?env gw1)"
    by (rule arrive_rest [OF _ ar]) (simp add: assms(6))
  with new assms(5) show ?thesis unfolding own by (simp add: rest_def)
qed

text \<open>The second request of the example: it waits for a slot, is woken, fails once and is answered.\<close>

definition ex_default :: "mem_db handle_env" where
  "ex_default = (ex_env (Inl (HttpxError ConnectError)))\<lparr>he_task := 1\<rparr>"

definition ex_first :: "mem_db process" where
  "ex_first =
     (case proc_exec memory_server 0 lower_items [hd ex_both] ex_process of Some p \<Rightarrow> p | None \<Rightarrow> ex_process)"

theorem every_request_runs_handle_witness:
  "\<exists>gw' qs res. handle memory_server 0 ex_request
      (own_env memory_server 0 lower_items 1 ex_default (tl ex_both @ ex_served) ex_first)
      (ps_gateway ex_first) = (gw', qs, Inr res) \<and> length qs = 2 \<and> status_code res = 200"
proof -
  let ?es = "tl ex_both @ ex_served"
  have all: "proc_exec memory_server 0 lower_items ([hd ex_both] @ ?es) ex_process = Some ex_answered"
  proof -
    have "[hd ex_both] @ ?es = ex_both @ ex_served" by (simp add: ex_both_def Let_def)
    with ex_process_runs show ?thesis by (simp only: proc_exec_steps proc_exec_append) simp
  qed
  have "case proc_exec memory_server 0 lower_items [hd ex_both] ex_process of None \<Rightarrow> False | Some _ \<Rightarrow> True"
    by code_simp
  then have first: "proc_exec memory_server 0 lower_items [hd ex_both] ex_process = Some ex_first"
    by (auto simp: ex_first_def split: option.splits)
  have reached: "reach (proc_start ex_limits) (proc_step memory_server 0 lower_items) ex_first"
    by (rule reach_steps [OF reach_start [of "proc_start ex_limits", OF ex_process_start] proc_exec_steps [THEN iffD2, OF first]])
  have run: "proc_exec memory_server 0 lower_items ?es ex_first = Some ex_answered"
    using all unfolding proc_exec_append [of _ _ _ "[hd ex_both]"] first bind.bind_lunit .
  have es: "?es = Arrives 1 ex_request 10 Answered # tl ?es" by (simp add: ex_both_def Let_def)
  have "case ps_threads ex_answered 1 of None \<Rightarrow> False
      | Some th \<Rightarrow> length (th_sent th) = 2
          \<and> (case th_stage th of Ended (Inr res) \<Rightarrow> status_code res = 200 | _ \<Rightarrow> False)"
    by code_simp
  then obtain th res where th: "ps_threads ex_answered 1 = Some th" "length (th_sent th) = 2"
    "th_stage th = Ended (Inr res)" "status_code res = 200"
    by (auto split: option.splits stage.splits sum.splits)
  have "he_items ex_default = lower_items" "he_task ex_default = 1" by (simp_all add: ex_default_def ex_env_def)
  from every_request_runs_handle [OF reached es run th(1,3) this] th(2,4) show ?thesis by blast
qed

end
