(* ===== verification/Half_Open.thy ===== *)
theory Half_Open
  imports Circuit_Breaker
begin

text \<open>
  The promise of \<^verbatim>\<open>before_request\<close> in \<^verbatim>\<open>breaker.py\<close>, that a half-open circuit has at
  most \<^verbatim>\<open>half_open_max_requests\<close> probes running at once. The breaker keeps only a counter, and a
  report does not say whose it is, so the promise is about the callers as well: here a caller has a
  name, \<open>pb_flight\<close> remembers for every request under way in which period it was admitted, and
  a period ends when the circuit becomes half-open. A request may also end without a report, as one
  does whose error the pipeline does not handle.
\<close>

section \<open>Callers\<close>

record probing =
  pb_breaker :: breaker
  pb_period :: nat
  pb_flight :: "nat \<Rightarrow> nat option"
  pb_good :: nat

datatype pb_event =
    Asks nat seconds
  | Succeeds nat seconds
  | Fails nat seconds seconds
  | Vanishes nat
  | Looks seconds

text \<open>The breaker after a call; looking at an expired open circuit begins a new period.\<close>

definition put_call :: "breaker \<Rightarrow> probing \<Rightarrow> probing" where
  "put_call b s =
     (if cb_state (pb_breaker s) = OPEN \<and> cb_state b = HALF_OPEN
      then s\<lparr>pb_breaker := b, pb_period := Suc (pb_period s), pb_good := 0\<rparr>
      else s\<lparr>pb_breaker := b\<rparr>)"

definition lands :: "nat \<Rightarrow> probing \<Rightarrow> probing" where
  "lands u s = s\<lparr>pb_flight := (pb_flight s)(u := None)\<rparr>"

fun pb_apply :: "pb_event \<Rightarrow> probing \<Rightarrow> probing option" where
  "pb_apply (Asks u t) s =
     (if pb_flight s u \<noteq> None then None
      else case before_request t (pb_breaker s) of
             (b, Inl e) \<Rightarrow> Some (put_call b s)
           | (b, Inr _) \<Rightarrow>
               (let s1 = put_call b s in Some (s1\<lparr>pb_flight := (pb_flight s1)(u \<mapsto> pb_period s1)\<rparr>)))"
| "pb_apply (Succeeds u t) s =
     (if pb_flight s u = None then None
      else let good = (if pb_flight s u = Some (pb_period s) then Suc (pb_good s) else pb_good s)
           in Some (lands u (put_call (record_success t (pb_breaker s)) (s\<lparr>pb_good := good\<rparr>))))"
| "pb_apply (Fails u t t') s =
     (if pb_flight s u = None then None
      else Some (lands u (put_call (fst (record_failure t t' (pb_breaker s))) s)))"
| "pb_apply (Vanishes u) s = (if pb_flight s u = None then None else Some (lands u s))"
| "pb_apply (Looks t) s = Some (put_call (read_state t (pb_breaker s)) s)"

fun pb_exec :: "pb_event list \<Rightarrow> probing \<Rightarrow> probing option" where
  "pb_exec [] s = Some s"
| "pb_exec (e # es) s = Option.bind (pb_apply e s) (pb_exec es)"

text \<open>No success from an earlier period reaches a half-open circuit.\<close>

fun in_time :: "probing \<Rightarrow> pb_event \<Rightarrow> bool" where
  "in_time s (Succeeds u t) \<longleftrightarrow>
     (cb_state (pb_breaker s) = HALF_OPEN \<longrightarrow> pb_flight s u = Some (pb_period s))"
| "in_time s e \<longleftrightarrow> True"

definition pb_step :: "probing \<Rightarrow> pb_event \<Rightarrow> probing \<Rightarrow> bool" where
  "pb_step s e s' \<longleftrightarrow> pb_apply e s = Some s' \<and> in_time s e"

definition pb_start :: "CircuitBreakerConfig \<Rightarrow> probing \<Rightarrow> bool" where
  "pb_start c s \<longleftrightarrow> started c (pb_breaker s) \<and> pb_flight s = Map.empty"

definition probes :: "probing \<Rightarrow> nat set" where
  "probes s = {u. pb_flight s u = Some (pb_period s)}"

definition pb_inv :: "CircuitBreakerConfig \<Rightarrow> probing \<Rightarrow> bool" where
  "pb_inv c s \<longleftrightarrow>
     breaker_inv c (pb_breaker s) \<and> finite (dom (pb_flight s))
   \<and> (\<forall>u n. pb_flight s u = Some n \<longrightarrow> n \<le> pb_period s)
   \<and> (cb_state (pb_breaker s) = HALF_OPEN \<longrightarrow>
        int (card (probes s)) \<le> half_open_in_flight (pb_breaker s)
      \<and> half_open_successes (pb_breaker s) = int (pb_good s))"

section \<open>One call\<close>

lemma probes_finite: "pb_inv c s \<Longrightarrow> finite (probes s)"
  by (rule finite_subset [of _ "dom (pb_flight s)"]) (auto simp: pb_inv_def probes_def)

lemma lands_fields [simp]:
  "pb_breaker (lands u s) = pb_breaker s" "pb_period (lands u s) = pb_period s" "pb_good (lands u s) = pb_good s"
  "pb_flight (lands u s) = (pb_flight s)(u := None)"
  by (simp_all add: lands_def)

lemma probes_lands: "probes (lands u s) = probes s - {u}"
  by (auto simp: probes_def)

lemma put_call_fields [simp]: "pb_breaker (put_call b s) = b" "pb_flight (put_call b s) = pb_flight s"
  by (simp_all add: put_call_def)

text \<open>A look at the state leaves a half-open circuit as it is, or begins a period without probes.\<close>

lemma look_inv:
  assumes "pb_inv c s"
  shows "pb_inv c (put_call (read_state t (pb_breaker s)) s)"
proof (cases rule: read_state_cases [of t "pb_breaker s"])
  case same
  then have "put_call (read_state t (pb_breaker s)) s = s" by (auto simp: put_call_def)
  with assms show ?thesis by simp
next
  case (expired opened)
  let ?s = "put_call (read_state t (pb_breaker s)) s"
  have "breaker_inv c (read_state t (pb_breaker s))" using assms by (simp add: pb_inv_def read_state_inv)
  moreover have "probes ?s = {}"
    using assms expired by (fastforce simp: probes_def put_call_def pb_inv_def)
  ultimately show ?thesis using assms expired
    by (auto simp: pb_inv_def put_call_def transition_to_half_open_def intro: le_SucI)
qed

lemma asks_inv:
  assumes "pb_inv c s" and "pb_apply (Asks u t) s = Some s'"
  shows "pb_inv c s'"
proof (cases rule: before_request_cases [of t "pb_breaker s"])
  case rejected
  with assms look_inv [OF assms(1), of t] show ?thesis by (auto split: if_splits)
next
  case passed
  with assms look_inv [OF assms(1), of t] show ?thesis
    by (auto simp: pb_inv_def Let_def split: if_splits)
next
  case probe
  let ?b = "read_state t (pb_breaker s)"
  let ?s1 = "put_call ?b s"
  note inv = look_inv [OF assms(1), of t]
  have new: "put_call (?b\<lparr>half_open_in_flight := half_open_in_flight ?b + 1\<rparr>) s
      = ?s1\<lparr>pb_breaker := ?b\<lparr>half_open_in_flight := half_open_in_flight ?b + 1\<rparr>\<rparr>"
    by (simp add: put_call_def)
  have s': "s' = ?s1\<lparr>pb_breaker := ?b\<lparr>half_open_in_flight := half_open_in_flight ?b + 1\<rparr>,
      pb_flight := (pb_flight s)(u \<mapsto> pb_period ?s1)\<rparr>"
    and free: "pb_flight s u = None"
    using assms(2) probe(3) by (auto simp: new Let_def split: if_splits)
  have "probes s' = insert u (probes ?s1)" by (auto simp: s' probes_def)
  moreover have "u \<notin> probes ?s1" using free by (simp add: probes_def)
  ultimately have "card (probes s') = Suc (card (probes ?s1))" using probes_finite [OF inv] by simp
  moreover have "breaker_inv c (fst (before_request t (pb_breaker s)))"
    using assms(1) by (simp add: pb_inv_def before_request_inv)
  ultimately show ?thesis using inv probe(1,3) by (auto simp: pb_inv_def s')
qed

lemma leaves_inv:
  assumes "pb_inv c s" and "breaker_inv c b" and "cb_state b \<noteq> HALF_OPEN"
  shows "pb_inv c (lands u (put_call b (s\<lparr>pb_good := n\<rparr>)))"
  using assms by (auto simp: pb_inv_def put_call_def)

lemma succeeds_inv:
  assumes inv: "pb_inv c s" and "pb_apply (Succeeds u t) s = Some s'" and "in_time s (Succeeds u t)"
  shows "pb_inv c s'"
proof -
  let ?b = "record_success t (pb_breaker s)"
  let ?good = "if pb_flight s u = Some (pb_period s) then Suc (pb_good s) else pb_good s"
  have s': "s' = lands u (put_call ?b (s\<lparr>pb_good := ?good\<rparr>))"
    using assms(2) by (auto simp: Let_def split: if_splits)
  have b: "breaker_inv c ?b" using inv by (simp add: pb_inv_def record_success_inv)
  show ?thesis
  proof (cases "cb_state ?b = HALF_OPEN")
    case False
    with leaves_inv [OF inv b] show ?thesis unfolding s' by blast
  next
    case True
    then have half: "cb_state (pb_breaker s) = HALF_OPEN"
      and more: "half_open_successes (pb_breaker s) + 1 < half_open_max_requests (cb_config (pb_breaker s))"
      by (auto simp: cb_state_record_success split: if_splits)
    with assms(3) have u: "pb_flight s u = Some (pb_period s)" by simp
    then have mem: "u \<in> probes s" by (simp add: probes_def)
    have "half_open_in_flight ?b = max 0 (half_open_in_flight (pb_breaker s) - 1)"
      "half_open_successes ?b = half_open_successes (pb_breaker s) + 1"
      using half more by (simp_all add: record_success_def append_outcome_def Let_def)
    moreover have "probes s' = probes s - {u}" using half by (auto simp: s' probes_def put_call_def)
    moreover have "0 < card (probes s)" using mem probes_finite [OF inv] by (auto simp: card_gt_0_iff)
    ultimately show ?thesis
      using inv b half u mem card_Diff_singleton [OF mem] by (auto simp: pb_inv_def s' put_call_def)
  qed
qed

lemma fails_inv:
  assumes "pb_inv c s" and "pb_apply (Fails u t t') s = Some s'"
  shows "pb_inv c s'"
proof -
  let ?b = "fst (record_failure t t' (pb_breaker s))"
  have "cb_state ?b \<noteq> HALF_OPEN"
    using cb_state_maybe_open [of "append_outcome False t (pb_breaker s)" t']
    by (cases "cb_state (pb_breaker s)") (auto simp: cb_state_record_failure)
  moreover have "breaker_inv c ?b" using assms(1) by (simp add: pb_inv_def record_failure_inv)
  ultimately show ?thesis using leaves_inv [OF assms(1), of ?b u "pb_good s"] assms(2) by (auto split: if_splits)
qed

lemma vanishes_inv:
  assumes "pb_inv c s"
  shows "pb_inv c (lands u s)"
proof -
  have "card (probes s - {u}) \<le> card (probes s)" by (rule card_mono [OF probes_finite [OF assms]]) blast
  with assms show ?thesis by (auto simp: pb_inv_def probes_lands)
qed

lemma pb_step_inv: "pb_inv c s \<Longrightarrow> pb_step s e s' \<Longrightarrow> pb_inv c s'"
proof (cases e)
  case (Asks u t)
  then show "pb_inv c s \<Longrightarrow> pb_step s e s' \<Longrightarrow> pb_inv c s'" using asks_inv unfolding pb_step_def by blast
next
  case (Succeeds u t)
  then show "pb_inv c s \<Longrightarrow> pb_step s e s' \<Longrightarrow> pb_inv c s'" using succeeds_inv unfolding pb_step_def by blast
next
  case (Fails u t t')
  then show "pb_inv c s \<Longrightarrow> pb_step s e s' \<Longrightarrow> pb_inv c s'" using fails_inv unfolding pb_step_def by blast
qed (auto simp: pb_step_def vanishes_inv look_inv split: if_splits)

lemma pb_start_inv:
  assumes "pb_start c s"
  shows "pb_inv c s"
proof -
  have st: "started c (pb_breaker s)" "pb_flight s = Map.empty" using assms by (simp_all add: pb_start_def)
  from st(1) obtain name where "new_breaker name c = pb_breaker s"
    by (auto simp: started_def init_breaker_def split: if_splits)
  moreover have "cb_state (new_breaker name c) = CLOSED" by (simp add: new_breaker_def)
  ultimately have "cb_state (pb_breaker s) = CLOSED" by simp
  with st started_inv [OF st(1)] show ?thesis by (simp add: pb_inv_def)
qed

interpretation pb: invariant_system "pb_start c" pb_step "pb_inv c" for c
  by unfold_locales (auto intro: pb_start_inv pb_step_inv)

section \<open>The limit\<close>

definition ex_probing :: probing where
  "ex_probing =
     \<lparr> pb_breaker = new_breaker ''users'' small_config, pb_period = 0, pb_flight = Map.empty, pb_good = 0 \<rparr>"

text \<open>
  The circuit opens while requests 3 and 4 are under way, becomes half-open and admits its two probes.
\<close>

definition ex_probed :: "pb_event list" where
  "ex_probed = [Asks 1 0, Asks 2 0, Asks 3 0, Asks 4 0, Fails 1 1 1, Fails 2 1 1, Asks 5 11, Asks 6 12]"

definition ex_probes_out :: probing where
  "ex_probes_out = (case pb_exec ex_probed ex_probing of Some s \<Rightarrow> s | None \<Rightarrow> ex_probing)"

text \<open>
  Without the assumption on time the promise fails: the successes of two requests admitted before
  the circuit opened let a third probe through and then close the circuit, while all three probes are
  still under way.
\<close>

lemma late_successes_close_the_circuit:
  "case pb_exec [Succeeds 3 13, Asks 7 13] ex_probes_out of
     None \<Rightarrow> False
   | Some s \<Rightarrow> cb_state (pb_breaker s) = HALF_OPEN \<and> half_open_max_requests (cb_config (pb_breaker s)) = 2
       \<and> (\<forall>u \<in> {5, 6, 7}. pb_flight s u = Some (pb_period s))
       \<and> (case pb_exec [Succeeds 4 14] s of
            None \<Rightarrow> False
          | Some s' \<Rightarrow> cb_state (pb_breaker s') = CLOSED \<and> pb_good s' = 0
              \<and> (\<forall>u \<in> {5, 6, 7}. pb_flight s' u = Some (pb_period s')))"
  by code_simp

lemma steps_exec:
  "pb_exec es s = Some s' \<Longrightarrow> \<forall>e \<in> set es. \<forall>u t. e \<noteq> Succeeds u t \<Longrightarrow> steps pb_step s es s'"
proof (induction es arbitrary: s)
  case (Cons e es)
  then obtain q where q: "pb_apply e s = Some q" "pb_exec es q = Some s'" by (auto simp: bind_eq_Some_conv)
  have "in_time s e" using Cons.prems(2) by (cases e) auto
  with q Cons.IH [OF q(2)] Cons.prems(2) show ?case by (auto simp: pb_step_def)
qed simp

lemma ex_probes_out_reached: "reach (pb_start small_config) pb_step ex_probes_out"
proof -
  have "pb_start small_config ex_probing"
    by (simp add: pb_start_def ex_probing_def started_new small_config_def)
  moreover have "case pb_exec ex_probed ex_probing of None \<Rightarrow> False | Some _ \<Rightarrow> True" by code_simp
  then have "pb_exec ex_probed ex_probing = Some ex_probes_out" by (auto simp: ex_probes_out_def split: option.splits)
  then have "steps pb_step ex_probing ex_probed ex_probes_out" by (rule steps_exec) (simp add: ex_probed_def)
  ultimately show ?thesis by (rule reach_steps [OF reach_start])
qed

text \<open>C12.
  The probe limit. As long as no success of a request admitted before the circuit opened arrives
  once it is half-open, the requests admitted to a half-open circuit and still under way number at
  most \<^verbatim>\<open>half_open_max_requests\<close> at every moment, however calls and reports interleave and
  whichever requests never report; and the circuit closes only on the success of such a request,
  after as many successes of requests of this half-open period as
  \<^verbatim>\<open>half_open_max_requests\<close> demands.\<close>

theorem half_open_probe_limit:
  assumes "reach (pb_start c) pb_step s" and "cb_state (pb_breaker s) = HALF_OPEN"
  shows "finite (probes s) \<and> int (card (probes s)) \<le> max 0 (half_open_max_requests c)
    \<and> (\<forall>e s'. pb_step s e s' \<and> cb_state (pb_breaker s') = CLOSED \<longrightarrow>
         (\<exists>u t. e = Succeeds u t \<and> u \<in> probes s \<and> int (pb_good s') \<ge> half_open_max_requests c))"
proof -
  note inv = pb.reach_inv [OF assms(1)]
  have cfg: "cb_config (pb_breaker s) = c" and good: "half_open_successes (pb_breaker s) = int (pb_good s)"
    and le: "int (card (probes s)) \<le> half_open_in_flight (pb_breaker s)"
    "half_open_in_flight (pb_breaker s) \<le> max 0 (half_open_max_requests c)"
    using inv assms(2) by (auto simp: pb_inv_def breaker_inv_def)
  have "\<exists>u t. e = Succeeds u t \<and> u \<in> probes s \<and> int (pb_good s') \<ge> half_open_max_requests c"
    if st: "pb_step s e s'" "cb_state (pb_breaker s') = CLOSED" for e s'
  proof (cases e)
    case (Succeeds u t)
    then have u: "u \<in> probes s" using st(1) assms(2) by (simp add: pb_step_def probes_def)
    then have "pb_flight s u = Some (pb_period s)" by (simp add: probes_def)
    then have s': "pb_breaker s' = record_success t (pb_breaker s)" "pb_good s' = Suc (pb_good s)"
      using st(1) Succeeds assms(2) by (auto simp: pb_step_def Let_def put_call_def)
    then have "half_open_successes (pb_breaker s) + 1 \<ge> half_open_max_requests c"
      using st(2) assms(2) cfg by (auto simp: cb_state_record_success split: if_splits)
    with u Succeeds s' good show ?thesis by simp
  next
    case (Asks u t)
    have "read_state t (pb_breaker s) = pb_breaker s" using assms(2) by (simp add: read_state_def)
    with st Asks assms(2) show ?thesis
      by (cases rule: before_request_cases [of t "pb_breaker s"]) (auto simp: pb_step_def Let_def split: if_splits)
  qed (use st assms(2) in \<open>auto simp: pb_step_def cb_state_record_failure read_state_def split: if_splits\<close>)
  with le probes_finite [OF inv] show ?thesis by auto
qed

theorem half_open_probe_limit_witness:
  "5 \<in> probes ex_probes_out \<and> 6 \<in> probes ex_probes_out \<and> int (card (probes ex_probes_out)) \<le> 2"
proof -
  have st: "cb_state (pb_breaker ex_probes_out) = HALF_OPEN" by code_simp
  have "pb_flight ex_probes_out 5 = Some (pb_period ex_probes_out)" "pb_flight ex_probes_out 6 = Some (pb_period ex_probes_out)"
    by (code_simp, code_simp)
  moreover have "half_open_max_requests small_config = 2" by (simp add: small_config_def)
  ultimately show ?thesis using half_open_probe_limit [OF ex_probes_out_reached st] by (simp add: probes_def)
qed

end
