(* ===== verification/Schema.thy ===== *)
theory Schema
  imports Sentinel_Prelude "HOL-Library.Multiset"
begin

text \<open>
  The tables of the control plane, \<^verbatim>\<open>src/packages/database/models.py\<close>, as data: one
  definition per mapped class, with the columns in the order of the class, their types, whether
  they may be null, their defaults and the constraints. A column is nullable exactly when its
  annotation is an optional type. The relationships add no columns.

  \<open>fill_row\<close> is what the mapper sends for an object whose constructor was given some of the
  attributes; \<open>conforms\<close> is what the declared constraints ask of a new row. The database
  itself is not part of the repository: \<open>sql_ops\<close> has the two statements the control plane
  sends, the locale \<open>relational_db\<close> what is relied upon, and a database in memory shows that
  it can be had.
\<close>

section \<open>Columns and tables\<close>

datatype sql_value =
    SNull
  | SUuid int
  | SStr string
  | SInt int
  | SFloat rat
  | SBool bool
  | STime seconds
  | SEnum string
  | SArray "string list"
  | SJson "(string \<times> string) list"

datatype col_type =
    UUID_T
  | String_T "int option"
  | Integer_T
  | Float_T
  | Boolean_T
  | DateTime_T
  | Enum_T string "string list"
  | Array_T
  | JSONB_T

datatype col_default = No_Default | Constant sql_value | Uuid4 | Server_Now

record column =
  c_name :: string
  c_type :: col_type
  c_nullable :: bool
  c_unique :: bool
  c_default :: col_default
  c_foreign_key :: "(string \<times> string) option"

record table_def =
  t_name :: string
  t_columns :: "column list"
  t_unique :: "string list list"

definition mapped_column :: "string \<Rightarrow> col_type \<Rightarrow> column" where
  "mapped_column name ty =
     \<lparr> c_name = name, c_type = ty, c_nullable = False, c_unique = False, c_default = No_Default,
       c_foreign_key = None \<rparr>"

definition uuid_pk :: "string \<Rightarrow> column" where
  "uuid_pk name = (mapped_column name UUID_T)\<lparr>c_unique := True, c_default := Uuid4\<rparr>"

definition with_default :: "sql_value \<Rightarrow> column \<Rightarrow> column" where
  "with_default v c = c\<lparr>c_default := Constant v\<rparr>"

definition optional :: "column \<Rightarrow> column" where
  "optional c = c\<lparr>c_nullable := True\<rparr>"

definition timestamp_column :: "string \<Rightarrow> column" where
  "timestamp_column name = (mapped_column name DateTime_T)\<lparr>c_default := Server_Now\<rparr>"

definition foreign_key :: "string \<Rightarrow> string \<Rightarrow> string \<Rightarrow> column" where
  "foreign_key name tab col = (mapped_column name UUID_T)\<lparr>c_foreign_key := Some (tab, col)\<rparr>"

section \<open>The enumerations\<close>

definition tenant_status :: col_type where
  "tenant_status = Enum_T ''tenant_status'' [''ACTIVE'', ''SUSPENDED'']"

definition api_key_status :: col_type where
  "api_key_status = Enum_T ''api_key_status'' [''ACTIVE'', ''REVOKED'', ''EXPIRED'']"

definition backend_instance_status :: col_type where
  "backend_instance_status =
     Enum_T ''backend_instance_status'' [''HEALTHY'', ''UNHEALTHY'', ''DRAINING'', ''UNKNOWN'']"

definition rate_limit_algorithm :: col_type where
  "rate_limit_algorithm =
     Enum_T ''rate_limit_algorithm'' [''TOKEN_BUCKET'', ''SLIDING_WINDOW'', ''FIXED_WINDOW'']"

definition rate_limit_scope :: col_type where
  "rate_limit_scope =
     Enum_T ''rate_limit_scope'' [''TENANT'', ''API_KEY'', ''ROUTE'', ''IP'', ''COMPOSITE'']"

definition route_priority :: col_type where
  "route_priority = Enum_T ''route_priority'' [''HIGH'', ''NORMAL'', ''LOW'']"

section \<open>The mapped classes\<close>

definition Tenant :: table_def where
  "Tenant =
     \<lparr> t_name = ''tenants'',
       t_columns =
         [uuid_pk ''id'',
          (mapped_column ''name'' (String_T (Some 255)))\<lparr>c_unique := True\<rparr>,
          with_default (SEnum ''ACTIVE'') (mapped_column ''status'' tenant_status),
          timestamp_column ''created_at'',
          timestamp_column ''updated_at''],
       t_unique = [] \<rparr>"

definition ApiKey :: table_def where
  "ApiKey =
     \<lparr> t_name = ''api_keys'',
       t_columns =
         [uuid_pk ''id'',
          foreign_key ''tenant_id'' ''tenants'' ''id'',
          mapped_column ''key_prefix'' (String_T (Some 16)),
          mapped_column ''key_hash'' (String_T (Some 255)),
          with_default (SEnum ''ACTIVE'') (mapped_column ''status'' api_key_status),
          timestamp_column ''created_at'',
          optional (mapped_column ''expires_at'' DateTime_T),
          optional (mapped_column ''last_used_at'' DateTime_T)],
       t_unique = [] \<rparr>"

definition BackendService :: table_def where
  "BackendService =
     \<lparr> t_name = ''backend_services'',
       t_columns =
         [uuid_pk ''id'',
          foreign_key ''tenant_id'' ''tenants'' ''id'',
          mapped_column ''name'' (String_T (Some 255)),
          mapped_column ''base_url'' (String_T (Some 1024)),
          with_default (SStr ''/health'') (mapped_column ''health_check_path'' (String_T (Some 255))),
          with_default (SStr ''ACTIVE'') (mapped_column ''status'' (String_T (Some 32))),
          timestamp_column ''created_at'',
          timestamp_column ''updated_at''],
       t_unique = [[''tenant_id'', ''name'']] \<rparr>"

definition BackendInstanceRow :: table_def where
  "BackendInstanceRow =
     \<lparr> t_name = ''backend_instances'',
       t_columns =
         [uuid_pk ''id'',
          foreign_key ''backend_service_id'' ''backend_services'' ''id'',
          mapped_column ''host'' (String_T (Some 255)),
          mapped_column ''port'' Integer_T,
          with_default (SInt 1) (mapped_column ''weight'' Integer_T),
          with_default (SEnum ''UNKNOWN'') (mapped_column ''status'' backend_instance_status),
          with_default (SInt 0) (mapped_column ''active_connections'' Integer_T),
          with_default (SInt 0) (mapped_column ''failure_count'' Integer_T),
          optional (mapped_column ''last_health_check'' DateTime_T)],
       t_unique = [] \<rparr>"

definition RateLimitPolicy :: table_def where
  "RateLimitPolicy =
     \<lparr> t_name = ''rate_limit_policies'',
       t_columns =
         [uuid_pk ''id'',
          foreign_key ''tenant_id'' ''tenants'' ''id'',
          mapped_column ''name'' (String_T (Some 255)),
          mapped_column ''algorithm'' rate_limit_algorithm,
          mapped_column ''requests_per_second'' Float_T,
          mapped_column ''burst_capacity'' Integer_T,
          with_default (SInt 60) (mapped_column ''window_seconds'' Integer_T),
          mapped_column ''scope'' rate_limit_scope,
          with_default (SBool True) (mapped_column ''enabled'' Boolean_T)],
       t_unique = [] \<rparr>"

definition CircuitBreakerPolicy :: table_def where
  "CircuitBreakerPolicy =
     \<lparr> t_name = ''circuit_breaker_policies'',
       t_columns =
         [uuid_pk ''id'',
          foreign_key ''tenant_id'' ''tenants'' ''id'',
          with_default (SFloat (1 / 2)) (mapped_column ''failure_threshold'' Float_T),
          with_default (SInt 20) (mapped_column ''minimum_requests'' Integer_T),
          with_default (SInt 10000) (mapped_column ''open_duration_ms'' Integer_T),
          with_default (SInt 3) (mapped_column ''half_open_requests'' Integer_T),
          with_default (SBool True) (mapped_column ''enabled'' Boolean_T)],
       t_unique = [] \<rparr>"

definition Route :: table_def where
  "Route =
     \<lparr> t_name = ''routes'',
       t_columns =
         [uuid_pk ''id'',
          foreign_key ''tenant_id'' ''tenants'' ''id'',
          mapped_column ''name'' (String_T (Some 255)),
          mapped_column ''path_pattern'' (String_T (Some 512)),
          mapped_column ''http_methods'' Array_T,
          foreign_key ''backend_service_id'' ''backend_services'' ''id'',
          with_default (SInt 2000) (mapped_column ''timeout_ms'' Integer_T),
          optional (mapped_column ''retry_policy_id'' UUID_T),
          optional (foreign_key ''rate_limit_policy_id'' ''rate_limit_policies'' ''id''),
          with_default (SEnum ''NORMAL'') (mapped_column ''priority'' route_priority),
          with_default (SBool True) (mapped_column ''enabled'' Boolean_T),
          timestamp_column ''created_at'',
          timestamp_column ''updated_at''],
       t_unique = [[''tenant_id'', ''path_pattern'']] \<rparr>"

definition AuditEvent :: table_def where
  "AuditEvent =
     \<lparr> t_name = ''audit_events'',
       t_columns =
         [uuid_pk ''id'',
          optional (mapped_column ''tenant_id'' UUID_T),
          mapped_column ''actor'' (String_T (Some 255)),
          mapped_column ''action'' (String_T (Some 255)),
          mapped_column ''resource_type'' (String_T (Some 255)),
          mapped_column ''resource_id'' (String_T (Some 255)),
          with_default (SJson []) (mapped_column ''event_metadata'' JSONB_T),
          timestamp_column ''created_at''],
       t_unique = [] \<rparr>"

definition metadata :: "table_def list" where
  "metadata =
     [Tenant, ApiKey, BackendService, BackendInstanceRow, RateLimitPolicy, CircuitBreakerPolicy,
      Route, AuditEvent]"

section \<open>Rows\<close>

type_synonym row = "(string, sql_value) dict"

text \<open>
  A 32-bit integer column has the range of the type; text may not contain the character zero.
\<close>

definition no_nul :: "string \<Rightarrow> bool" where
  "no_nul s \<longleftrightarrow> CHR 0x00 \<notin> set s"

definition fits :: "col_type \<Rightarrow> sql_value \<Rightarrow> bool" where
  "fits ty v \<longleftrightarrow>
     (case ty of
        UUID_T \<Rightarrow> (case v of SUuid u \<Rightarrow> 0 \<le> u \<and> u < 2 ^ 128 | _ \<Rightarrow> False)
      | String_T n \<Rightarrow>
          (case v of
             SStr s \<Rightarrow> (case n of None \<Rightarrow> True | Some k \<Rightarrow> int (length s) \<le> k) \<and> no_nul s
           | _ \<Rightarrow> False)
      | Integer_T \<Rightarrow> (case v of SInt i \<Rightarrow> - (2 ^ 31) \<le> i \<and> i < 2 ^ 31 | _ \<Rightarrow> False)
      | Float_T \<Rightarrow> (case v of SFloat x \<Rightarrow> True | _ \<Rightarrow> False)
      | Boolean_T \<Rightarrow> (case v of SBool b \<Rightarrow> True | _ \<Rightarrow> False)
      | DateTime_T \<Rightarrow> (case v of STime t \<Rightarrow> True | _ \<Rightarrow> False)
      | Enum_T n vs \<Rightarrow> (case v of SEnum x \<Rightarrow> x \<in> set vs | _ \<Rightarrow> False)
      | Array_T \<Rightarrow> (case v of SArray l \<Rightarrow> list_all no_nul l | _ \<Rightarrow> False)
      | JSONB_T \<Rightarrow> (case v of SJson j \<Rightarrow> True | _ \<Rightarrow> False))"

definition cell_ok :: "column \<Rightarrow> sql_value \<Rightarrow> bool" where
  "cell_ok c v \<longleftrightarrow> (if v = SNull then c_nullable c else fits (c_type c) v)"

definition row_typed :: "table_def \<Rightarrow> row \<Rightarrow> bool" where
  "row_typed t r \<longleftrightarrow>
     map fst r = map c_name (t_columns t)
   \<and> list_all2 (\<lambda>c kv. cell_ok c (snd kv)) (t_columns t) r"

definition cell :: "row \<Rightarrow> string \<Rightarrow> sql_value" where
  "cell r k = (case dict_get r k of None \<Rightarrow> SNull | Some v \<Rightarrow> v)"

definition default_value :: "int \<Rightarrow> seconds \<Rightarrow> column \<Rightarrow> sql_value" where
  "default_value fresh now c =
     (case c_default c of
        No_Default \<Rightarrow> SNull
      | Constant v \<Rightarrow> v
      | Uuid4 \<Rightarrow> SUuid fresh
      | Server_Now \<Rightarrow> STime now)"

text \<open>\<open>fresh\<close> is what \<^verbatim>\<open>uuid.uuid4\<close> draws, \<open>now\<close> the server's clock.\<close>

definition fill_row :: "table_def \<Rightarrow> int \<Rightarrow> seconds \<Rightarrow> row \<Rightarrow> row" where
  "fill_row t fresh now given =
     map (\<lambda>c. (c_name c,
       case dict_get given (c_name c) of Some v \<Rightarrow> v | None \<Rightarrow> default_value fresh now c)) (t_columns t)"

section \<open>Constraints\<close>

definition unique_sets :: "table_def \<Rightarrow> string list list" where
  "unique_sets t = map (\<lambda>c. [c_name c]) (filter c_unique (t_columns t)) @ t_unique t"

text \<open>Rows with a null in one of the columns never count as equal.\<close>

definition same_key :: "string list \<Rightarrow> row \<Rightarrow> row \<Rightarrow> bool" where
  "same_key ks r r' \<longleftrightarrow> list_all (\<lambda>k. cell r k = cell r' k \<and> cell r k \<noteq> SNull) ks"

definition references_ok :: "(string \<Rightarrow> row list) \<Rightarrow> table_def \<Rightarrow> row \<Rightarrow> bool" where
  "references_ok rows t r \<longleftrightarrow>
     list_all (\<lambda>c. case c_foreign_key c of
         None \<Rightarrow> True
       | Some (tab, col) \<Rightarrow>
           cell r (c_name c) = SNull \<or> list_ex (\<lambda>r'. cell r' col = cell r (c_name c)) (rows tab))
       (t_columns t)"

definition conforms :: "(string \<Rightarrow> row list) \<Rightarrow> table_def \<Rightarrow> row \<Rightarrow> bool" where
  "conforms rows t r \<longleftrightarrow>
     row_typed t r
   \<and> list_all (\<lambda>ks. \<not> list_ex (same_key ks r) (rows (t_name t))) (unique_sets t)
   \<and> references_ok rows t r"

fun table_named :: "table_def list \<Rightarrow> string \<Rightarrow> table_def option" where
  "table_named [] n = None"
| "table_named (t # ts) n = (if t_name t = n then Some t else table_named ts n)"

section \<open>What the declarations promise\<close>

text \<open>
  A default is something the column can hold, a required column is one without a default that may
  not be null.
\<close>

definition default_ok :: "column \<Rightarrow> bool" where
  "default_ok c \<longleftrightarrow>
     (case c_default c of
        No_Default \<Rightarrow> True
      | Constant v \<Rightarrow> v \<noteq> SNull \<and> fits (c_type c) v
      | Uuid4 \<Rightarrow> c_type c = UUID_T
      | Server_Now \<Rightarrow> c_type c = DateTime_T)"

definition required_columns :: "table_def \<Rightarrow> string list" where
  "required_columns t =
     map c_name (filter (\<lambda>c. c_default c = No_Default \<and> \<not> c_nullable c) (t_columns t))"

text \<open>A foreign key names the unique column of a table that was declared before, of the same type.\<close>

definition key_ok :: "table_def list \<Rightarrow> column \<Rightarrow> bool" where
  "key_ok earlier c \<longleftrightarrow>
     (case c_foreign_key c of
        None \<Rightarrow> True
      | Some (tab, col) \<Rightarrow>
          (case table_named earlier tab of
             None \<Rightarrow> False
           | Some t \<Rightarrow> list_ex (\<lambda>d. c_name d = col \<and> c_unique d \<and> c_type d = c_type c) (t_columns t)))"

definition table_ok :: "table_def list \<Rightarrow> table_def \<Rightarrow> bool" where
  "table_ok earlier t \<longleftrightarrow>
     distinct (map c_name (t_columns t))
   \<and> list_all default_ok (t_columns t) \<and> list_all (key_ok earlier) (t_columns t)
   \<and> list_all (\<lambda>ks. ks \<noteq> [] \<and> list_all (\<lambda>k. k \<in> set (map c_name (t_columns t))) ks) (unique_sets t)
   \<and> table_named earlier (t_name t) = None"

text \<open>Creating the tables one after the other never refers to one that is not there yet.\<close>

fun creatable :: "table_def list \<Rightarrow> table_def list \<Rightarrow> bool" where
  "creatable earlier [] \<longleftrightarrow> True"
| "creatable earlier (t # ts) \<longleftrightarrow> table_ok earlier t \<and> creatable (earlier @ [t]) ts"

definition gives_ok :: "table_def \<Rightarrow> row \<Rightarrow> bool" where
  "gives_ok t given \<longleftrightarrow>
     (\<forall>c \<in> set (t_columns t). \<forall>v. dict_get given (c_name c) = Some v \<longrightarrow> cell_ok c v)
   \<and> set (required_columns t) \<subseteq> fst ` set given"

text \<open>
  Every stored row has the types of its table, refers to stored rows only, and shares no unique key
  with another one.
\<close>

definition db_ok :: "table_def list \<Rightarrow> (string \<Rightarrow> row list) \<Rightarrow> bool" where
  "db_ok ts rows \<longleftrightarrow>
     (\<forall>n t. table_named ts n = Some t \<longrightarrow>
        (\<forall>r \<in> set (rows n). row_typed t r \<and> references_ok rows t r
           \<and> (\<forall>ks \<in> set (unique_sets t). size {#r' \<in># mset (rows n). same_key ks r r'#} \<le> 1)))"

lemma table_named_name: "table_named ts n = Some t \<Longrightarrow> t_name t = n \<and> t \<in> set ts"
  by (induction ts) (auto split: if_splits)

lemma same_key_sym: "same_key ks r r' \<longleftrightarrow> same_key ks r' r"
  by (auto simp: same_key_def list_all_iff)

lemma references_ok_mono:
  "references_ok rows t r \<Longrightarrow> (\<And>n. set (rows n) \<subseteq> set (rows' n)) \<Longrightarrow> references_ok rows' t r"
  unfolding references_ok_def list_all_iff list_ex_iff by (fastforce split: option.splits)

section \<open>A database\<close>

record 'd sql_ops =
  sql_insert :: "'d \<Rightarrow> string \<Rightarrow> row \<Rightarrow> exn + 'd"
  sql_select :: "'d \<Rightarrow> string \<Rightarrow> row list"

text \<open>
  The contract: an insertion succeeds exactly when the row meets the constraints, adds that row and
  changes nothing else; the order of a selection is not specified.
\<close>

locale relational_db =
  fixes ops :: "'d sql_ops" and ts :: "table_def list"
  assumes insert_accepts: "table_named ts n = Some t \<Longrightarrow> conforms (sql_select ops d) t r \<Longrightarrow>
      \<exists>d'. sql_insert ops d n r = Inr d'"
    and insert_rejects: "table_named ts n = Some t \<Longrightarrow> \<not> conforms (sql_select ops d) t r \<Longrightarrow>
      \<exists>e. sql_insert ops d n r = Inl e"
    and insert_adds: "sql_insert ops d n r = Inr d' \<Longrightarrow>
      mset (sql_select ops d' n) = add_mset r (mset (sql_select ops d n))"
    and insert_keeps: "sql_insert ops d n r = Inr d' \<Longrightarrow> n' \<noteq> n \<Longrightarrow>
      mset (sql_select ops d' n') = mset (sql_select ops d n')"
begin

lemma insert_set: "sql_insert ops d n r = Inr d' \<Longrightarrow> set (sql_select ops d' n) = insert r (set (sql_select ops d n))"
  by (drule insert_adds) (metis set_mset_add_mset_insert set_mset_mset)

lemma insert_set_other:
  "sql_insert ops d n r = Inr d' \<Longrightarrow> n' \<noteq> n \<Longrightarrow> set (sql_select ops d' n') = set (sql_select ops d n')"
  by (drule (1) insert_keeps) (metis set_mset_mset)

lemma insert_conforms:
  "table_named ts n = Some t \<Longrightarrow> sql_insert ops d n r = Inr d' \<Longrightarrow> conforms (sql_select ops d) t r"
  using insert_rejects by fastforce

lemma insert_mono: "sql_insert ops d n r = Inr d' \<Longrightarrow> set (sql_select ops d n') \<subseteq> set (sql_select ops d' n')"
  using insert_set insert_set_other by (cases "n' = n") blast+

text \<open>The constraints hold of everything that is stored, whatever is inserted.\<close>

lemma insert_db_ok:
  assumes "db_ok ts (sql_select ops d)" and t: "table_named ts n = Some t"
    and ins: "sql_insert ops d n r = Inr d'"
  shows "db_ok ts (sql_select ops d')"
  unfolding db_ok_def
proof (intro allI impI ballI conjI)
  fix n' t' r' ks
  assume t': "table_named ts n' = Some t'" and r': "r' \<in> set (sql_select ops d' n')"
  have conf: "conforms (sql_select ops d) t r" by (rule insert_conforms [OF t ins])
  have old: "row_typed t' r' \<and> references_ok (sql_select ops d) t' r'"
    if "r' \<in> set (sql_select ops d n')" using assms(1) t' that by (auto simp: db_ok_def)
  have new: "n' = n \<and> r' = r" if "r' \<notin> set (sql_select ops d n')"
    using that r' insert_set [OF ins] insert_set_other [OF ins] by (cases "n' = n") auto
  have both: "row_typed t' r' \<and> references_ok (sql_select ops d) t' r'"
  proof (cases "r' \<in> set (sql_select ops d n')")
    case False
    then have "r' = r" "t' = t" using new t t' by simp_all
    with conf show ?thesis by (simp add: conforms_def)
  qed (rule old)
  then show "row_typed t' r'" ..
  from both have "references_ok (sql_select ops d) t' r'" ..
  then show "references_ok (sql_select ops d') t' r'"
    by (rule references_ok_mono) (rule insert_mono [OF ins])
  assume ks: "ks \<in> set (unique_sets t')"
  have none: "\<not> same_key ks r x" if "n' = n" "x \<in> set (sql_select ops d n)" for x
    using conf ks t t' that table_named_name [OF t] by (auto simp: conforms_def list_all_iff list_ex_iff)
  have before: "size {#x \<in># mset (sql_select ops d n'). same_key ks r' x#} \<le> 1"
    if "r' \<in> set (sql_select ops d n')" using assms(1) t' ks that by (auto simp: db_ok_def)
  show "size {#x \<in># mset (sql_select ops d' n'). same_key ks r' x#} \<le> 1"
  proof (cases "n' = n")
    case True
    show ?thesis
    proof (cases "r' \<in> set (sql_select ops d n')")
      case in_old: True
      then have "\<not> same_key ks r' r" using none [OF True] True same_key_sym [of ks r' r] by metis
      then show ?thesis using before [OF in_old] insert_adds [OF ins] True by simp
    next
      case False
      then have "filter (same_key ks r') (sql_select ops d n) = []"
        using none [OF True] new [OF False] by (simp add: filter_empty_conv)
      then have none_old: "{#x \<in># mset (sql_select ops d n). same_key ks r' x#} = {#}"
        by (metis mset_filter mset.simps(1))
      have "{#x \<in># mset (sql_select ops d' n'). same_key ks r' x#} = (if same_key ks r' r then {#r#} else {#})"
        unfolding True insert_adds [OF ins] filter_mset_add_mset none_old ..
      then show ?thesis by simp
    qed
  next
    case False
    then show ?thesis using before new insert_keeps [OF ins False] by fastforce
  qed
qed

end

section \<open>A database in memory\<close>

type_synonym tables = "(string, row list) dict"

definition mem_rows :: "tables \<Rightarrow> string \<Rightarrow> row list" where
  "mem_rows d n = (case dict_get d n of None \<Rightarrow> [] | Some rs \<Rightarrow> rs)"

definition mem_insert :: "table_def list \<Rightarrow> tables \<Rightarrow> string \<Rightarrow> row \<Rightarrow> exn + tables" where
  "mem_insert ts d n r =
     (case table_named ts n of
        None \<Rightarrow> Inl (OtherException ''UndefinedTable'')
      | Some t \<Rightarrow>
          if conforms (mem_rows d) t r then Inr (dict_set d n (mem_rows d n @ [r]))
          else Inl (OtherException ''IntegrityError''))"

definition memory_db :: "table_def list \<Rightarrow> tables sql_ops" where
  "memory_db ts = \<lparr> sql_insert = mem_insert ts, sql_select = mem_rows \<rparr>"

interpretation memory_tables: relational_db "memory_db ts" ts for ts
  by unfold_locales (auto simp: memory_db_def mem_insert_def mem_rows_def split: option.splits if_splits)

section \<open>Lemmas\<close>

lemma dict_get_map: "distinct (map f xs) \<Longrightarrow> x \<in> set xs \<Longrightarrow> dict_get (map (\<lambda>x. (f x, g x)) xs) (f x) = Some (g x)"
  unfolding dict_get_def by (rule map_of_is_SomeI) (auto simp: comp_def)

lemma default_cell_ok:
  assumes "default_ok c" and "0 \<le> fresh" and "fresh < 2 ^ 128" and "c_default c \<noteq> No_Default \<or> c_nullable c"
  shows "cell_ok c (default_value fresh now c)"
  using assms by (auto simp: default_ok_def default_value_def cell_ok_def fits_def split: col_default.splits)

lemma fill_row_typed:
  assumes "list_all default_ok (t_columns t)" and "gives_ok t given" and "0 \<le> fresh" and "fresh < 2 ^ 128"
  shows "row_typed t (fill_row t fresh now given)"
proof -
  have "cell_ok c (case dict_get given (c_name c) of Some v \<Rightarrow> v | None \<Rightarrow> default_value fresh now c)"
    if c: "c \<in> set (t_columns t)" for c
  proof (cases "dict_get given (c_name c)")
    case None
    then have "c_name c \<notin> set (required_columns t)"
      using assms(2) dict_get_NoneD [OF None] by (auto simp: gives_ok_def)
    then have "c_default c \<noteq> No_Default \<or> c_nullable c" using c by (auto simp: required_columns_def)
    with None c assms(1,3,4) default_cell_ok show ?thesis by (simp add: list_all_iff)
  qed (use assms(2) c in \<open>simp add: gives_ok_def\<close>)
  then show ?thesis
    by (auto simp: row_typed_def fill_row_def list_all2_map2 comp_def intro: list.rel_refl_strong)
qed

section \<open>The declarations fit together\<close>

text \<open>
  The declarations fit together. The tables can be created in the order in which they are declared:
  names are unambiguous, every default is a value its column can hold, every foreign key refers to
  a unique column of the same type of an earlier table, every unique constraint to columns there
  are. And an object that was given suitable values for the columns without a default is complete:
  the row sent for it has a value of the right type in every column.\<close>

lemma schema_typed:
  "creatable [] metadata
   \<and> (\<forall>t fresh now given. t \<in> set metadata \<and> gives_ok t given \<and> 0 \<le> fresh \<and> fresh < 2 ^ 128 \<longrightarrow>
        row_typed t (fill_row t fresh now given))"
proof
  have defaults: "list_all (\<lambda>t. list_all default_ok (t_columns t)) metadata" by code_simp
  then show "\<forall>t fresh now given. t \<in> set metadata \<and> gives_ok t given \<and> 0 \<le> fresh \<and> fresh < 2 ^ 128 \<longrightarrow>
        row_typed t (fill_row t fresh now given)"
    using fill_row_typed unfolding list_all_iff by blast
  show "creatable [] metadata" by code_simp
qed

lemma schema_typed_example:
  "row_typed BackendInstanceRow (fill_row BackendInstanceRow 7 0
     [(''backend_service_id'', SUuid 3), (''host'', SStr ''users-1''), (''port'', SInt 9001)])"
proof -
  let ?g = "[(''backend_service_id'', SUuid 3), (''host'', SStr ''users-1''), (''port'', SInt 9001)]"
  have "list_all (\<lambda>c. case dict_get ?g (c_name c) of None \<Rightarrow> True | Some v \<Rightarrow> cell_ok c v) (t_columns BackendInstanceRow)"
    and req: "required_columns BackendInstanceRow = [''backend_service_id'', ''host'', ''port'']"
    by (code_simp, code_simp)
  then have "gives_ok BackendInstanceRow ?g" by (auto simp: gives_ok_def list_all_iff)
  with schema_typed show ?thesis by (simp add: metadata_def)
qed

end
