(* ===== verification/Control_Plane.thy ===== *)
theory Control_Plane
  imports Schema
begin

text \<open>
  The control plane's tenant endpoints, \<^verbatim>\<open>src/apps/control_plane/main.py\<close>, over the tables
  of \<open>Schema\<close> and any database that meets \<open>relational_db\<close>. A handler is a function of
  the database, with the identifier that \<^verbatim>\<open>uuid4\<close> draws and the server's clock as
  arguments; a commit is one insertion. An exception that no handler catches is \<open>Internal\<close>,
  which the framework answers with 500.

  The lemmas show that a tenant that was created can be read back, that creation fails exactly when
  the name is taken, too long or not representable, and that names and identifiers stay unique.
\<close>

section \<open>Schemas of the interface\<close>

datatype TenantStatus = ACTIVE | SUSPENDED

record TenantOut =
  to_id :: int
  to_name :: string
  to_status :: TenantStatus

datatype 'a reply = Reply int 'a | HTTPException int string | Internal exn

definition status_of :: "sql_value \<Rightarrow> TenantStatus option" where
  "status_of v =
     (if v = SEnum ''ACTIVE'' then Some ACTIVE
      else if v = SEnum ''SUSPENDED'' then Some SUSPENDED else None)"

text \<open>\<^verbatim>\<open>TenantOut\<close> from the attributes of a row; anything else fails validation.\<close>

definition tenant_out :: "row \<Rightarrow> TenantOut option" where
  "tenant_out r =
     (case (cell r ''id'', cell r ''name'', status_of (cell r ''status'')) of
        (SUuid i, SStr n, Some s) \<Rightarrow> Some \<lparr> to_id = i, to_name = n, to_status = s \<rparr>
      | _ \<Rightarrow> None)"

definition respond :: "int \<Rightarrow> row \<Rightarrow> TenantOut reply" where
  "respond code r =
     (case tenant_out r of
        None \<Rightarrow> Internal (OtherException ''ResponseValidationError'')
      | Some out \<Rightarrow> Reply code out)"

section \<open>The handlers\<close>

definition find_tenant :: "'d sql_ops \<Rightarrow> 'd \<Rightarrow> int \<Rightarrow> row option" where
  "find_tenant ops d i = find (\<lambda>r. cell r ''id'' = SUuid i) (sql_select ops d ''tenants'')"

definition new_tenant :: "int \<Rightarrow> seconds \<Rightarrow> string \<Rightarrow> row" where
  "new_tenant fresh now name =
     fill_row Tenant fresh now [(''name'', SStr name), (''status'', SEnum ''ACTIVE'')]"

definition create_tenant ::
  "'d sql_ops \<Rightarrow> int \<Rightarrow> seconds \<Rightarrow> string \<Rightarrow> 'd \<Rightarrow> 'd \<times> TenantOut reply" where
  "create_tenant ops fresh now name d =
     (case sql_insert ops d ''tenants'' (new_tenant fresh now name) of
        Inl e \<Rightarrow> (d, Internal e)
      | Inr d' \<Rightarrow>
          (d', case find_tenant ops d' fresh of
                 None \<Rightarrow> Internal (OtherException ''InvalidRequestError'')
               | Some r \<Rightarrow> respond 201 r))"

fun respond_all :: "row list \<Rightarrow> TenantOut list reply" where
  "respond_all [] = Reply 200 []"
| "respond_all (r # rs) =
     (case tenant_out r of
        None \<Rightarrow> Internal (OtherException ''ResponseValidationError'')
      | Some out \<Rightarrow>
          (case respond_all rs of Reply code outs \<Rightarrow> Reply code (out # outs) | e \<Rightarrow> e))"

definition list_tenants :: "'d sql_ops \<Rightarrow> 'd \<Rightarrow> TenantOut list reply" where
  "list_tenants ops d = respond_all (sql_select ops d ''tenants'')"

definition get_tenant :: "'d sql_ops \<Rightarrow> int \<Rightarrow> 'd \<Rightarrow> TenantOut reply" where
  "get_tenant ops i d =
     (case find_tenant ops d i of
        None \<Rightarrow> HTTPException 404 ''tenant not found''
      | Some r \<Rightarrow> respond 200 r)"

definition cp_healthz :: "int \<times> (string, string) dict" where
  "cp_healthz = (200, [(''status'', ''ok'')])"

text \<open>A history of creations, in the order in which they commit.\<close>

fun create_all_tenants :: "'d sql_ops \<Rightarrow> (int \<times> seconds \<times> string) list \<Rightarrow> 'd \<Rightarrow> 'd" where
  "create_all_tenants ops [] d = d"
| "create_all_tenants ops ((fresh, now, name) # h) d =
     create_all_tenants ops h (fst (create_tenant ops fresh now name d))"

section \<open>Lemmas\<close>

lemma table_tenants: "table_named metadata ''tenants'' = Some Tenant"
  by (simp add: metadata_def Tenant_def)

lemma tenant_keys: "unique_sets Tenant = [[''id''], [''name'']]"
  by code_simp

lemma tenant_no_references: "references_ok rows Tenant r"
  by (simp add: references_ok_def Tenant_def uuid_pk_def mapped_column_def with_default_def timestamp_column_def)

lemma new_tenant_row:
  "new_tenant fresh now name =
     [(''id'', SUuid fresh), (''name'', SStr name), (''status'', SEnum ''ACTIVE''),
      (''created_at'', STime now), (''updated_at'', STime now)]"
  by (simp add: new_tenant_def fill_row_def Tenant_def uuid_pk_def mapped_column_def with_default_def
      timestamp_column_def default_value_def dict_get_def)

lemma new_tenant_cells [simp]:
  "cell (new_tenant fresh now name) ''id'' = SUuid fresh"
  "cell (new_tenant fresh now name) ''name'' = SStr name"
  "cell (new_tenant fresh now name) ''status'' = SEnum ''ACTIVE''"
  by (simp_all add: new_tenant_row cell_def dict_get_def)

lemma tenant_out_new: "tenant_out (new_tenant fresh now name) = Some \<lparr> to_id = fresh, to_name = name, to_status = ACTIVE \<rparr>"
  by (simp add: tenant_out_def status_of_def)

definition name_ok :: "string \<Rightarrow> bool" where
  "name_ok name \<longleftrightarrow> length name \<le> 255 \<and> no_nul name"

lemma new_tenant_typed:
  "row_typed Tenant (new_tenant fresh now name) \<longleftrightarrow> name_ok name \<and> 0 \<le> fresh \<and> fresh < 2 ^ 128"
  by (auto simp: row_typed_def new_tenant_row Tenant_def uuid_pk_def mapped_column_def with_default_def
      timestamp_column_def cell_ok_def fits_def tenant_status_def name_ok_def)

lemma tenant_typed_out:
  assumes "row_typed Tenant r"
  shows "\<exists>out. tenant_out r = Some out \<and> cell r ''id'' = SUuid (to_id out) \<and> cell r ''name'' = SStr (to_name out)"
proof -
  obtain v1 v2 v3 v4 v5 where r: "r = [(''id'', v1), (''name'', v2), (''status'', v3), (''created_at'', v4), (''updated_at'', v5)]"
    and ok: "fits UUID_T v1" "fits (String_T (Some 255)) v2" "fits tenant_status v3"
    using assms
    by (auto simp: row_typed_def Tenant_def uuid_pk_def mapped_column_def with_default_def
        timestamp_column_def cell_ok_def list_all2_Cons1 split: if_splits)
  then show ?thesis
    by (auto simp: tenant_out_def status_of_def cell_def dict_get_def fits_def tenant_status_def split: sql_value.splits)
qed

lemma conforms_new_tenant:
  "conforms rows Tenant (new_tenant fresh now name) \<longleftrightarrow>
     name_ok name \<and> 0 \<le> fresh \<and> fresh < 2 ^ 128
   \<and> (\<forall>r \<in> set (rows ''tenants''). cell r ''id'' \<noteq> SUuid fresh \<and> cell r ''name'' \<noteq> SStr name)"
proof -
  have "t_name Tenant = ''tenants''" by (simp add: Tenant_def)
  then show ?thesis
    by (auto simp: conforms_def new_tenant_typed tenant_keys tenant_no_references same_key_def list_ex_iff)
qed

lemma find_eqI: "x \<in> set xs \<Longrightarrow> P x \<Longrightarrow> (\<And>y. y \<in> set xs \<Longrightarrow> P y \<Longrightarrow> y = x) \<Longrightarrow> find P xs = Some x"
proof (induction xs)
  case (Cons a xs)
  show ?case
  proof (cases "P a")
    case True
    then have "a = x" using Cons.prems(3) by simp
    with True show ?thesis by simp
  next
    case False
    then have "x \<in> set xs" using Cons.prems(1,2) by auto
    then have "find P xs = Some x" by (rule Cons.IH) (use Cons.prems(2,3) in auto)
    with False show ?thesis by simp
  qed
qed simp

lemma respond_all_outs:
  "list_all (\<lambda>r. tenant_out r \<noteq> None) rs \<Longrightarrow> respond_all rs = Reply 200 (map (the \<circ> tenant_out) rs)"
  by (induction rs) auto

lemma two_in_filter:
  assumes "size {#x \<in># M. P x#} \<le> 1" and "a \<in># M" "b \<in># M" "P a" "P b"
  shows "a = b"
proof (rule ccontr)
  assume "a \<noteq> b"
  then have "{#a, b#} \<subseteq># {#x \<in># M. P x#}" using assms(2-5) by (auto intro!: insert_subset_eq_iff [THEN iffD2] simp: in_diff_count)
  from size_mset_mono [OF this] assms(1) show False by simp
qed

lemma distinct_by_filter:
  assumes "\<And>r. r \<in> set xs \<Longrightarrow> size {#x \<in># mset xs. f r = f x#} \<le> 1"
  shows "distinct (map f xs)"
  using assms
proof (induction xs)
  case (Cons a xs)
  have "size {#x \<in># mset xs. f r = f x#} \<le> 1" if "r \<in> set xs" for r
    using Cons.prems [of r] that by (auto split: if_splits)
  with Cons.IH have "distinct (map f xs)" by blast
  moreover have "f a \<noteq> f b" if "b \<in> set xs" for b
  proof
    assume "f a = f b"
    then have "b \<in># {#x \<in># mset xs. f a = f x#}" using that by simp
    moreover have "{#x \<in># mset xs. f a = f x#} = {#}" using Cons.prems [of a] by simp
    ultimately show False by simp
  qed
  ultimately show ?case by auto
qed simp

lemma tenants_ok:
  assumes "db_ok metadata rows" and "r \<in> set (rows ''tenants'')"
  shows "row_typed Tenant r" and "size {#x \<in># mset (rows ''tenants''). cell r ''id'' = cell x ''id''#} \<le> 1"
    and "size {#x \<in># mset (rows ''tenants''). cell r ''name'' = cell x ''name''#} \<le> 1"
proof -
  show typed: "row_typed Tenant r" using assms table_tenants by (auto simp: db_ok_def)
  from tenant_typed_out [OF this] have "cell r ''id'' \<noteq> SNull" "cell r ''name'' \<noteq> SNull" by auto
  then have "same_key [''id''] r = (\<lambda>x. cell r ''id'' = cell x ''id'')"
    "same_key [''name''] r = (\<lambda>x. cell r ''name'' = cell x ''name'')"
    by (auto simp: same_key_def)
  moreover have "size {#x \<in># mset (rows ''tenants''). same_key ks r x#} \<le> 1" if "ks \<in> set (unique_sets Tenant)" for ks
    using assms table_tenants that by (auto simp: db_ok_def)
  ultimately show "size {#x \<in># mset (rows ''tenants''). cell r ''id'' = cell x ''id''#} \<le> 1"
    "size {#x \<in># mset (rows ''tenants''). cell r ''name'' = cell x ''name''#} \<le> 1"
    by (metis tenant_keys list.set_intros(1,2))+
qed

lemma find_tenant_iff:
  assumes "db_ok metadata (sql_select ops d)"
  shows "find_tenant ops d i = Some r \<longleftrightarrow> r \<in> set (sql_select ops d ''tenants'') \<and> cell r ''id'' = SUuid i"
proof
  assume r: "r \<in> set (sql_select ops d ''tenants'') \<and> cell r ''id'' = SUuid i"
  then have "y = r" if "y \<in> set (sql_select ops d ''tenants'')" "cell y ''id'' = SUuid i" for y
    using two_in_filter [OF tenants_ok(2) [OF assms, of r], of r y] that by simp
  with r show "find_tenant ops d i = Some r" unfolding find_tenant_def by (intro find_eqI) auto
qed (auto simp: find_tenant_def find_Some_iff)

lemma create_tenant_ok:
  assumes "relational_db ops metadata" and "db_ok metadata (sql_select ops d)"
  shows "db_ok metadata (sql_select ops (fst (create_tenant ops fresh now name d)))"
  using assms relational_db.insert_db_ok [OF assms(1,2) table_tenants]
  by (auto simp: create_tenant_def split: sum.splits)

lemma create_all_tenants_ok:
  "relational_db ops metadata \<Longrightarrow> db_ok metadata (sql_select ops d) \<Longrightarrow>
   db_ok metadata (sql_select ops (create_all_tenants ops h d))"
  by (induction ops h d rule: create_all_tenants.induct) (simp_all add: create_tenant_ok)

lemma list_tenants_outs:
  assumes "db_ok metadata (sql_select ops d)"
  shows "list_tenants ops d = Reply 200 (map (the \<circ> tenant_out) (sql_select ops d ''tenants''))"
  unfolding list_tenants_def
  by (rule respond_all_outs) (use tenant_typed_out tenants_ok(1) [OF assms] in \<open>fastforce simp: list_all_iff\<close>)

section \<open>Properties\<close>

text \<open>C26.
  When a tenant is created. On any database that enforces the declared constraints the request is
  answered 201, with the new identifier, the given name and the status active, exactly when the
  name has at most 255 characters, none of them zero, and neither the name nor the identifier is in
  use; otherwise the handler fails with the database's error and nothing is stored.\<close>

theorem create_tenant_decision:
  assumes "relational_db ops metadata" and "create_tenant ops fresh now name d = (d', rep)"
  shows "if name_ok name \<and> 0 \<le> fresh \<and> fresh < 2 ^ 128
      \<and> (\<forall>r \<in> set (sql_select ops d ''tenants''). cell r ''id'' \<noteq> SUuid fresh \<and> cell r ''name'' \<noteq> SStr name)
    then rep = Reply 201 \<lparr> to_id = fresh, to_name = name, to_status = ACTIVE \<rparr>
      \<and> set (sql_select ops d' ''tenants'') = insert (new_tenant fresh now name) (set (sql_select ops d ''tenants''))
    else d' = d \<and> (\<exists>e. rep = Internal e)"
proof (cases "conforms (sql_select ops d) Tenant (new_tenant fresh now name)")
  case True
  obtain d1 where ins: "sql_insert ops d ''tenants'' (new_tenant fresh now name) = Inr d1"
    using relational_db.insert_accepts [OF assms(1) table_tenants True] by blast
  note rows = relational_db.insert_set [OF assms(1) ins]
  have "find_tenant ops d1 fresh = Some (new_tenant fresh now name)"
    unfolding find_tenant_def using rows True by (intro find_eqI) (auto simp: conforms_new_tenant)
  then have "d' = d1" "rep = Reply 201 \<lparr> to_id = fresh, to_name = name, to_status = ACTIVE \<rparr>"
    using assms(2) ins by (simp_all add: create_tenant_def respond_def tenant_out_new)
  with rows True show ?thesis by (simp add: conforms_new_tenant)
next
  case False
  then obtain e where "sql_insert ops d ''tenants'' (new_tenant fresh now name) = Inl e"
    using relational_db.insert_rejects [OF assms(1) table_tenants False] by blast
  with assms(2) have "d' = d \<and> (\<exists>e. rep = Internal e)" by (auto simp: create_tenant_def)
  then show ?thesis by (subst if_not_P [OF False [unfolded conforms_new_tenant]])
qed

theorem create_tenant_decision_witness:
  "\<exists>e. snd (create_tenant (memory_db metadata) 2 0 ''acme'' (create_all_tenants (memory_db metadata) [(1, 0, ''acme'')] [])) = Internal e"
proof -
  let ?d = "create_all_tenants (memory_db metadata) [(1, 0, ''acme'')] []"
  obtain d' rep where run: "create_tenant (memory_db metadata) 2 0 ''acme'' ?d = (d', rep)" by (metis surj_pair)
  have "list_ex (\<lambda>r. cell r ''name'' = SStr ''acme'') (sql_select (memory_db metadata) ?d ''tenants'')" by code_simp
  then have "\<not> (\<forall>r \<in> set (sql_select (memory_db metadata) ?d ''tenants''). cell r ''id'' \<noteq> SUuid 2 \<and> cell r ''name'' \<noteq> SStr ''acme'')"
    by (auto simp: list_ex_iff)
  with create_tenant_decision [OF memory_tables.relational_db_axioms run] have "\<exists>e. rep = Internal e" by argo
  with run show ?thesis by (metis snd_conv)
qed

text \<open>C19.
  Creating and reading are inverse. A tenant that was created is returned, with the same content,
  when it is asked for by its identifier, every other identifier is answered as before, and the
  list of tenants has grown by exactly this one.\<close>

theorem tenant_roundtrip:
  assumes "relational_db ops metadata" and "db_ok metadata (sql_select ops d)"
    and "create_tenant ops fresh now name d = (d', Reply 201 out)"
  shows "get_tenant ops fresh d' = Reply 200 out
    \<and> (\<forall>i. i \<noteq> fresh \<longrightarrow> get_tenant ops i d' = get_tenant ops i d)
    \<and> (\<exists>l l'. list_tenants ops d = Reply 200 l \<and> list_tenants ops d' = Reply 200 l' \<and> mset l' = add_mset out (mset l))"
proof -
  let ?r = "new_tenant fresh now name"
  have ok': "db_ok metadata (sql_select ops d')" using create_tenant_ok [OF assms(1,2), of fresh now name] assms(3) by simp
  have ins: "sql_insert ops d ''tenants'' ?r = Inr d'"
    using assms(3) by (auto simp: create_tenant_def split: sum.splits)
  note rows = relational_db.insert_set [OF assms(1) ins]
  have found: "find_tenant ops d' fresh = Some ?r" using rows find_tenant_iff [OF ok'] by simp
  then have out: "out = \<lparr> to_id = fresh, to_name = name, to_status = ACTIVE \<rparr>"
    using assms(3) ins by (simp add: create_tenant_def respond_def tenant_out_new)
  have iff: "find_tenant ops d' i = Some r \<longleftrightarrow> find_tenant ops d i = Some r" if "i \<noteq> fresh" for i r
    unfolding find_tenant_iff [OF ok'] find_tenant_iff [OF assms(2)] rows using that by auto
  have same: "find_tenant ops d' i = find_tenant ops d i" if "i \<noteq> fresh" for i
    by (rule option.expand) (metis iff [OF that] not_None_eq, metis iff [OF that] option.sel not_None_eq)
  have outs: "mset (map (the \<circ> tenant_out) (sql_select ops d' ''tenants'')) =
      add_mset out (mset (map (the \<circ> tenant_out) (sql_select ops d ''tenants'')))"
    using relational_db.insert_adds [OF assms(1) ins] by (simp add: tenant_out_new out)
  have "get_tenant ops fresh d' = Reply 200 out" by (simp add: get_tenant_def found respond_def tenant_out_new out)
  moreover have "get_tenant ops i d' = get_tenant ops i d" if "i \<noteq> fresh" for i
    by (simp add: get_tenant_def same [OF that])
  ultimately show ?thesis
    using list_tenants_outs [OF assms(2)] list_tenants_outs [OF ok'] outs by blast
qed

lemma empty_db_ok: "db_ok metadata (sql_select (memory_db metadata) [])"
  by (simp add: db_ok_def memory_db_def mem_rows_def)

theorem tenant_roundtrip_witness:
  "get_tenant (memory_db metadata) 7 (fst (create_tenant (memory_db metadata) 7 0 ''acme'' []))
     = Reply 200 \<lparr> to_id = 7, to_name = ''acme'', to_status = ACTIVE \<rparr>"
proof -
  let ?run = "create_tenant (memory_db metadata) 7 0 ''acme'' []"
  have "snd ?run = Reply 201 \<lparr> to_id = 7, to_name = ''acme'', to_status = ACTIVE \<rparr>" by code_simp
  then have "?run = (fst ?run, Reply 201 \<lparr> to_id = 7, to_name = ''acme'', to_status = ACTIVE \<rparr>)"
    by (metis surjective_pairing)
  from tenant_roundtrip [OF memory_tables.relational_db_axioms empty_db_ok this] show ?thesis by simp
qed

text \<open>After any history of creations, successful or not, the list of tenants can be shown, and no two
  tenants in it have the same name or the same identifier.\<close>

theorem tenants_unique:
  assumes "relational_db ops metadata" and "db_ok metadata (sql_select ops d)"
  shows "\<exists>l. list_tenants ops (create_all_tenants ops h d) = Reply 200 l
    \<and> distinct (map to_id l) \<and> distinct (map to_name l)"
proof -
  let ?rows = "sql_select ops (create_all_tenants ops h d)"
  have ok: "db_ok metadata ?rows" by (rule create_all_tenants_ok [OF assms])
  have cells: "cell r ''id'' = SUuid (to_id (the (tenant_out r))) \<and> cell r ''name'' = SStr (to_name (the (tenant_out r)))"
    if "r \<in> set (?rows ''tenants'')" for r
    using tenant_typed_out [OF tenants_ok(1) [OF ok that]] by auto
  have "distinct (map (\<lambda>r. cell r ''id'') (?rows ''tenants''))" "distinct (map (\<lambda>r. cell r ''name'') (?rows ''tenants''))"
    by (rule distinct_by_filter, erule tenants_ok(2) [OF ok])
      (rule distinct_by_filter, erule tenants_ok(3) [OF ok])
  then have "distinct (map (\<lambda>r. SUuid (to_id (the (tenant_out r)))) (?rows ''tenants''))"
    "distinct (map (\<lambda>r. SStr (to_name (the (tenant_out r)))) (?rows ''tenants''))"
    using cells by (simp_all cong: map_cong)
  then have "distinct (map to_id (map (the \<circ> tenant_out) (?rows ''tenants'')))"
    "distinct (map to_name (map (the \<circ> tenant_out) (?rows ''tenants'')))"
    by (auto simp: distinct_map inj_on_def comp_def)
  with list_tenants_outs [OF ok] show ?thesis by blast
qed

theorem tenants_unique_witness:
  "\<exists>l. list_tenants (memory_db metadata)
      (create_all_tenants (memory_db metadata) [(1, 0, ''a''), (2, 0, ''b''), (3, 1, ''a''), (2, 2, ''c'')] []) = Reply 200 l
    \<and> distinct (map to_id l) \<and> distinct (map to_name l)"
  by (rule tenants_unique [OF memory_tables.relational_db_axioms empty_db_ok])

end
