(* ===== verification/Web_Framework.thy ===== *)
theory Web_Framework
  imports Sentinel_Prelude
begin

text \<open>
  What the three FastAPI applications of the system (\<^verbatim>\<open>src/apps/gateway/main.py\<close>,
  \<^verbatim>\<open>src/apps/control_plane/main.py\<close>, \<^verbatim>\<open>src/demo-services/*/main.py\<close>) rely on in the web
  framework: the decorators of an application are a table of methods, path templates and endpoints,
  and \<open>http_router\<close> is what is documented about the use of such a table. A template is a list
  of segments; \<open>Param\<close> is a parameter \<^verbatim>\<open>{x}\<close>, \<open>Rest\<close> the parameter
  \<^verbatim>\<open>{x:path}\<close> that takes everything up to the end.
\<close>

section \<open>Tables of routes\<close>

datatype seg = Fixed string | Param | Rest

type_synonym 'e http_routes = "(string \<times> seg list \<times> 'e) list"

fun split_slash :: "string \<Rightarrow> string list" where
  "split_slash [] = [[]]"
| "split_slash (c # s) =
     (if c = CHR ''/'' then [] # split_slash s
      else case split_slash s of [] \<Rightarrow> [[c]] | x # xs \<Rightarrow> (c # x) # xs)"

fun join_slash :: "string list \<Rightarrow> string" where
  "join_slash [] = []"
| "join_slash [s] = s"
| "join_slash (s # ss) = s @ CHR ''/'' # join_slash ss"

fun seg_match :: "seg list \<Rightarrow> string list \<Rightarrow> string list option" where
  "seg_match [] [] = Some []"
| "seg_match (Fixed a # ts) (s # ss) = (if s = a then seg_match ts ss else None)"
| "seg_match (Param # ts) (s # ss) = (if s = [] then None else map_option (Cons s) (seg_match ts ss))"
| "seg_match [Rest] (s # ss) = Some [join_slash (s # ss)]"
| "seg_match _ _ = None"

fun find_route :: "'e http_routes \<Rightarrow> string \<Rightarrow> string list \<Rightarrow> ('e \<times> string list) option" where
  "find_route [] meth path = None"
| "find_route ((m, ts, e) # rs) meth path =
     (case seg_match ts path of
        Some ps \<Rightarrow> if m = meth then Some (e, ps) else find_route rs meth path
      | None \<Rightarrow> find_route rs meth path)"

definition path_known :: "'e http_routes \<Rightarrow> string \<Rightarrow> bool" where
  "path_known rs path \<longleftrightarrow> list_ex (\<lambda>(m, ts, e). seg_match ts (split_slash path) \<noteq> None) rs"

definition toggle_slash :: "string \<Rightarrow> string" where
  "toggle_slash path = (if path \<noteq> [] \<and> last path = CHR ''/'' then butlast path else path @ ''/'')"

text \<open>
  The framework serves some paths by itself, and its patterns are regular expressions, which treat
  line feeds in a way of their own; the laws are about the other paths.
\<close>

definition framework_paths :: "string list" where
  "framework_paths = [''/openapi.json'', ''/docs'', ''/docs/oauth2-redirect'', ''/redoc'']"

definition plain_path :: "string \<Rightarrow> bool" where
  "plain_path path \<longleftrightarrow> path \<notin> set framework_paths \<and> CHR 0x0A \<notin> set path"

section \<open>The interface\<close>

locale http_router =
  fixes route :: "'e http_routes \<Rightarrow> string \<Rightarrow> string \<Rightarrow> int + 'e \<times> string list"
  assumes first_match: "plain_path path \<Longrightarrow>
      find_route rs meth (split_slash path) = Some found \<Longrightarrow> route rs meth path = Inr found"
    and only_match: "plain_path path \<Longrightarrow>
      route rs meth path = Inr found \<Longrightarrow> find_route rs meth (split_slash path) = Some found"
    and unknown_path: "plain_path path \<Longrightarrow> toggle_slash path \<notin> set framework_paths \<Longrightarrow>
      \<not> path_known rs path \<Longrightarrow> \<not> path_known rs (toggle_slash path) \<Longrightarrow> route rs meth path = Inl 404"
begin

lemma routed_iff: "plain_path path \<Longrightarrow> route rs meth path = Inr found \<longleftrightarrow> find_route rs meth (split_slash path) = Some found"
  using first_match only_match by blast

lemma not_routed:
  assumes "plain_path path" and "find_route rs meth (split_slash path) = None"
  obtains code where "route rs meth path = Inl code"
  using routed_iff [OF assms(1)] assms(2) by (cases "route rs meth path") auto

end

text \<open>Such a router: a known path with another method is 405, one that lacks a slash is redirected.\<close>

definition simple_route :: "'e http_routes \<Rightarrow> string \<Rightarrow> string \<Rightarrow> int + 'e \<times> string list" where
  "simple_route rs meth path =
     (case find_route rs meth (split_slash path) of
        Some found \<Rightarrow> Inr found
      | None \<Rightarrow>
          if path_known rs path then Inl 405
          else if path_known rs (toggle_slash path) then Inl 307 else Inl 404)"

lemma find_route_known: "find_route rs meth (split_slash path) = Some f \<Longrightarrow> path_known rs path"
  unfolding path_known_def by (induction rs) (auto split: option.splits if_splits)

interpretation simple_router: http_router simple_route
  using find_route_known by unfold_locales (fastforce simp: simple_route_def split: option.splits if_splits)+

section \<open>Paths\<close>

lemma split_slash_segment: "CHR ''/'' \<notin> set s \<Longrightarrow> split_slash s = [s]"
  by (induction s) auto

lemma split_slash_append: "CHR ''/'' \<notin> set s \<Longrightarrow> split_slash (s @ CHR ''/'' # t) = s # split_slash t"
  by (induction s) auto

lemma split_slash_nonempty [simp]: "split_slash s \<noteq> []"
  by (induction s) (auto split: list.splits)

lemma join_slash_Cons: "ss \<noteq> [] \<Longrightarrow> join_slash (s # ss) = s @ CHR ''/'' # join_slash ss"
  by (cases ss) simp_all

lemma join_split [simp]: "join_slash (split_slash s) = s"
proof (induction s)
  case (Cons c s)
  obtain x xs where x: "split_slash s = x # xs" by (cases "split_slash s") auto
  have "join_slash ((c # x) # xs) = c # join_slash (x # xs)" by (cases xs) simp_all
  with Cons x show ?case by (simp add: join_slash_Cons)
qed simp

lemma seg_match_Rest [simp]: "seg_match [Rest] (split_slash s) = Some [s]"
proof -
  obtain x xs where x: "split_slash s = x # xs" by (cases "split_slash s") auto
  with join_split [of s] show ?thesis by simp
qed

lemma seg_match_FixedD: "seg_match (Fixed a # ts) xs = Some us \<Longrightarrow> \<exists>ss. xs = a # ss \<and> seg_match ts ss = Some us"
  by (cases xs) (auto split: if_splits)

lemma seg_match_RestD: "seg_match [Rest] xs = Some us \<Longrightarrow> \<exists>s ss. xs = s # ss \<and> us = [join_slash (s # ss)]"
  by (cases xs) auto

end
