(* ===== verification/Control_Process.thy ===== *)
theory Control_Process
  imports Control_Plane Web_Framework
begin

text \<open>
  The control plane as a running process, \<^verbatim>\<open>src/apps/control_plane/main.py\<close>: \<open>cp_startup\<close> is
  its \<^verbatim>\<open>lifespan\<close> up to the \<^verbatim>\<open>yield\<close>, and requests, each with a session of its own from
  \<^verbatim>\<open>get_session\<close>, interleave at the statements they await. \<^verbatim>\<open>create_tenant\<close> awaits two,
  the commit and the refresh that reads the row back, and anything may happen in between; other
  clients of the database insert rows of their own.

  The theorem is that the requests are linearisable: each takes effect at one moment between its
  arrival and its answer, as the handler of \<open>Control_Plane\<close> that runs alone.
\<close>

section \<open>Creating the tables\<close>

text \<open>
  \<^verbatim>\<open>create_all\<close> creates the tables that are not there and leaves the rows of the others alone;
  it raises when the database cannot be reached.
\<close>

locale schema_db = relational_db ops ts
  for ops :: "'d sql_ops" and ts :: "table_def list" +
  fixes create_all :: "'d \<Rightarrow> exn + 'd"
  assumes create_all_keeps: "create_all d = Inr d' \<Longrightarrow> mset (sql_select ops d' n) = mset (sql_select ops d n)"
begin

lemma create_all_ok:
  assumes "create_all d = Inr d'" and "db_ok ts (sql_select ops d)"
  shows "db_ok ts (sql_select ops d')"
proof -
  have "set (sql_select ops d' n) = set (sql_select ops d n)" for n
    using create_all_keeps [OF assms(1)] by (metis set_mset_mset)
  with assms(2) references_ok_mono [of "sql_select ops d"] show ?thesis
    unfolding db_ok_def create_all_keeps [OF assms(1)] by blast
qed

end

definition mem_create_all :: "table_def list \<Rightarrow> tables \<Rightarrow> exn + tables" where
  "mem_create_all ts d =
     Inr (fold (\<lambda>t d. case dict_get d (t_name t) of None \<Rightarrow> dict_set d (t_name t) [] | Some _ \<Rightarrow> d) ts d)"

lemma mem_create_all_rows: "mem_create_all ts d = Inr d' \<Longrightarrow> mem_rows d' n = mem_rows d n"
  unfolding mem_create_all_def
proof (induction ts arbitrary: d)
  case (Cons t ts)
  have "mem_rows (case dict_get d (t_name t) of None \<Rightarrow> dict_set d (t_name t) [] | Some _ \<Rightarrow> d) n = mem_rows d n"
    by (auto simp: mem_rows_def split: option.splits)
  with Cons show ?case by simp
qed simp

interpretation memory_schema: schema_db "memory_db ts" ts "mem_create_all ts" for ts
  by unfold_locales (simp add: memory_db_def mem_create_all_rows)

section \<open>Requests\<close>

datatype cp_call = Post_Tenant string | All_Tenants | One_Tenant int

datatype cp_answer = One "TenantOut reply" | Many "TenantOut list reply"

text \<open>
  The decorators, and what the framework makes of a request: the route, the payload as a
  \<^verbatim>\<open>TenantCreate\<close> (\<open>payload\<close> is its name, if the body is one) and the identifier in the path
  as a UUID; 422 if it cannot.
\<close>

datatype cp_endpoint = Get_Healthz | Create_Tenant | List_Tenants | Get_Tenant

definition cp_routes :: "cp_endpoint http_routes" where
  "cp_routes =
     [(''GET'', [Fixed [], Fixed ''healthz''], Get_Healthz),
      (''POST'', [Fixed [], Fixed ''admin'', Fixed ''tenants''], Create_Tenant),
      (''GET'', [Fixed [], Fixed ''admin'', Fixed ''tenants''], List_Tenants),
      (''GET'', [Fixed [], Fixed ''admin'', Fixed ''tenants'', Param], Get_Tenant)]"

datatype cp_incoming = Calls cp_call | Alive "int \<times> (string, string) dict" | Refused int

definition cp_receive ::
  "(cp_endpoint http_routes \<Rightarrow> string \<Rightarrow> string \<Rightarrow> int + cp_endpoint \<times> string list) \<Rightarrow> (string \<Rightarrow> int option)
    \<Rightarrow> string option \<Rightarrow> string \<Rightarrow> string \<Rightarrow> cp_incoming" where
  "cp_receive route parse_uuid payload meth path =
     (case route cp_routes meth path of
        Inl code \<Rightarrow> Refused code
      | Inr (Get_Healthz, _) \<Rightarrow> Alive cp_healthz
      | Inr (Create_Tenant, _) \<Rightarrow> (case payload of None \<Rightarrow> Refused 422 | Some name \<Rightarrow> Calls (Post_Tenant name))
      | Inr (List_Tenants, _) \<Rightarrow> Calls All_Tenants
      | Inr (Get_Tenant, ps) \<Rightarrow> (case parse_uuid (concat ps) of None \<Rightarrow> Refused 422 | Some i \<Rightarrow> Calls (One_Tenant i)))"

text \<open>A handler that runs alone.\<close>

fun cp_handler :: "'d sql_ops \<Rightarrow> cp_call \<Rightarrow> int \<Rightarrow> seconds \<Rightarrow> 'd \<Rightarrow> 'd \<times> cp_answer" where
  "cp_handler ops (Post_Tenant name) fresh now d = map_prod id One (create_tenant ops fresh now name d)"
| "cp_handler ops All_Tenants fresh now d = (d, Many (list_tenants ops d))"
| "cp_handler ops (One_Tenant i) fresh now d = (d, One (get_tenant ops i d))"

text \<open>
  A session: its first statement is under way, or the commit is through and the row is being read
  back, or the request is answered and the session closed.
\<close>

datatype cp_session = Asked cp_call | Committed int | Replied cp_answer

record 'd control_plane =
  cp_db :: 'd
  cp_serving :: bool
  cp_sessions :: "nat \<Rightarrow> cp_session option"

definition cp_startup :: "('d \<Rightarrow> exn + 'd) \<Rightarrow> 'd \<Rightarrow> exn + 'd control_plane" where
  "cp_startup create_all d =
     (case create_all d of
        Inl e \<Rightarrow> Inl e
      | Inr d' \<Rightarrow> Inr \<lparr> cp_db = d', cp_serving = True, cp_sessions = Map.empty \<rparr>)"

text \<open>\<^verbatim>\<open>engine.dispose()\<close> replaces the pool; connections in use stay usable.\<close>

definition cp_shutdown :: "'d control_plane \<Rightarrow> 'd control_plane" where
  "cp_shutdown p = p\<lparr>cp_serving := False\<rparr>"

definition put_session :: "nat \<Rightarrow> 'd \<Rightarrow> cp_session \<Rightarrow> 'd control_plane \<Rightarrow> 'd control_plane" where
  "put_session t d s p = p\<lparr>cp_db := d, cp_sessions := (cp_sessions p)(t \<mapsto> s)\<rparr>"

text \<open>What \<^verbatim>\<open>session.refresh\<close> and the response model make of the committed row.\<close>

definition refreshed :: "'d sql_ops \<Rightarrow> 'd \<Rightarrow> int \<Rightarrow> TenantOut reply" where
  "refreshed ops d i =
     (case find_tenant ops d i of
        None \<Rightarrow> Internal (OtherException ''InvalidRequestError'')
      | Some r \<Rightarrow> respond 201 r)"

text \<open>The database carries out the statement a session awaits.\<close>

fun cp_statement :: "'d sql_ops \<Rightarrow> int \<Rightarrow> seconds \<Rightarrow> 'd \<Rightarrow> cp_session \<Rightarrow> ('d \<times> cp_session) option" where
  "cp_statement ops fresh now d (Asked (Post_Tenant name)) =
     Some (case sql_insert ops d ''tenants'' (new_tenant fresh now name) of
             Inl e \<Rightarrow> (d, Replied (One (Internal e)))
           | Inr d' \<Rightarrow> (d', Committed fresh))"
| "cp_statement ops fresh now d (Asked c) = Some (d, Replied (snd (cp_handler ops c fresh now d)))"
| "cp_statement ops fresh now d (Committed i) = Some (d, Replied (One (refreshed ops d i)))"
| "cp_statement ops fresh now d (Replied a) = None"

datatype cp_event =
    Call nat cp_call
  | Statement nat int seconds
  | Elsewhere string row
  | Stops

fun cp_apply :: "'d sql_ops \<Rightarrow> cp_event \<Rightarrow> 'd control_plane \<Rightarrow> 'd control_plane option" where
  "cp_apply ops (Call t c) p =
     (if cp_serving p \<and> cp_sessions p t = None then Some (put_session t (cp_db p) (Asked c) p) else None)"
| "cp_apply ops (Statement t fresh now) p =
     (case cp_sessions p t of
        None \<Rightarrow> None
      | Some s \<Rightarrow> map_option (\<lambda>(d, s'). put_session t d s' p) (cp_statement ops fresh now (cp_db p) s))"
| "cp_apply ops (Elsewhere n r) p =
     (case (table_named metadata n, sql_insert ops (cp_db p) n r) of
        (Some t, Inr d) \<Rightarrow> Some (p\<lparr>cp_db := d\<rparr>)
      | _ \<Rightarrow> None)"
| "cp_apply ops Stops p = Some (cp_shutdown p)"

fun cp_exec :: "'d sql_ops \<Rightarrow> cp_event list \<Rightarrow> 'd control_plane \<Rightarrow> 'd control_plane option" where
  "cp_exec ops [] p = Some p"
| "cp_exec ops (e # es) p = Option.bind (cp_apply ops e p) (cp_exec ops es)"

section \<open>The sequential history\<close>

datatype cp_effect = Handles nat cp_call int seconds | Inserts string row

text \<open>A request takes effect with its first statement.\<close>

fun effect_of :: "'d control_plane \<Rightarrow> cp_event \<Rightarrow> cp_effect list" where
  "effect_of p (Statement t fresh now) =
     (case cp_sessions p t of Some (Asked c) \<Rightarrow> [Handles t c fresh now] | _ \<Rightarrow> [])"
| "effect_of p (Elsewhere n r) = [Inserts n r]"
| "effect_of p e = []"

fun cp_effects :: "'d sql_ops \<Rightarrow> cp_event list \<Rightarrow> 'd control_plane \<Rightarrow> cp_effect list" where
  "cp_effects ops [] p = []"
| "cp_effects ops (e # es) p =
     effect_of p e @ (case cp_apply ops e p of None \<Rightarrow> [] | Some q \<Rightarrow> cp_effects ops es q)"

fun seq_effect :: "'d sql_ops \<Rightarrow> cp_effect \<Rightarrow> 'd \<Rightarrow> 'd \<times> (nat \<times> cp_call \<times> cp_answer) list" where
  "seq_effect ops (Handles t c fresh now) d =
     (case cp_handler ops c fresh now d of (d', a) \<Rightarrow> (d', [(t, c, a)]))"
| "seq_effect ops (Inserts n r) d = (case sql_insert ops d n r of Inl e \<Rightarrow> (d, []) | Inr d' \<Rightarrow> (d', []))"

fun seq_run :: "'d sql_ops \<Rightarrow> cp_effect list \<Rightarrow> 'd \<Rightarrow> 'd \<times> (nat \<times> cp_call \<times> cp_answer) list" where
  "seq_run ops [] d = (d, [])"
| "seq_run ops (x # xs) d =
     (case seq_effect ops x d of (d1, l1) \<Rightarrow> case seq_run ops xs d1 of (d2, l2) \<Rightarrow> (d2, l1 @ l2))"

section \<open>What reaches the handlers\<close>

lemma find_tenants:
  "find_route cp_routes meth (split_slash ''/admin/tenants'') =
     (if meth = ''POST'' then Some (Create_Tenant, []) else if meth = ''GET'' then Some (List_Tenants, []) else None)"
  by (simp add: cp_routes_def)

lemma find_tenant_path:
  assumes "CHR ''/'' \<notin> set i" and "i \<noteq> []"
  shows "find_route cp_routes meth (split_slash (''/admin/tenants/'' @ i)) =
     (if meth = ''GET'' then Some (Get_Tenant, [i]) else None)"
proof -
  have "split_slash (''/admin/tenants/'' @ i) = [[], ''admin'', ''tenants'', i]"
    using split_slash_segment [OF assms(1)] by simp
  with assms(2) show ?thesis by (simp add: cp_routes_def)
qed

text \<open>
  A creation is called exactly by a \<^verbatim>\<open>POST\<close> with a proper payload, and an admissible identifier
  in the path is looked up as the tenant it denotes.\<close>

lemma cp_receives:
  assumes "http_router route"
  shows "cp_receive route parse_uuid payload ''POST'' ''/admin/tenants'' =
           (case payload of None \<Rightarrow> Refused 422 | Some name \<Rightarrow> Calls (Post_Tenant name))"
    and "cp_receive route parse_uuid payload ''GET'' ''/admin/tenants'' = Calls All_Tenants"
    and "CHR ''/'' \<notin> set i \<Longrightarrow> CHR 0x0A \<notin> set i \<Longrightarrow> i \<noteq> [] \<Longrightarrow>
      cp_receive route parse_uuid payload ''GET'' (''/admin/tenants/'' @ i) =
        (case parse_uuid i of None \<Rightarrow> Refused 422 | Some k \<Rightarrow> Calls (One_Tenant k))"
proof -
  have plain: "plain_path ''/admin/tenants''" by code_simp
  note at_tenants = http_router.first_match [OF assms plain, of cp_routes, unfolded find_tenants]
  show "cp_receive route parse_uuid payload ''POST'' ''/admin/tenants'' =
      (case payload of None \<Rightarrow> Refused 422 | Some name \<Rightarrow> Calls (Post_Tenant name))"
    using at_tenants [of "''POST''"] by (simp add: cp_receive_def)
  show "cp_receive route parse_uuid payload ''GET'' ''/admin/tenants'' = Calls All_Tenants"
    using at_tenants [of "''GET''"] by (simp add: cp_receive_def)
  assume i: "CHR ''/'' \<notin> set i" "CHR 0x0A \<notin> set i" "i \<noteq> []"
  have "plain_path (''/admin/tenants/'' @ i)" using i(2) by (simp add: plain_path_def framework_paths_def)
  from http_router.first_match [OF assms this, of cp_routes, unfolded find_tenant_path [OF i(1,3)]]
  have "route cp_routes ''GET'' (''/admin/tenants/'' @ i) = Inr (Get_Tenant, [i])" by simp
  then show "cp_receive route parse_uuid payload ''GET'' (''/admin/tenants/'' @ i) =
      (case parse_uuid i of None \<Rightarrow> Refused 422 | Some k \<Rightarrow> Calls (One_Tenant k))"
    by (simp add: cp_receive_def)
qed

section \<open>Committed rows stay\<close>

lemma put_session_fields [simp]:
  "cp_db (put_session t d s p) = d" "cp_sessions (put_session t d s p) = (cp_sessions p)(t \<mapsto> s)"
  "cp_serving (put_session t d s p) = cp_serving p"
  by (simp_all add: put_session_def)

lemma find_tenant_mono:
  assumes "db_ok metadata (sql_select ops d)" and "db_ok metadata (sql_select ops d')"
    and "set (sql_select ops d ''tenants'') \<subseteq> set (sql_select ops d' ''tenants'')" and "find_tenant ops d i = Some r"
  shows "find_tenant ops d' i = Some r"
  using assms(3,4) unfolding find_tenant_iff [OF assms(1)] find_tenant_iff [OF assms(2)] by blast

definition cp_inv :: "'d sql_ops \<Rightarrow> 'd control_plane \<Rightarrow> bool" where
  "cp_inv ops p \<longleftrightarrow>
     db_ok metadata (sql_select ops (cp_db p))
   \<and> (\<forall>t i. cp_sessions p t = Some (Committed i) \<longrightarrow> find_tenant ops (cp_db p) i \<noteq> None)"

text \<open>What a session will be answered with, as far as that is settled.\<close>

definition answer_of :: "'d sql_ops \<Rightarrow> 'd \<Rightarrow> cp_session option \<Rightarrow> cp_answer option" where
  "answer_of ops d s =
     (case s of
        Some (Replied a) \<Rightarrow> Some a
      | Some (Committed i) \<Rightarrow> Some (One (refreshed ops d i))
      | _ \<Rightarrow> None)"

lemma answer_of_simps [simp]:
  "answer_of ops d None = None" "answer_of ops d (Some (Asked c)) = None" "answer_of ops d (Some (Replied a)) = Some a"
  "answer_of ops d (Some (Committed i)) = Some (One (refreshed ops d i))"
  by (simp_all add: answer_of_def)

text \<open>A step that only adds rows keeps everything that is settled.\<close>

lemma answer_of_mono:
  assumes "db_ok metadata (sql_select ops d)" and "db_ok metadata (sql_select ops d')"
    and "set (sql_select ops d ''tenants'') \<subseteq> set (sql_select ops d' ''tenants'')"
    and "\<And>i. s = Some (Committed i) \<Longrightarrow> find_tenant ops d i \<noteq> None"
  shows "answer_of ops d' s = answer_of ops d s"
  using find_tenant_mono [OF assms(1-3)] assms(4)
  by (auto simp: answer_of_def refreshed_def split: option.splits cp_session.splits)

text \<open>
  One step: the database changes as the sequential effect says, what was settled stays, and what
  becomes settled is the answer of the sequential handler.
\<close>

definition step_linear ::
  "'d sql_ops \<Rightarrow> cp_effect list \<Rightarrow> 'd control_plane \<Rightarrow> 'd control_plane \<Rightarrow> bool" where
  "step_linear ops xs p q \<longleftrightarrow>
     cp_inv ops q \<and> cp_db q = fst (seq_run ops xs (cp_db p))
   \<and> (\<forall>t a. answer_of ops (cp_db q) (cp_sessions q t) = Some a \<longrightarrow>
        answer_of ops (cp_db p) (cp_sessions p t) = Some a
        \<or> (\<exists>c. cp_sessions p t = Some (Asked c) \<and> (t, c, a) \<in> set (snd (seq_run ops xs (cp_db p)))))"

lemma insert_keeps_inv:
  assumes db: "relational_db ops metadata" and "cp_inv ops p" and "table_named metadata n = Some tab"
    and "sql_insert ops (cp_db p) n r = Inr d"
  shows "db_ok metadata (sql_select ops d)"
    and "answer_of ops d (cp_sessions p t) = answer_of ops (cp_db p) (cp_sessions p t)"
    and "cp_sessions p t = Some (Committed i) \<Longrightarrow> find_tenant ops d i \<noteq> None"
proof -
  have ok: "db_ok metadata (sql_select ops (cp_db p))" using assms(2) by (simp add: cp_inv_def)
  show ok': "db_ok metadata (sql_select ops d)" by (rule relational_db.insert_db_ok [OF db ok assms(3,4)])
  note mono = relational_db.insert_mono [OF db assms(4), of "''tenants''"]
  show "answer_of ops d (cp_sessions p t) = answer_of ops (cp_db p) (cp_sessions p t)"
    using assms(2) by (intro answer_of_mono [OF ok ok' mono]) (auto simp: cp_inv_def)
  assume "cp_sessions p t = Some (Committed i)"
  then show "find_tenant ops d i \<noteq> None"
    using assms(2) find_tenant_mono [OF ok ok' mono] by (fastforce simp: cp_inv_def)
qed

lemma call_linear:
  assumes "cp_inv ops p" and "cp_apply ops (Call t c) p = Some q"
  shows "step_linear ops [] p q"
  using assms by (auto simp: step_linear_def cp_inv_def split: if_splits)

lemma elsewhere_linear:
  assumes db: "relational_db ops metadata" and "cp_inv ops p" and "cp_apply ops (Elsewhere n r) p = Some q"
  shows "step_linear ops [Inserts n r] p q"
proof -
  obtain tab d where tab: "table_named metadata n = Some tab" and ins: "sql_insert ops (cp_db p) n r = Inr d"
    and q: "q = p\<lparr>cp_db := d\<rparr>"
    using assms(3) by (auto split: option.splits sum.splits)
  note keeps = insert_keeps_inv [OF db assms(2) tab ins]
  show ?thesis using keeps by (auto simp: step_linear_def cp_inv_def q ins)
qed

lemma commit_linear:
  assumes db: "relational_db ops metadata" and "cp_inv ops p" and "cp_sessions p t = Some (Asked (Post_Tenant name))"
    and "cp_apply ops (Statement t fresh now) p = Some q"
  shows "step_linear ops [Handles t (Post_Tenant name) fresh now] p q"
proof (cases "sql_insert ops (cp_db p) ''tenants'' (new_tenant fresh now name)")
  case (Inl e)
  with assms show ?thesis
    by (auto simp: step_linear_def cp_inv_def create_tenant_def split: if_splits)
next
  case (Inr d)
  then have q: "q = put_session t d (Committed fresh) p" using assms(3,4) by simp
  note keeps = insert_keeps_inv [OF db assms(2) table_tenants Inr]
  have "new_tenant fresh now name \<in> set (sql_select ops d ''tenants'')"
    using relational_db.insert_set [OF db Inr] by simp
  then have found: "find_tenant ops d fresh = Some (new_tenant fresh now name)"
    using find_tenant_iff [OF keeps(1)] by simp
  have "create_tenant ops fresh now name (cp_db p) = (d, refreshed ops d fresh)"
    by (simp add: create_tenant_def Inr refreshed_def)
  with keeps found assms(3) show ?thesis
    by (auto simp: step_linear_def cp_inv_def q split: if_splits)
qed

lemma statement_linear:
  assumes db: "relational_db ops metadata" and inv: "cp_inv ops p" and st: "cp_apply ops (Statement t fresh now) p = Some q"
  shows "step_linear ops (effect_of p (Statement t fresh now)) p q"
proof -
  obtain s where s: "cp_sessions p t = Some s" using st by (auto split: option.splits)
  show ?thesis
  proof (cases s)
    case (Asked c)
    show ?thesis
    proof (cases c)
      case (Post_Tenant name)
      with commit_linear [OF db inv _ st] s Asked show ?thesis by simp
    qed (use inv st s Asked in \<open>auto simp: step_linear_def cp_inv_def split: if_splits\<close>)
  next
    case (Committed i)
    with inv st s show ?thesis by (auto simp: step_linear_def cp_inv_def split: if_splits)
  next
    case (Replied a)
    with st s show ?thesis by simp
  qed
qed

lemma cp_step_linear:
  assumes "relational_db ops metadata" and "cp_inv ops p" and "cp_apply ops e p = Some q"
  shows "step_linear ops (effect_of p e) p q"
proof (cases e)
  case (Call t c)
  with call_linear [OF assms(2)] assms(3) show ?thesis by simp
next
  case (Statement t fresh now)
  with statement_linear [OF assms(1,2)] assms(3) show ?thesis by simp
next
  case (Elsewhere n r)
  with elsewhere_linear [OF assms(1,2)] assms(3) show ?thesis by simp
next
  case Stops
  with assms(2,3) show ?thesis by (auto simp: step_linear_def cp_inv_def cp_shutdown_def)
qed

section \<open>Runs\<close>

lemma seq_run_Cons:
  "fst (seq_run ops (x # xs) d) = fst (seq_run ops xs (fst (seq_effect ops x d)))"
  "snd (seq_run ops (x # xs) d) = snd (seq_effect ops x d) @ snd (seq_run ops xs (fst (seq_effect ops x d)))"
  by (auto split: prod.splits)

lemma seq_run_append:
  "fst (seq_run ops (xs @ ys) d) = fst (seq_run ops ys (fst (seq_run ops xs d)))"
  "snd (seq_run ops (xs @ ys) d) = snd (seq_run ops xs d) @ snd (seq_run ops ys (fst (seq_run ops xs d)))"
  by (induction xs arbitrary: d) (simp_all add: seq_run_Cons del: seq_run.simps(2))

text \<open>The requests an effect or a history answers.\<close>

fun handled :: "cp_effect \<Rightarrow> (nat \<times> cp_call) list" where
  "handled (Handles t c fresh now) = [(t, c)]"
| "handled (Inserts n r) = []"

lemma seq_run_handled: "map (\<lambda>(t, c, a). (t, c)) (snd (seq_run ops xs d)) = concat (map handled xs)"
proof (induction xs arbitrary: d)
  case (Cons x xs)
  have "map (\<lambda>(t, c, a). (t, c)) (snd (seq_effect ops x d)) = handled x"
    by (cases x) (auto split: prod.splits sum.splits)
  with Cons show ?case by (simp add: seq_run_Cons del: seq_run.simps(2))
qed simp

lemma effects_Cons:
  "cp_apply ops e p = Some q \<Longrightarrow> cp_effects ops (e # es) p = effect_of p e @ cp_effects ops es q"
  by simp

lemma effect_handled: "concat (map handled (effect_of p e)) =
    (case e of Statement t fresh now \<Rightarrow> (case cp_sessions p t of Some (Asked c) \<Rightarrow> [(t, c)] | _ \<Rightarrow> []) | _ \<Rightarrow> [])"
  by (cases e) (auto split: option.split cp_session.split)

text \<open>A request that has taken effect does not do so again.\<close>

definition pending :: "'d control_plane \<Rightarrow> nat \<Rightarrow> bool" where
  "pending p t \<longleftrightarrow> cp_sessions p t = None \<or> (\<exists>c. cp_sessions p t = Some (Asked c))"

lemma step_pending:
  assumes "cp_apply ops e p = Some q"
  shows "pending q t \<Longrightarrow> pending p t" and "(t, c) \<in> set (concat (map handled (effect_of p e))) \<Longrightarrow> \<not> pending q t"
proof -
  have "(pending q t \<longrightarrow> pending p t) \<and> ((t, c) \<in> set (concat (map handled (effect_of p e))) \<longrightarrow> \<not> pending q t)"
  proof (cases e)
    case (Statement u fresh now)
    then obtain s d s' where s: "cp_sessions p u = Some s" "cp_statement ops fresh now (cp_db p) s = Some (d, s')"
      "q = put_session u d s' p" using assms by (auto split: option.splits)
    then have "\<not> (\<exists>c. s' = Asked c)"
      by (cases "(ops, fresh, now, cp_db p, s)" rule: cp_statement.cases) (auto split: sum.splits)
    with Statement s show ?thesis
      by (auto simp: pending_def effect_handled split: option.splits cp_session.splits if_splits)
  qed (use assms in \<open>auto simp: pending_def effect_handled cp_shutdown_def split: if_splits option.splits sum.splits\<close>)
  then show "pending q t \<Longrightarrow> pending p t" "(t, c) \<in> set (concat (map handled (effect_of p e))) \<Longrightarrow> \<not> pending q t" by blast+
qed

lemma effects_once:
  assumes "cp_exec ops es p = Some q"
  shows "distinct (map fst (concat (map handled (cp_effects ops es p))))
    \<and> (\<forall>t \<in> fst ` set (concat (map handled (cp_effects ops es p))). pending p t)"
  using assms
proof (induction es arbitrary: p)
  case (Cons e es)
  then obtain u where u: "cp_apply ops e p = Some u" "cp_exec ops es u = Some q" by (auto simp: bind_eq_Some_conv)
  let ?h = "concat (map handled (effect_of p e))" and ?l = "concat (map handled (cp_effects ops es u))"
  note IH = Cons.IH [OF u(2)]
  have own: "distinct (map fst ?h)" "\<forall>t \<in> fst ` set ?h. pending p t"
    by (auto simp: effect_handled pending_def split: cp_event.splits option.splits cp_session.splits)
  have "fst ` set ?h \<inter> fst ` set ?l = {}" using IH step_pending(2) [OF u(1)] by fastforce
  moreover have "\<forall>t \<in> fst ` set ?l. pending p t" using IH step_pending(1) [OF u(1)] by blast
  ultimately show ?case using own IH by (simp add: u(1) ball_Un image_Un)
qed simp

lemma cp_run_linear:
  assumes "relational_db ops metadata" and "cp_inv ops p" and "cp_exec ops es p = Some q"
  shows "cp_db q = fst (seq_run ops (cp_effects ops es p) (cp_db p))
    \<and> (\<forall>t a. answer_of ops (cp_db q) (cp_sessions q t) = Some a \<longrightarrow>
         answer_of ops (cp_db p) (cp_sessions p t) = Some a
         \<or> (\<exists>c. (t, c, a) \<in> set (snd (seq_run ops (cp_effects ops es p) (cp_db p)))))"
  using assms(2,3)
proof (induction es arbitrary: p)
  case (Cons e es)
  then obtain u where u: "cp_apply ops e p = Some u" "cp_exec ops es u = Some q" by (auto simp: bind_eq_Some_conv)
  note one = cp_step_linear [OF assms(1) Cons.prems(1) u(1), unfolded step_linear_def]
  from one have "cp_inv ops u" by blast
  note rest = Cons.IH [OF this u(2)]
  let ?x = "effect_of p e" and ?xs = "cp_effects ops es u"
  have run: "fst (seq_run ops (cp_effects ops (e # es) p) (cp_db p)) = fst (seq_run ops ?xs (cp_db u))"
    "snd (seq_run ops (cp_effects ops (e # es) p) (cp_db p))
       = snd (seq_run ops ?x (cp_db p)) @ snd (seq_run ops ?xs (cp_db u))"
    using one by (simp_all only: effects_Cons [OF u(1)] seq_run_append)
  from one rest show ?case unfolding run set_append by blast
qed simp

text \<open>Every effect of a request belongs to a call.\<close>

lemma effects_called:
  assumes "cp_exec ops es p = Some q" and "(t, c) \<in> set (concat (map handled (cp_effects ops es p)))"
  shows "cp_sessions p t = Some (Asked c) \<or> Call t c \<in> set es"
  using assms
proof (induction es arbitrary: p)
  case (Cons e es)
  then obtain u where u: "cp_apply ops e p = Some u" "cp_exec ops es u = Some q" by (auto simp: bind_eq_Some_conv)
  have before: "cp_sessions p t = Some (Asked c) \<or> e = Call t c" if "cp_sessions u t = Some (Asked c)"
  proof (cases e)
    case (Statement v fresh now)
    then obtain s d s' where s: "cp_sessions p v = Some s" "cp_statement ops fresh now (cp_db p) s = Some (d, s')"
      "u = put_session v d s' p" using u(1) by (auto split: option.splits)
    then have "s' \<noteq> Asked c"
      by (cases "(ops, fresh, now, cp_db p, s)" rule: cp_statement.cases) (auto split: sum.splits)
    with s that show ?thesis by (auto split: if_splits)
  qed (use u(1) that in \<open>auto simp: cp_shutdown_def split: if_splits option.splits sum.splits\<close>)
  from Cons.prems(2) consider "(t, c) \<in> set (concat (map handled (effect_of p e)))"
    | "(t, c) \<in> set (concat (map handled (cp_effects ops es u)))"
    by (auto simp: u(1))
  then show ?case
  proof cases
    case 1
    then show ?thesis by (auto simp: effect_handled split: cp_event.splits option.splits cp_session.splits)
  next
    case 2
    with Cons.IH [OF u(2)] before show ?thesis by auto
  qed
qed simp

section \<open>Property\<close>

text \<open>C25.
  The control plane is linearisable. Start it on any database whose rows meet the declared
  constraints, and let any number of requests interleave at the statements they await, with each
  other and with insertions by other clients. Then the database is the one that results when the
  requests run alone, one after the other, in the order of their first statements; each request runs
  exactly once there, is one that was called, and has been answered, if it has been answered, exactly
  what it is answered there: in particular the row that a creation reads back after its commit is the
  one it committed, whatever happened in between.\<close>

theorem control_plane_linearizable:
  assumes "schema_db ops metadata create_all" and "db_ok metadata (sql_select ops d)"
    and "cp_startup create_all d = Inr p0" and "cp_exec ops es p0 = Some p"
    and "seq_run ops (cp_effects ops es p0) (cp_db p0) = (d', l)"
  shows "cp_db p = d' \<and> (\<forall>t a. cp_sessions p t = Some (Replied a) \<longrightarrow> (\<exists>c. (t, c, a) \<in> set l))
    \<and> distinct (map fst l) \<and> (\<forall>(t, c, a) \<in> set l. Call t c \<in> set es)"
proof -
  let ?h = "concat (map handled (cp_effects ops es p0))"
  have db: "relational_db ops metadata" using assms(1) by (simp add: schema_db_def)
  have start: "create_all d = Inr (cp_db p0)" "cp_sessions p0 = Map.empty"
    using assms(3) by (auto simp: cp_startup_def split: sum.splits)
  have "cp_inv ops p0" using schema_db.create_all_ok [OF assms(1) start(1) assms(2)] by (simp add: cp_inv_def start(2))
  note lin = cp_run_linear [OF db this assms(4), unfolded start(2) assms(5)]
  have h: "map (\<lambda>(t, c, a). (t, c)) l = ?h"
    using seq_run_handled [of ops "cp_effects ops es p0" "cp_db p0"] assms(5) by simp
  have "map fst l = map fst ?h" unfolding h [symmetric] by (simp add: case_prod_beta comp_def)
  then have "distinct (map fst l)" using effects_once [OF assms(4)] by simp
  moreover have "Call t c \<in> set es" if "(t, c, a) \<in> set l" for t c a
  proof -
    have "(t, c) \<in> set ?h" unfolding h [symmetric] using that by force
    from effects_called [OF assms(4) this] show ?thesis by (simp add: start(2))
  qed
  moreover have "\<exists>c. (t, c, a) \<in> set l" if "cp_sessions p t = Some (Replied a)" for t a
    using lin that by (metis answer_of_simps(1,3) snd_conv option.distinct(1))
  ultimately show ?thesis using lin by auto
qed

definition ex_admin :: "cp_event list" where
  "ex_admin =
     [Call 0 (Post_Tenant ''acme''), Call 1 (Post_Tenant ''acme''), Call 2 All_Tenants, Statement 1 7 0,
      Statement 0 8 1, Elsewhere ''tenants'' (new_tenant 9 2 ''globex''), Statement 2 0 0, Statement 1 0 0]"

theorem control_plane_linearizable_witness:
  "\<exists>p0 p d' l. cp_startup (mem_create_all metadata) [] = Inr p0
    \<and> cp_exec (memory_db metadata) ex_admin p0 = Some p
    \<and> seq_run (memory_db metadata) (cp_effects (memory_db metadata) ex_admin p0) (cp_db p0) = (d', l)
    \<and> cp_db p = d' \<and> length l = 3
    \<and> (\<exists>c. (1, c, One (Reply 201 \<lparr> to_id = 7, to_name = ''acme'', to_status = ACTIVE \<rparr>)) \<in> set l)"
proof -
  let ?ops = "memory_db metadata" and ?acme = "One (Reply 201 \<lparr> to_id = 7, to_name = ''acme'', to_status = ACTIVE \<rparr>)"
  let ?run = "\<lambda>p. seq_run ?ops (cp_effects ?ops ex_admin p) (cp_db p)"
  have "case cp_startup (mem_create_all metadata) [] of Inl e \<Rightarrow> False
      | Inr p0 \<Rightarrow> length (snd (?run p0)) = 3
          \<and> map_option (\<lambda>p. cp_sessions p 1) (cp_exec ?ops ex_admin p0) = Some (Some (Replied ?acme))"
    by code_simp
  then obtain p0 p where p0: "cp_startup (mem_create_all metadata) [] = Inr p0" "length (snd (?run p0)) = 3"
    and p: "cp_exec ?ops ex_admin p0 = Some p" "cp_sessions p 1 = Some (Replied ?acme)"
    by (auto split: sum.splits)
  obtain d' l where run: "?run p0 = (d', l)" by (metis surj_pair)
  with p0(2) have "length l = 3" by simp
  with p p0(1) run control_plane_linearizable [OF memory_schema.schema_db_axioms empty_db_ok p0(1) p(1) run]
  show ?thesis by blast
qed

end
