(* ===== verification/Gateway_App.thy ===== *)
theory Gateway_App
  imports Gateway Web_Framework
begin

text \<open>
  The gateway as an HTTP application, \<^verbatim>\<open>src/apps/gateway/main.py\<close>: the decorators are the table
  \<open>gateway_routes\<close>, and \<open>gateway_serve\<close> hands a request to \<open>healthz\<close>, \<open>readyz\<close>,
  the exposition of the metrics or \<open>proxy\<close>, as the router of the web framework decides. The
  text format of the metrics is the library's, so its renderer is an argument.
\<close>

section \<open>Endpoints\<close>

datatype gw_endpoint = Healthz | Readyz | Metrics | Proxy

definition proxy_methods :: "string list" where
  "proxy_methods = [''GET'', ''POST'', ''PUT'', ''PATCH'', ''DELETE'', ''OPTIONS'', ''HEAD'']"

definition gateway_routes :: "gw_endpoint http_routes" where
  "gateway_routes =
     [(''GET'', [Fixed [], Fixed ''healthz''], Healthz),
      (''GET'', [Fixed [], Fixed ''readyz''], Readyz),
      (''GET'', [Fixed [], Fixed ''metrics''], Metrics)]
     @ map (\<lambda>m. (m, [Fixed [], Fixed ''proxy'', Rest], Proxy)) proxy_methods"

datatype gw_reply = Framework int | Json int "(string, string) dict" | Exposition string | Proxied "exn + Response"

definition metrics_endpoint :: "(metrics \<Rightarrow> string) \<Rightarrow> metrics \<Rightarrow> gw_reply" where
  "metrics_endpoint generate_latest m = Exposition (generate_latest m)"

definition gateway_serve ::
  "(gw_endpoint http_routes \<Rightarrow> string \<Rightarrow> string \<Rightarrow> int + gw_endpoint \<times> string list) \<Rightarrow> (metrics \<Rightarrow> string)
    \<Rightarrow> 'db redis_ops \<Rightarrow> int \<Rightarrow> Settings \<Rightarrow> string \<Rightarrow> inbound \<Rightarrow> 'db proxy_env \<Rightarrow> 'db app \<times> metrics
    \<Rightarrow> ('db app \<times> metrics) \<times> outbound_request list \<times> LogRecord list \<times> gw_reply" where
  "gateway_serve route generate_latest ops inf_reply cfg path q env s =
     (case s of (a, m) \<Rightarrow>
      case route gateway_routes (ib_method q) path of
        Inl code \<Rightarrow> (s, [], [], Framework code)
      | Inr (Healthz, _) \<Rightarrow> (s, [], [], case_prod Json (healthz a))
      | Inr (Readyz, _) \<Rightarrow> (s, [], [], case_prod Json (readyz a))
      | Inr (Metrics, _) \<Rightarrow> (s, [], [], metrics_endpoint generate_latest m)
      | Inr (Proxy, ps) \<Rightarrow>
          (case proxy ops inf_reply cfg (app_backends a) (q\<lparr>ib_full_path := concat ps\<rparr>) env (app_gateway a, m) of
             ((gw', m'), qs, logs, r) \<Rightarrow> ((a\<lparr>app_gateway := gw'\<rparr>, m'), qs, logs, Proxied r)))"

section \<open>Which request reaches what\<close>

lemma segments_of:
  "split_slash (''/proxy/'' @ p) = [] # ''proxy'' # split_slash p"
  using split_slash_append [of "''proxy''" p] by simp

lemma route_proxied: "find_route (map (\<lambda>m. (m, ts, e)) ms) meth path =
    (if meth \<in> set ms then map_option (Pair e) (seg_match ts path) else None)"
  by (induction ms) (auto split: option.splits)

lemma find_proxy:
  "find_route gateway_routes meth (split_slash (''/proxy/'' @ p)) =
     (if meth \<in> set proxy_methods then Some (Proxy, [p]) else None)"
  unfolding gateway_routes_def segments_of by (simp add: route_proxied)

text \<open>Only paths under \<^verbatim>\<open>/proxy/\<close> are routed to the proxy handler.\<close>

lemma found_proxy:
  assumes "find_route gateway_routes meth (split_slash path) = Some (Proxy, ps)"
  obtains p where "path = ''/proxy/'' @ p" and "ps = [p]" and "meth \<in> set proxy_methods"
proof -
  from assms have "meth \<in> set proxy_methods" and match: "seg_match [Fixed [], Fixed ''proxy'', Rest] (split_slash path) = Some ps"
    by (auto simp: gateway_routes_def route_proxied split: option.splits if_splits)
  from seg_match_FixedD [OF match] obtain ss1 where ss1: "split_slash path = [] # ss1" "seg_match [Fixed ''proxy'', Rest] ss1 = Some ps" by blast
  from seg_match_FixedD [OF ss1(2)] obtain ss2 where ss2: "ss1 = ''proxy'' # ss2" "seg_match [Rest] ss2 = Some ps" by blast
  from seg_match_RestD [OF ss2(2)] obtain s ss where "ss2 = s # ss" "ps = [join_slash (s # ss)]" by blast
  with ss1 ss2 have segs: "split_slash path = [] # ''proxy'' # s # ss" "ps = [join_slash (s # ss)]" by simp_all
  then have "path = ''/proxy/'' @ join_slash (s # ss)"
    using join_split [of path] segs(1) by (simp add: join_slash_Cons)
  with segs(2) \<open>meth \<in> set proxy_methods\<close> that show ?thesis by blast
qed

lemma find_own:
  "find_route gateway_routes ''GET'' (split_slash ''/healthz'') = Some (Healthz, [])"
  "find_route gateway_routes ''GET'' (split_slash ''/readyz'') = Some (Readyz, [])"
  "find_route gateway_routes ''GET'' (split_slash ''/metrics'') = Some (Metrics, [])"
  by (simp_all add: gateway_routes_def)

section \<open>Property\<close>

text \<open>C27.
  The application serves exactly what its table says. Under \<^verbatim>\<open>/proxy/\<close>, for each of the seven
  methods, the rest of the path goes to the proxy handler as it is, slashes included. Liveness is
  always reported, readiness until the shutdown begins and never after, and the metrics that are
  exposed are the ones the requests have left. And only a request under \<^verbatim>\<open>/proxy/\<close> with one of
  these methods changes the state of the gateway, reaches a backend or is logged.\<close>

theorem gateway_serves:
  assumes "http_router route" and "plain_path path"
    and "gateway_serve route render ops ir cfg path q env (a, m) = (s', qs, logs, r)"
  shows "(path = ''/proxy/'' @ p \<and> ib_method q \<in> set proxy_methods \<longrightarrow>
        (\<exists>gw' m' res. proxy ops ir cfg (app_backends a) (q\<lparr>ib_full_path := p\<rparr>) env (app_gateway a, m) = ((gw', m'), qs, logs, res)
          \<and> s' = (a\<lparr>app_gateway := gw'\<rparr>, m') \<and> r = Proxied res))
    \<and> (ib_method q = ''GET'' \<longrightarrow>
         (path = ''/healthz'' \<longrightarrow> r = Json 200 [(''status'', ''ok'')])
       \<and> (path = ''/readyz'' \<longrightarrow> (\<exists>d. r = Json (if app_draining a then 503 else 200) d))
       \<and> (path = ''/metrics'' \<longrightarrow> r = Exposition (render m)))
    \<and> (s' \<noteq> (a, m) \<or> qs \<noteq> [] \<or> logs \<noteq> [] \<longrightarrow> (\<exists>p. path = ''/proxy/'' @ p) \<and> ib_method q \<in> set proxy_methods)"
proof -
  note routed = http_router.routed_iff [OF assms(1,2), of gateway_routes "ib_method q"]
  have under: "\<exists>gw' m' res. proxy ops ir cfg (app_backends a) (q\<lparr>ib_full_path := p\<rparr>) env (app_gateway a, m) = ((gw', m'), qs, logs, res)
      \<and> s' = (a\<lparr>app_gateway := gw'\<rparr>, m') \<and> r = Proxied res"
    if "path = ''/proxy/'' @ p" "ib_method q \<in> set proxy_methods"
  proof -
    have "route gateway_routes (ib_method q) path = Inr (Proxy, [p])"
      unfolding routed unfolding that(1) find_proxy using that(2) by simp
    with assms(3) show ?thesis by (auto simp: gateway_serve_def split: prod.splits)
  qed
  have own: "(path = ''/healthz'' \<longrightarrow> r = Json 200 [(''status'', ''ok'')])
       \<and> (path = ''/readyz'' \<longrightarrow> (\<exists>d. r = Json (if app_draining a then 503 else 200) d))
       \<and> (path = ''/metrics'' \<longrightarrow> r = Exposition (render m))" if "ib_method q = ''GET''"
  proof -
    have "route gateway_routes ''GET'' path = Inr (e, [])"
      if "find_route gateway_routes ''GET'' (split_slash path) = Some (e, [])" for e
      using http_router.first_match [OF assms(1,2) that] .
    with find_own assms(3) that show ?thesis
      by (auto simp: gateway_serve_def healthz_def readyz_def metrics_endpoint_def
          simp del: split_slash.simps find_route.simps)
  qed
  have "(\<exists>p. path = ''/proxy/'' @ p) \<and> ib_method q \<in> set proxy_methods"
    if "s' \<noteq> (a, m) \<or> qs \<noteq> [] \<or> logs \<noteq> []"
  proof -
    from that assms(3) obtain ps where "route gateway_routes (ib_method q) path = Inr (Proxy, ps)"
      by (auto simp: gateway_serve_def split: sum.splits gw_endpoint.splits)
    then show ?thesis unfolding routed by (rule found_proxy) blast
  qed
  with under own show ?thesis by blast
qed

definition ex_probe :: "string \<Rightarrow> inbound" where
  "ex_probe meth = (ex_inbound [])\<lparr>ib_method := meth\<rparr>"

theorem gateway_serves_witness:
  "\<exists>s' qs logs d. gateway_serve simple_route (\<lambda>m. []) memory_server 0 settings ''/readyz'' (ex_probe ''GET'')
       ex_proxy_env (shutdown ex_app, new_metrics) = (s', qs, logs, Json 503 d)
     \<and> qs = [] \<and> s' = (shutdown ex_app, new_metrics)"
proof -
  let ?serve = "gateway_serve simple_route (\<lambda>m. []) memory_server 0 settings ''/readyz'' (ex_probe ''GET'')
       ex_proxy_env (shutdown ex_app, new_metrics)"
  obtain s' qs logs r where run: "?serve = (s', qs, logs, r)" by (metis surj_pair)
  have plain: "plain_path ''/readyz''" by code_simp
  have get: "ib_method (ex_probe ''GET'') = ''GET''" by (simp add: ex_probe_def)
  have drains: "app_draining (shutdown ex_app)" by (simp add: shutdown_def)
  from gateway_serves [OF simple_router.http_router_axioms plain run, of "[]"] get drains run show ?thesis by auto
qed

end
