(* ===== verification/Demo_Service.thy ===== *)
theory Demo_Service
  imports Logging Web_Framework
begin

text \<open>
  The three demo backends, \<^verbatim>\<open>src/demo-services/users/main.py\<close>,
  \<^verbatim>\<open>payments/main.py\<close> and \<^verbatim>\<open>notifications/main.py\<close>. The files differ in the
  name of the service and of its collection only, so the handlers are written once, over a record
  of the two names, and instantiated three times. A handler that waits lets other handlers change
  the shared \<^verbatim>\<open>_STATE\<close> meanwhile (\<open>de_during_sleep\<close>); the random number is part of
  the environment.

  Which handler a request reaches is the web framework's decision: the decorators are the table
  \<open>demo_routes\<close>, to which the interface \<open>http_router\<close> of \<open>Web_Framework\<close> applies.
\<close>

section \<open>State and replies\<close>

record demo_state =
  forced_error_rate :: py_float
  forced_latency_ms :: int
  killed :: bool

definition initial_state :: demo_state where
  "initial_state = \<lparr> forced_error_rate = 0, forced_latency_ms = 0, killed = False \<rparr>"

record demo_app =
  da_service :: string
  da_collection :: string

datatype demo_reply = JSON py_value | Raw int bytes | Raised int string

fun reply_status :: "demo_reply \<Rightarrow> int" where
  "reply_status (JSON v) = 200"
| "reply_status (Raw code body) = code"
| "reply_status (Raised code detail) = code"

record demo_env =
  de_draw :: py_float
  de_during_sleep :: "demo_state \<Rightarrow> demo_state"

section \<open>Handlers\<close>

definition demo_health :: "demo_state \<Rightarrow> demo_reply" where
  "demo_health st =
     (if killed st then Raised 503 ''killed'' else JSON (PDict [(PStr ''status'', PStr ''healthy'')]))"

text \<open>What is left of the state, the time slept, and the error if there is one.\<close>

definition maybe_misbehave ::
  "demo_env \<Rightarrow> demo_state \<Rightarrow> demo_state \<times> seconds \<times> (int \<times> string) option" where
  "maybe_misbehave env st =
     (if killed st then (st, 0, Some (503, ''backend killed''))
      else
        let (st1, slept) =
          (if forced_latency_ms st \<noteq> 0
           then (de_during_sleep env st, max 0 (of_int (forced_latency_ms st) / 1000)) else (st, 0))
        in if forced_error_rate st1 \<noteq> 0 \<and> de_draw env < forced_error_rate st1
           then (st1, slept, Some (503, ''injected failure''))
           else (st1, slept, None))"

definition unless_misbehaving ::
  "demo_env \<Rightarrow> py_value \<Rightarrow> demo_state \<Rightarrow> demo_state \<times> seconds \<times> demo_reply" where
  "unless_misbehaving env v st =
     (case maybe_misbehave env st of
        (st1, slept, Some (code, detail)) \<Rightarrow> (st1, slept, Raised code detail)
      | (st1, slept, None) \<Rightarrow> (st1, slept, JSON v))"

definition get_item :: "demo_app \<Rightarrow> demo_env \<Rightarrow> string \<Rightarrow> demo_state \<Rightarrow> demo_state \<times> seconds \<times> demo_reply" where
  "get_item app env user_id st =
     unless_misbehaving env
       (PDict [(PStr ''id'', PStr user_id), (PStr ''name'', PStr (''user-'' @ user_id)),
               (PStr ''service'', PStr (da_service app))]) st"

definition list_items :: "demo_env \<Rightarrow> demo_state \<Rightarrow> demo_state \<times> seconds \<times> demo_reply" where
  "list_items env st =
     unless_misbehaving env
       (PDict [(PStr ''users'', PList (map (\<lambda>i. PDict [(PStr ''id'', PStr (py_str_int i))]) [1, 2, 3, 4, 5]))]) st"

definition simulate_500 :: demo_reply where
  "simulate_500 = Raw 500 ''{\"error\":\"simulated failure\"}''"

definition simulate_slow :: "int \<Rightarrow> seconds \<times> demo_reply" where
  "simulate_slow delay_ms =
     (max 0 (of_int delay_ms / 1000), JSON (PDict [(PStr ''status'', PStr ''ok''), (PStr ''delayed_ms'', PInt delay_ms)]))"

definition simulate_random :: "demo_env \<Rightarrow> py_float \<Rightarrow> demo_reply" where
  "simulate_random env failure_rate =
     (if de_draw env < failure_rate then Raw 503 ''{\"error\":\"simulated random failure\"}''
      else Raw 200 ''{\"status\":\"ok\"}'')"

definition kill :: "demo_state \<Rightarrow> demo_state \<times> demo_reply" where
  "kill st = (st\<lparr>killed := True\<rparr>, JSON (PDict [(PStr ''status'', PStr ''killed'')]))"

definition restore :: "demo_state \<Rightarrow> demo_state \<times> demo_reply" where
  "restore st =
     (st\<lparr>killed := False, forced_error_rate := 0, forced_latency_ms := 0\<rparr>,
      JSON (PDict [(PStr ''status'', PStr ''restored'')]))"

definition set_error_rate :: "py_float \<Rightarrow> demo_state \<Rightarrow> demo_state \<times> demo_reply" where
  "set_error_rate rate st = (st\<lparr>forced_error_rate := rate\<rparr>, JSON (PDict [(PStr ''forced_error_rate'', PFloat rate)]))"

definition set_latency :: "int \<Rightarrow> demo_state \<Rightarrow> demo_state \<times> demo_reply" where
  "set_latency ms st = (st\<lparr>forced_latency_ms := ms\<rparr>, JSON (PDict [(PStr ''forced_latency_ms'', PInt ms)]))"

section \<open>Routing\<close>

datatype endpoint =
    Health | Get_Item | List_Items | Simulate_500 | Simulate_Slow | Simulate_Random
  | Kill | Restore | Set_Error_Rate | Set_Latency

definition demo_routes :: "demo_app \<Rightarrow> endpoint http_routes" where
  "demo_routes app =
     [(''GET'', [Fixed [], Fixed ''health''], Health),
      (''GET'', [Fixed [], Fixed ''api'', Fixed (da_collection app), Param], Get_Item),
      (''GET'', [Fixed [], Fixed ''api'', Fixed (da_collection app)], List_Items),
      (''GET'', [Fixed [], Fixed ''simulate'', Fixed ''500''], Simulate_500),
      (''GET'', [Fixed [], Fixed ''simulate'', Fixed ''slow''], Simulate_Slow),
      (''GET'', [Fixed [], Fixed ''simulate'', Fixed ''random''], Simulate_Random),
      (''POST'', [Fixed [], Fixed ''admin'', Fixed ''kill''], Kill),
      (''POST'', [Fixed [], Fixed ''admin'', Fixed ''restore''], Restore),
      (''POST'', [Fixed [], Fixed ''admin'', Fixed ''error-rate'', Param], Set_Error_Rate),
      (''POST'', [Fixed [], Fixed ''admin'', Fixed ''latency'', Param], Set_Latency)]"

section \<open>A service\<close>

text \<open>
  What the framework makes of a request: the route, and parameters as numbers; 422 if it cannot.
  \<open>web_error\<close> is the body it gives to an error response of its own.
\<close>

record web =
  web_route :: "endpoint http_routes \<Rightarrow> string \<Rightarrow> string \<Rightarrow> int + endpoint \<times> string list"
  web_float :: "string \<Rightarrow> py_float option"
  web_int :: "string \<Rightarrow> int option"
  web_error :: "int \<Rightarrow> bytes"

definition param_or :: "(string \<Rightarrow> 'a option) \<Rightarrow> 'a \<Rightarrow> string option \<Rightarrow> 'a option" where
  "param_or conv d v = (case v of None \<Rightarrow> Some d | Some x \<Rightarrow> conv x)"

definition with_param :: "web \<Rightarrow> 'a option \<Rightarrow> ('a \<Rightarrow> demo_state \<times> seconds \<times> demo_reply) \<Rightarrow> demo_state
    \<Rightarrow> demo_state \<times> seconds \<times> demo_reply" where
  "with_param w v f st = (case v of None \<Rightarrow> (st, 0, Raw 422 (web_error w 422)) | Some x \<Rightarrow> f x)"

definition at_once :: "demo_state \<times> demo_reply \<Rightarrow> demo_state \<times> seconds \<times> demo_reply" where
  "at_once r = (fst r, 0, snd r)"

definition demo_serve ::
  "web \<Rightarrow> demo_app \<Rightarrow> demo_env \<Rightarrow> string \<Rightarrow> string \<Rightarrow> (string \<Rightarrow> string option) \<Rightarrow> demo_state
    \<Rightarrow> demo_state \<times> seconds \<times> demo_reply" where
  "demo_serve w app env meth path query st =
     (case web_route w (demo_routes app) meth path of
        Inl code \<Rightarrow> (st, 0, Raw code (web_error w code))
      | Inr (e, ps) \<Rightarrow>
          (let p = (case ps of [] \<Rightarrow> [] | x # _ \<Rightarrow> x) in
           case e of
             Health \<Rightarrow> (st, 0, demo_health st)
           | Get_Item \<Rightarrow> get_item app env p st
           | List_Items \<Rightarrow> list_items env st
           | Simulate_500 \<Rightarrow> (st, 0, simulate_500)
           | Simulate_Slow \<Rightarrow>
               with_param w (param_or (web_int w) 2000 (query ''delay_ms''))
                 (\<lambda>ms. (de_during_sleep env st, simulate_slow ms)) st
           | Simulate_Random \<Rightarrow>
               with_param w (param_or (web_float w) (3 / 10) (query ''failure_rate''))
                 (\<lambda>rate. (st, 0, simulate_random env rate)) st
           | Kill \<Rightarrow> at_once (kill st)
           | Restore \<Rightarrow> at_once (restore st)
           | Set_Error_Rate \<Rightarrow> with_param w (web_float w p) (\<lambda>rate. at_once (set_error_rate rate st)) st
           | Set_Latency \<Rightarrow> with_param w (web_int w p) (\<lambda>ms. at_once (set_latency ms st)) st))"

definition users_app :: demo_app where
  "users_app = \<lparr> da_service = ''users-service'', da_collection = ''users'' \<rparr>"

definition payments_app :: demo_app where
  "payments_app = \<lparr> da_service = ''payments-service'', da_collection = ''payments'' \<rparr>"

definition notifications_app :: demo_app where
  "notifications_app = \<lparr> da_service = ''notifications-service'', da_collection = ''notifications'' \<rparr>"

definition users_service ::
  "web \<Rightarrow> demo_env \<Rightarrow> string \<Rightarrow> string \<Rightarrow> (string \<Rightarrow> string option) \<Rightarrow> demo_state \<Rightarrow> demo_state \<times> seconds \<times> demo_reply" where
  "users_service w = demo_serve w users_app"

definition payments_service ::
  "web \<Rightarrow> demo_env \<Rightarrow> string \<Rightarrow> string \<Rightarrow> (string \<Rightarrow> string option) \<Rightarrow> demo_state \<Rightarrow> demo_state \<times> seconds \<times> demo_reply" where
  "payments_service w = demo_serve w payments_app"

definition notifications_service ::
  "web \<Rightarrow> demo_env \<Rightarrow> string \<Rightarrow> string \<Rightarrow> (string \<Rightarrow> string option) \<Rightarrow> demo_state \<Rightarrow> demo_state \<times> seconds \<times> demo_reply" where
  "notifications_service w = demo_serve w notifications_app"

text \<open>A history of requests to one service, one after the other.\<close>

fun demo_run ::
  "web \<Rightarrow> demo_app \<Rightarrow> (demo_env \<times> string \<times> string \<times> (string \<Rightarrow> string option)) list \<Rightarrow> demo_state \<Rightarrow> demo_state" where
  "demo_run w app [] st = st"
| "demo_run w app ((env, meth, path, query) # h) st =
     demo_run w app h (fst (demo_serve w app env meth path query st))"

section \<open>Lemmas\<close>

lemma unless_misbehaving_status:
  "reply_status (snd (snd (unless_misbehaving env v st))) =
     (if killed st then 503
      else let st1 = (if forced_latency_ms st \<noteq> 0 then de_during_sleep env st else st)
           in if forced_error_rate st1 \<noteq> 0 \<and> de_draw env < forced_error_rate st1 then 503 else 200)"
  by (simp add: unless_misbehaving_def maybe_misbehave_def Let_def)

text \<open>The item page of a service is routed to its handler.\<close>

lemma item_route:
  assumes "http_router (web_route w)" and "i \<noteq> []" and "CHR ''/'' \<notin> set i" and "CHR 0x0A \<notin> set i"
    and "CHR ''/'' \<notin> set (da_collection app)" and "CHR 0x0A \<notin> set (da_collection app)"
  shows "web_route w (demo_routes app) ''GET'' (''/api/'' @ da_collection app @ CHR ''/'' # i) = Inr (Get_Item, [i])"
proof -
  let ?p = "''/api/'' @ da_collection app @ CHR ''/'' # i"
  have "split_slash ?p = [[], ''api'', da_collection app, i]"
    using assms(3,5) by (simp add: split_slash_append split_slash_segment)
  then have "find_route (demo_routes app) ''GET'' (split_slash ?p) = Some (Get_Item, [i])"
    using assms(2) by (simp add: demo_routes_def)
  moreover have "plain_path ?p" using assms(4,6) by (simp add: plain_path_def framework_paths_def)
  ultimately show ?thesis using http_router.first_match [OF assms(1)] by blast
qed

section \<open>Properties\<close>

text \<open>
  Failure injection is real and is undone by a restore. A request for an item is answered 503 when
  the service has been killed, or when an error rate is set and the random draw falls below it, and
  otherwise 200 with the item's identifier and the service's name; it takes the configured latency.
  After a restore nothing is injected, whatever was set before.\<close>

theorem demo_failure_injection:
  assumes "http_router (web_route w)" and "app \<in> {users_app, payments_app, notifications_app}"
    and "i \<noteq> []" and "CHR ''/'' \<notin> set i" and "CHR 0x0A \<notin> set i" and "\<And>s. de_during_sleep env s = s"
  shows "demo_serve w app env ''GET'' (''/api/'' @ da_collection app @ CHR ''/'' # i) query st =
     (if killed st then (st, 0, Raised 503 ''backend killed'')
      else (st, max 0 (of_int (forced_latency_ms st) / 1000),
        if forced_error_rate st \<noteq> 0 \<and> de_draw env < forced_error_rate st
        then Raised 503 ''injected failure''
        else JSON (PDict [(PStr ''id'', PStr i), (PStr ''name'', PStr (''user-'' @ i)),
                          (PStr ''service'', PStr (da_service app))])))
   \<and> reply_status (snd (snd (demo_serve w app env ''GET'' (''/api/'' @ da_collection app @ CHR ''/'' # i) query
       (fst (restore st))))) = 200"
proof -
  have "CHR ''/'' \<notin> set (da_collection app)" "CHR 0x0A \<notin> set (da_collection app)"
    using assms(2) by (auto simp: users_app_def payments_app_def notifications_app_def)
  note r = item_route [OF assms(1,3-5) this]
  have serve: "demo_serve w app env ''GET'' (''/api/'' @ da_collection app @ CHR ''/'' # i) query s = get_item app env i s" for s
    by (simp only: demo_serve_def r) (simp add: Let_def)
  show ?thesis
    unfolding serve get_item_def unless_misbehaving_def maybe_misbehave_def restore_def
    using assms(6) by (simp add: Let_def)
qed

definition ex_web :: web where
  "ex_web = \<lparr> web_route = simple_route, web_float = (\<lambda>s. None), web_int = (\<lambda>s. None),
     web_error = (\<lambda>c. ''error'') \<rparr>"

theorem demo_failure_injection_witness:
  "snd (snd (demo_serve ex_web payments_app \<lparr> de_draw = 1 / 4, de_during_sleep = (\<lambda>s. s) \<rparr> ''GET'' ''/api/payments/7'' (\<lambda>_. None)
     (fst (set_error_rate (1 / 2) initial_state)))) = Raised 503 ''injected failure''"
proof -
  let ?env = "\<lparr> de_draw = 1 / 4, de_during_sleep = (\<lambda>s. s) \<rparr>"
  have h: "http_router (web_route ex_web)" "payments_app \<in> {users_app, payments_app, notifications_app}"
    "''7'' \<noteq> []" "CHR ''/'' \<notin> set ''7''" "CHR 0x0A \<notin> set ''7''" "\<And>s. de_during_sleep ?env s = s"
    using simple_router.http_router_axioms by (simp_all add: ex_web_def)
  have p: "''/api/'' @ da_collection payments_app @ CHR ''/'' # ''7'' = ''/api/payments/7''"
    by (simp add: payments_app_def)
  show ?thesis
    by (simp only: demo_failure_injection [OF h, THEN conjunct1, unfolded p])
      (simp add: set_error_rate_def initial_state_def)
qed

end
