(* ===== verification/Deployment.thy ===== *)
theory Deployment
  imports Gateway Demo_Service
begin

text \<open>
  The system as it is shipped: the routes file \<^verbatim>\<open>src/infra/docker/routes.yaml\<close> as the document
  the loader is given, and which demo backend answers at which host name
  (\<^verbatim>\<open>src/docker-compose.yml\<close>). The theorem puts the loader, the pipeline's target address and
  the backends' own routes together.
\<close>

definition yaml_demo_service :: "string \<Rightarrow> string \<Rightarrow> string \<Rightarrow> int \<Rightarrow> yaml_service" where
  "yaml_demo_service service ident host port =
     \<lparr> ys_id = Some service,
       ys_instances = Some [\<lparr> yi_id = Some ident, yi_host = Some host, yi_port = Some port, yi_weight = Some 1 \<rparr>] \<rparr>"

definition yaml_demo_route :: "string \<Rightarrow> string \<Rightarrow> string \<Rightarrow> string \<Rightarrow> int \<Rightarrow> string \<Rightarrow> yaml_route" where
  "yaml_demo_route ident name pat service timeout priority =
     \<lparr> yr_id = Some ident, yr_tenant_id = Some ''default'', yr_name = Some name,
       yr_path_pattern = Some pat, yr_http_methods = Some [''GET'', ''POST''],
       yr_backend_service_id = Some service, yr_timeout_ms = Some timeout, yr_priority = Some priority \<rparr>"

definition routes_yaml :: yaml_doc where
  "routes_yaml =
     \<lparr> yd_routes = Some
         [yaml_demo_route ''route-users'' ''users'' ''/users/*'' ''users-service'' 2000 ''HIGH'',
          yaml_demo_route ''route-payments'' ''payments'' ''/payments/*'' ''payments-service'' 2000 ''HIGH'',
          yaml_demo_route ''route-notifications'' ''notifications'' ''/notifications/*''
            ''notifications-service'' 3000 ''LOW''],
       yd_backend_services = Some
         [yaml_demo_service ''users-service'' ''users-1'' ''demo-users'' 9001,
          yaml_demo_service ''payments-service'' ''payments-1'' ''demo-payments'' 9002,
          yaml_demo_service ''notifications-service'' ''notifications-1'' ''demo-notifications'' 9003] \<rparr>"

definition deployed_app :: "string \<Rightarrow> demo_app option" where
  "deployed_app host =
     (if host = ''demo-users'' then Some users_app
      else if host = ''demo-payments'' then Some payments_app
      else if host = ''demo-notifications'' then Some notifications_app else None)"

definition shipped_route :: "string \<Rightarrow> string \<Rightarrow> string \<Rightarrow> string \<Rightarrow> int \<Rightarrow> string \<Rightarrow> RouteDefinition" where
  "shipped_route ident name pat service timeout priority =
     \<lparr> rt_id = ident, rt_tenant_id = ''default'', rt_name = name, rt_path_pattern = pat,
       rt_http_methods = [''GET'', ''POST''], rt_backend_service_id = service, rt_timeout_ms = timeout,
       rt_priority = priority, rt_enabled = True \<rparr>"

definition shipped_instance :: "string \<Rightarrow> string \<Rightarrow> int \<Rightarrow> BackendInstance" where
  "shipped_instance ident host port =
     \<lparr> bi_id = ident, bi_host = host, bi_port = port, bi_weight = 1, bi_status = UNKNOWN, bi_failure_count = 0 \<rparr>"

lemma load_shipped:
  "load_routes_and_backends (Some routes_yaml) = Inr
     ([shipped_route ''route-users'' ''users'' ''/users/*'' ''users-service'' 2000 ''HIGH'',
       shipped_route ''route-payments'' ''payments'' ''/payments/*'' ''payments-service'' 2000 ''HIGH'',
       shipped_route ''route-notifications'' ''notifications'' ''/notifications/*'' ''notifications-service'' 3000 ''LOW''],
      [(''users-service'', [shipped_instance ''users-1'' ''demo-users'' 9001]),
       (''payments-service'', [shipped_instance ''payments-1'' ''demo-payments'' 9002]),
       (''notifications-service'', [shipped_instance ''notifications-1'' ''demo-notifications'' 9003])])"
  by code_simp

definition shipped_pair :: "string \<Rightarrow> string \<Rightarrow> bool" where
  "shipped_pair pat host \<longleftrightarrow>
     pat = ''/users/*'' \<and> host = ''demo-users'' \<or> pat = ''/payments/*'' \<and> host = ''demo-payments''
   \<or> pat = ''/notifications/*'' \<and> host = ''demo-notifications''"

lemma shipped_pairs:
  assumes "load_routes_and_backends (Some routes_yaml) = Inr (routes, backends)" and "route \<in> set routes"
    and "dict_get backends (rt_backend_service_id route) = Some insts" and "b \<in> set insts"
  shows "shipped_pair (rt_path_pattern route) (bi_host b)"
proof -
  have "list_all (\<lambda>r. case dict_get backends (rt_backend_service_id r) of
      None \<Rightarrow> True | Some is \<Rightarrow> list_all (\<lambda>b. shipped_pair (rt_path_pattern r) (bi_host b)) is) routes
    \<longleftrightarrow> (case load_routes_and_backends (Some routes_yaml) of Inl e \<Rightarrow> False | Inr (rs, bs) \<Rightarrow>
      list_all (\<lambda>r. case dict_get bs (rt_backend_service_id r) of
        None \<Rightarrow> True | Some is \<Rightarrow> list_all (\<lambda>b. shipped_pair (rt_path_pattern r) (bi_host b)) is) rs)"
    by (simp only: assms(1) sum.case prod.case)
  also have "\<dots>" by code_simp
  finally show ?thesis using assms(2-4) by (fastforce simp: list_all_iff)
qed

lemma unserved_path:
  assumes "http_router (web_route w)"
    and "(app, path) \<in> {(users_app, ''/users/''), (payments_app, ''/payments/''), (notifications_app, ''/notifications/'')}"
  shows "demo_serve w app env meth path query st = (st, 0, Raw 404 (web_error w 404))"
proof -
  have *: "list_all (\<lambda>(app, path). plain_path path \<and> toggle_slash path \<notin> set framework_paths
      \<and> \<not> path_known (demo_routes app) path \<and> \<not> path_known (demo_routes app) (toggle_slash path))
    [(users_app, ''/users/''), (payments_app, ''/payments/''), (notifications_app, ''/notifications/'')]"
    by code_simp
  have "plain_path path" "toggle_slash path \<notin> set framework_paths"
    "\<not> path_known (demo_routes app) path" "\<not> path_known (demo_routes app) (toggle_slash path)"
    using * [unfolded list_all_iff] assms(2) by auto
  from http_router.unknown_path [OF assms(1) this] show ?thesis by (simp add: demo_serve_def)
qed

text \<open>C18.
  The shipped configuration never reaches a demo endpoint. Whatever a client asks for, an attempt
  for one of the shipped routes goes to the host of its demo backend with the path
  \<^verbatim>\<open>/users/\<close>, \<^verbatim>\<open>/payments/\<close> or \<^verbatim>\<open>/notifications/\<close>, which the backend does
  not serve: it answers 404 to every method, in every state, killed or not. The gateway passes the
  404 on and counts it as a success of the backend, so that nothing injected into the backends is
  ever seen by the circuit breaker.\<close>

theorem shipped_routes_miss_demo_endpoints:
  assumes "http_router (web_route w)"
    and "load_routes_and_backends (Some routes_yaml) = Inr (routes, backends)" and "route \<in> set routes"
    and "dict_get backends (rt_backend_service_id route) = Some insts" and "b \<in> set insts"
    and "bi_host (gw_instances gw inst) = bi_host b"
  shows "\<exists>app path. deployed_app (bi_host b) = Some app
    \<and> ob_url (attempt_request items req route gw inst left_s) = instance_url (gw_instances gw inst) @ path
    \<and> (\<forall>denv meth query dst. demo_serve w app denv meth path query dst = (dst, 0, Raw 404 (web_error w 404)))
    \<and> (\<forall>resp rid svc env ls lb g. rs_status_code resp = 404 \<longrightarrow>
         close_attempt rid svc env ls lb (Inr resp) g =
           (put_breaker svc (record_success (t_outcome env) (the_breaker g svc)) (g :: 'db gateway),
            Done \<lparr> status_code = 404, pr_headers = dict_update [(''X-Request-ID'', rid)] (rs_headers resp),
                   pr_body = rs_content resp, stage_failed = None \<rparr>))"
proof -
  have sent: "ob_url (attempt_request items req route gw inst left_s) =
      instance_url (gw_instances gw inst) @ py_rstrip (CHR ''*'') (rt_path_pattern route)"
    by (simp add: attempt_request_def forward_request_def)
  have strip: "py_rstrip (CHR ''*'') ''/users/*'' = ''/users/''" "py_rstrip (CHR ''*'') ''/payments/*'' = ''/payments/''"
    "py_rstrip (CHR ''*'') ''/notifications/*'' = ''/notifications/''" by (code_simp, code_simp, code_simp)
  have shipped: "shipped_pair (rt_path_pattern route) (bi_host b)"
    by (rule shipped_pairs [OF assms(2-5)])
  have "\<exists>app. deployed_app (bi_host b) = Some app
      \<and> (app, py_rstrip (CHR ''*'') (rt_path_pattern route)) \<in>
          {(users_app, ''/users/''), (payments_app, ''/payments/''), (notifications_app, ''/notifications/'')}"
    using shipped strip unfolding shipped_pair_def by (elim disjE) (simp_all add: deployed_app_def)
  then obtain app where app: "deployed_app (bi_host b) = Some app"
    "(app, py_rstrip (CHR ''*'') (rt_path_pattern route)) \<in>
          {(users_app, ''/users/''), (payments_app, ''/payments/''), (notifications_app, ''/notifications/'')}" by blast
  have close: "close_attempt rid svc env ls lb (Inr resp) g =
           (put_breaker svc (record_success (t_outcome env) (the_breaker g svc)) g,
            Done \<lparr> status_code = 404, pr_headers = dict_update [(''X-Request-ID'', rid)] (rs_headers resp),
                   pr_body = rs_content resp, stage_failed = None \<rparr>)"
    if "rs_status_code resp = 404" for resp rid svc env ls lb and g :: "'db gateway"
    using that by (simp add: close_attempt_def Let_def)
  show ?thesis
    by (rule exI [of _ app], rule exI [of _ "py_rstrip (CHR ''*'') (rt_path_pattern route)"])
      (use app(1) sent unserved_path [OF assms(1) app(2)] close in blast)
qed

definition ex_shipped :: "mem_db app" where
  "ex_shipped = (case startup settings (Some routes_yaml) ([] :: mem_db) ex_blank of Inr a \<Rightarrow> a)"

theorem shipped_routes_miss_demo_endpoints_witness:
  "\<exists>app path. deployed_app ''demo-payments'' = Some app
    \<and> ob_url (attempt_request lower_items ex_request
        (shipped_route ''route-payments'' ''payments'' ''/payments/*'' ''payments-service'' 2000 ''HIGH'')
        (app_gateway ex_shipped) 1 2) = ''http://demo-payments:9002'' @ path
    \<and> demo_serve ex_web app \<lparr> de_draw = 0, de_during_sleep = (\<lambda>s. s) \<rparr> ''GET'' path (\<lambda>_. None) initial_state
      = (initial_state, 0, Raw 404 ''error'')"
proof -
  let ?route = "shipped_route ''route-payments'' ''payments'' ''/payments/*'' ''payments-service'' 2000 ''HIGH''"
  let ?b = "shipped_instance ''payments-1'' ''demo-payments'' 9002"
  have web: "http_router (web_route ex_web)" using simple_router.http_router_axioms by (simp add: ex_web_def)
  have host: "bi_host (gw_instances (app_gateway ex_shipped) 1) = bi_host ?b"
    and url: "instance_url (gw_instances (app_gateway ex_shipped) 1) = ''http://demo-payments:9002''"
    by (code_simp, code_simp)
  have svc: "dict_get [(''users-service'', [shipped_instance ''users-1'' ''demo-users'' 9001]),
       (''payments-service'', [shipped_instance ''payments-1'' ''demo-payments'' 9002]),
       (''notifications-service'', [shipped_instance ''notifications-1'' ''demo-notifications'' 9003])]
      (rt_backend_service_id ?route) = Some [?b]"
    by (simp add: dict_get_def shipped_route_def)
  have "bi_host ?b = ''demo-payments''" "web_error ex_web 404 = ''error''" by (simp_all add: shipped_instance_def ex_web_def)
  with shipped_routes_miss_demo_endpoints [OF web load_shipped _ svc _ host, of lower_items ex_request 2] url
  show ?thesis by auto
qed

section \<open>Killing and restoring a backend\<close>

lemma health_route:
  assumes "http_router (web_route w)"
  shows "reply_status (snd (snd (demo_serve w app env ''GET'' ''/health'' query st))) = (if killed st then 503 else 200)"
proof -
  have "find_route (demo_routes app) ''GET'' (split_slash ''/health'') = Some (Health, [])"
    by (simp add: demo_routes_def)
  moreover have "plain_path ''/health''" by (simp add: plain_path_def framework_paths_def)
  ultimately have "web_route w (demo_routes app) ''GET'' ''/health'' = Inr (Health, [])"
    using http_router.first_match [OF assms] by blast
  then show ?thesis by (simp add: demo_serve_def Let_def demo_health_def)
qed

lemma shipped_startup:
  assumes "startup cfg (Some routes_yaml) db st = Inr a"
  shows "app_backends a = [(''users-service'', [0]), (''payments-service'', [1]), (''notifications-service'', [2])]"
    and "map (gw_instances (app_gateway a)) [0, 1, 2] =
      [shipped_instance ''users-1'' ''demo-users'' 9001, shipped_instance ''payments-1'' ''demo-payments'' 9002,
       shipped_instance ''notifications-1'' ''demo-notifications'' 9003]"
proof -
  obtain routes backends st' where l: "load_routes_and_backends (Some routes_yaml) = Inr (routes, backends)"
    and p: "place backends 0 st = (st', app_backends a)" and g: "gw_instances (app_gateway a) = st'"
    by (rule startup_Inr [OF assms])
  have "backends = [(''users-service'', [shipped_instance ''users-1'' ''demo-users'' 9001]),
       (''payments-service'', [shipped_instance ''payments-1'' ''demo-payments'' 9002]),
       (''notifications-service'', [shipped_instance ''notifications-1'' ''demo-notifications'' 9003])]"
    using l [unfolded load_shipped] by simp
  with p have pl: "app_backends a = [(''users-service'', [0]), (''payments-service'', [1]), (''notifications-service'', [2])]"
    "st' 0 = shipped_instance ''users-1'' ''demo-users'' 9001" "st' 1 = shipped_instance ''payments-1'' ''demo-payments'' 9002"
    "st' 2 = shipped_instance ''notifications-1'' ''demo-notifications'' 9003"
    by (auto simp: Let_def numeral_2_eq_2)
  then show "app_backends a = [(''users-service'', [0]), (''payments-service'', [1]), (''notifications-service'', [2])]"
    and "map (gw_instances (app_gateway a)) [0, 1, 2] =
      [shipped_instance ''users-1'' ''demo-users'' 9001, shipped_instance ''payments-1'' ''demo-payments'' 9002,
       shipped_instance ''notifications-1'' ''demo-notifications'' 9003]"
    by (simp_all add: g)
qed

text \<open>C31.
  Killing a demo backend takes it out of rotation and restoring it brings it back. In the shipped
  system with the default settings, let the health checks of backend \<open>k\<close> be answered by its demo
  service, in the state \<open>states ! j\<close> in round \<open>j\<close>, and let the probes of the other backends
  answer or fail as they like: if the service was killed in the last three rounds, the instance is
  unhealthy and is not selected; if it was alive in the last two, it is healthy.\<close>

theorem kill_and_restore:
  assumes "http_router (web_route w)" and "startup settings (Some routes_yaml) db st = Inr a" and "k < 3"
    and "\<forall>x \<in> set rounds. undisturbed x \<and> (\<forall>i. expected_probe (result (fst x i)))"
    and "length states = length rounds"
    and "\<And>j. j < length rounds \<Longrightarrow> result (fst (rounds ! j) k) =
      Answer (reply_status (snd (snd (demo_serve w app denv ''GET'' ''/health'' query (states ! j)))))"
    and "run_rounds rounds (app_health_checker a, gw_instances (app_gateway a)) = (hc', st')"
  shows "(3 \<le> length rounds \<and> (\<forall>j < length rounds. length rounds - 3 \<le> j \<longrightarrow> killed (states ! j)) \<longrightarrow>
      bi_status (st' k) = UNHEALTHY)
    \<and> (2 \<le> length rounds \<and> (\<forall>j < length rounds. length rounds - 2 \<le> j \<longrightarrow> \<not> killed (states ! j)) \<longrightarrow>
      bi_status (st' k) = HEALTHY)"
proof -
  let ?st = "gw_instances (app_gateway a)" and ?R = "[0, 1, 2] :: instance_ref list" and ?n = "length rounds"
  note shipped = shipped_startup [OF assms(2)]
  have R: "?R = concat (dict_values (app_backends a))" by (simp add: shipped(1) dict_values_def)
  have insts: "?st 0 = shipped_instance ''users-1'' ''demo-users'' 9001" "?st 1 = shipped_instance ''payments-1'' ''demo-payments'' 9002"
    "?st 2 = shipped_instance ''notifications-1'' ''demo-notifications'' 9003"
    using shipped(2) by simp_all
  have inj: "inj_on (\<lambda>r. bi_id (?st r)) (set ?R)" using insts by (simp add: inj_on_def shipped_instance_def)
  have live: "\<forall>r \<in> set ?R. bi_status (?st r) \<noteq> DRAINING" using insts by (simp add: shipped_instance_def)
  have quiet: "\<forall>x \<in> set rounds. undisturbed x" using assms(4) by blast
  have hc: "app_health_checker a = new_health_checker (app_backends a) (cfg_health_check_interval_s settings)
      (cfg_health_check_timeout_s settings) 3 2 ''/health''"
    by (rule startup_Inr [OF assms(2)]) (simp add: settings_def)
  have k: "k \<in> set ?R" "?R ! k = k" using assms(3) by (auto simp: nth_Cons' less_Suc_eq numeral_3_eq_3)
  have "results_of k (concat (map (\<lambda>x. round_log (fst x) 0 ?R) rounds)) = map (\<lambda>x. probe_up (result (fst x k))) rounds"
    using assms(4)
  proof (induction rounds)
    case (Cons x xs)
    then have "results_of (?R ! k) (round_log (fst x) 0 ?R) = [probe_up (result (fst x k))]"
      using assms(3) by (intro results_of_round) auto
    with Cons k(2) show ?case by simp
  qed simp
  also have "\<dots> = map (\<lambda>s. \<not> killed s) states"
    using assms(5,6) by (intro nth_equalityI) (simp_all add: probe_up_def health_route [OF assms(1)])
  finally have status: "bi_status (st' k) = verdict 3 2 (bi_status (?st k)) (rev (map (\<lambda>s. \<not> killed s) states))"
    using rounds_verdict [OF hc R inj k(1) live quiet assms(7) refl] by simp
  have recent: "verdict 3 2 (bi_status (?st k)) (rev (map (\<lambda>s. \<not> killed s) states)) = (if b then HEALTHY else UNHEALTHY)"
    if "0 < m" "m \<le> ?n" "\<forall>j < ?n. ?n - m \<le> j \<longrightarrow> (\<not> killed (states ! j)) = b" "(if b then 2 else 3) \<le> int m" for m b
    by (rule verdict_recent [of m]) (use that assms(5) in \<open>auto simp: rev_nth\<close>)
  show ?thesis using recent [of 3 False] recent [of 2 True] status by simp
qed

definition ex_alive :: "demo_state \<Rightarrow> (nat \<Rightarrow> probe_env) \<times> (instance_store \<Rightarrow> instance_store)" where
  "ex_alive s = (\<lambda>i. \<lparr> result = (if i = 1 then Answer (reply_status (demo_health s)) else HttpError), meanwhile = id \<rparr>, id)"

definition ex_states :: "demo_state list" where
  "ex_states = [initial_state, initial_state] @ replicate 3 (fst (kill initial_state))"

lemma ex_shipped_startup: "startup settings (Some routes_yaml) ([] :: mem_db) ex_blank = Inr ex_shipped"
proof -
  have "\<exists>m. new_manager (settings_limits settings) = Inr m"
    by (simp add: new_manager_def new_gate_def settings_def settings_limits_def)
  then have "\<exists>a. startup settings (Some routes_yaml) ([] :: mem_db) ex_blank = Inr a"
    by (auto simp: startup_def and_then_def load_shipped split: prod.splits)
  then show ?thesis by (auto simp: ex_shipped_def)
qed

theorem kill_and_restore_witness:
  "bi_status (snd (run_rounds (map ex_alive ex_states) (app_health_checker ex_shipped, gw_instances (app_gateway ex_shipped))) 1) = UNHEALTHY"
proof -
  let ?env = "\<lparr> de_draw = 0, de_during_sleep = (\<lambda>s. s) \<rparr>"
  let ?rounds = "map ex_alive ex_states"
  have web: "http_router (web_route ex_web)" using simple_router.http_router_axioms by (simp add: ex_web_def)
  have quiet: "\<forall>x \<in> set ?rounds. undisturbed x \<and> (\<forall>i. expected_probe (result (fst x i)))"
    by (auto simp: ex_alive_def undisturbed_def expected_probe_def)
  have probes: "result (fst (?rounds ! j) 1) =
      Answer (reply_status (snd (snd (demo_serve ex_web payments_app ?env ''GET'' ''/health'' (\<lambda>_. None) (ex_states ! j)))))"
    if "j < length ?rounds" for j
    using that by (simp add: ex_alive_def health_route [OF web] demo_health_def)
  have dead: "3 \<le> length ?rounds" "\<forall>j < length ?rounds. length ?rounds - 3 \<le> j \<longrightarrow> killed (ex_states ! j)"
    by (auto simp: ex_states_def kill_def nth_append nth_Cons' less_Suc_eq numeral_eq_Suc)
  have one: "(1::nat) < 3" by simp
  have len: "length ex_states = length ?rounds" by simp
  from kill_and_restore [OF web ex_shipped_startup one quiet len probes prod.collapse [symmetric], THEN conjunct1, rule_format] dead
  show ?thesis by blast
qed

end
