(* ===== verification/Unit_Tests.thy ===== *)
theory Unit_Tests
  imports Circuit_Breaker Retry_Policy Router
begin

text \<open>
  The repository's own unit tests (\<^verbatim>\<open>src/tests/unit\<close>) replayed on the model: every scenario
  the authors check by running the code is evaluated on the definitions, so the definitions agree
  with the code wherever the tests pin it down. Lemmas have the names of the tests. The two tests
  that sample random numbers are covered by theorems about every draw and every shuffle
  (\<open>backoff_full_jitter\<close>, \<open>round_robin_exact\<close>).
\<close>

section \<open>Circuit breaker\<close>

definition make_breaker :: "int \<Rightarrow> seconds \<Rightarrow> int \<Rightarrow> breaker" where
  "make_breaker minimum duration probes =
     new_breaker ''test-backend'' (default_breaker_config\<lparr>failure_threshold := 1 / 2,
       minimum_requests := minimum, open_duration_seconds := duration, half_open_max_requests := probes\<rparr>)"

definition failures :: "nat \<Rightarrow> cb_event list" where
  "failures n = replicate n (Record_Failure 0 0)"

definition successes :: "nat \<Rightarrow> cb_event list" where
  "successes n = replicate n (Record_Success 0)"

definition seen_state :: "seconds \<Rightarrow> breaker \<Rightarrow> CircuitState" where
  "seen_state t b = cb_state (read_state t b)"

lemma test_starts_closed:
  "seen_state 0 (make_breaker 10 10 3) = CLOSED \<and> \<not> raised (before_request 0 (make_breaker 10 10 3))"
  by (simp add: seen_state_def make_breaker_def new_breaker_def read_state_def before_request_def raised_def)

lemma test_stays_closed_below_minimum_requests:
  "seen_state 0 (cb_run (failures 9) (make_breaker 10 10 3)) = CLOSED"
  by code_simp

lemma test_opens_when_failure_rate_reaches_threshold:
  "seen_state 0 (cb_run (successes 5 @ failures 5) (make_breaker 10 10 3)) = OPEN"
  by code_simp

lemma test_does_not_open_below_threshold:
  "seen_state 0 (cb_run (successes 7 @ failures 3) (make_breaker 10 10 3)) = CLOSED"
  by code_simp

lemma test_open_circuit_rejects_requests:
  "snd (before_request 0 (cb_run (failures 2) (make_breaker 2 10 3))) = Inl (CircuitOpenError ''test-backend'')"
  by code_simp

lemma test_transitions_to_half_open_after_open_duration:
  "map (\<lambda>t. seen_state t (cb_run (failures 2) (make_breaker 2 10 3))) [0, 5, 11] = [OPEN, OPEN, HALF_OPEN]"
  by code_simp

lemma test_half_open_closes_after_enough_successful_probes:
  "seen_state 2 (cb_run (failures 2 @ concat (replicate 3 [Before_Request 2, Record_Success 2])) (make_breaker 2 1 3)) = CLOSED"
  by code_simp

lemma test_half_open_reopens_on_any_probe_failure:
  "seen_state 2 (cb_run (failures 2 @ [Before_Request 2, Record_Success 2, Before_Request 2, Record_Failure 2 2])
     (make_breaker 2 1 3)) = OPEN"
  by code_simp

lemma test_half_open_limits_concurrent_probes:
  "snd (before_request 2 (cb_run (failures 2 @ [Before_Request 2, Before_Request 2]) (make_breaker 2 1 2)))
     = Inl (CircuitOpenError ''test-backend'')"
  by code_simp

lemma test_reopening_resets_outcome_window:
  "seen_state 2 (cb_run (failures 2 @ concat (replicate 3 [Before_Request 2, Record_Success 2]) @ [Record_Failure 2 2])
     (make_breaker 2 1 3)) = CLOSED"
  by code_simp

section \<open>Retry policy\<close>

lemma test_is_retryable:
  "is_retryable ''GET'' TIMEOUT default_retry_policy False"
  "\<not> is_retryable ''POST'' HTTP_503 default_retry_policy False"
  "is_retryable ''POST'' HTTP_503 (default_retry_policy\<lparr>allow_non_idempotent := True\<rparr>) False"
  "\<not> is_retryable ''GET'' HTTP_4XX default_retry_policy False"
  "\<not> is_retryable ''GET'' TIMEOUT default_retry_policy True"
  by (code_simp, code_simp, code_simp, code_simp, code_simp)

lemma test_classify_http_status:
  "map classify_http_status [502, 503, 504, 404, 500, 200] =
     [HTTP_502, HTTP_503, HTTP_504, HTTP_4XX, HTTP_OTHER_5XX, SUCCESS]"
  by code_simp

lemma test_deadline_tracker:
  "map (remaining_seconds (new_deadline 2000 0)) [1 / 2, 19 / 10, 5 / 2] = [3 / 2, 1 / 10, 0]"
  "has_budget_for (new_deadline 200 0) (5 / 100) 100"
  "\<not> has_budget_for (new_deadline 200 0) (19 / 100) 50"
  by (code_simp, code_simp, code_simp)

section \<open>Router\<close>

definition make_route :: RouteDefinition where
  "make_route =
     \<lparr> rt_id = ''r1'', rt_tenant_id = ''acme'', rt_name = ''users'', rt_path_pattern = ''/users/*'',
       rt_http_methods = [''GET''], rt_backend_service_id = ''users-service'', rt_timeout_ms = 2000,
       rt_priority = ''NORMAL'', rt_enabled = True \<rparr>"

definition not_found :: "exn + RouteDefinition \<Rightarrow> bool" where
  "not_found r \<longleftrightarrow> (case r of Inl (RouteNotFoundError _) \<Rightarrow> True | _ \<Rightarrow> False)"

lemma test_route_matching:
  "match_route (new_matcher [make_route]) ''acme'' ''GET'' ''/users/42'' = Inr make_route"
  "not_found (match_route (new_matcher [make_route]) ''other-tenant'' ''GET'' ''/users/42'')"
  "not_found (match_route (new_matcher [make_route]) ''acme'' ''POST'' ''/users/42'')"
  "not_found (match_route (new_matcher [make_route\<lparr>rt_enabled := False\<rparr>]) ''acme'' ''GET'' ''/users/42'')"
  by (code_simp, code_simp, code_simp, code_simp)

definition two_instances :: "InstanceStatus \<Rightarrow> InstanceStatus \<Rightarrow> int \<Rightarrow> instance_store" where
  "two_instances s0 s1 w = (\<lambda>r.
     if r = 0 then \<lparr> bi_id = ''a'', bi_host = ''a'', bi_port = 1, bi_weight = w, bi_status = s0, bi_failure_count = 0 \<rparr>
     else \<lparr> bi_id = ''b'', bi_host = ''b'', bi_port = 2, bi_weight = 1, bi_status = s1, bi_failure_count = 0 \<rparr>)"

lemma test_selector_excludes:
  "snd (select_many 20 (two_instances HEALTHY UNHEALTHY 1) rev new_selector ''svc'' [0, 1]) = replicate 20 (Inr 0)"
  "snd (select_many 20 (two_instances HEALTHY DRAINING 1) rev new_selector ''svc'' [0, 1]) = replicate 20 (Inr 0)"
  "snd (select (two_instances UNHEALTHY UNHEALTHY 1) rev new_selector ''svc'' [0]) = Inl (NoHealthyBackendError ''svc'')"
  by (code_simp, code_simp, code_simp)

lemma test_selector_respects_weight_distribution:
  "length (filter (\<lambda>r. r = Inr 0) (snd (select_many 40 (two_instances HEALTHY HEALTHY 3) rev new_selector ''svc'' [0, 1]))) = 30"
  by code_simp

end
