(* ===== verification/Spec2Isabelle.thy ===== *)
theory Spec2Isabelle
  imports Answers Process_Handle Half_Open Control_Process Gateway_App Deployment Unit_Tests
begin

text \<open>
  A verification of Sentinel, a distributed API traffic gateway written in Python. Clients send
  requests to one of several gateway processes (the data plane); each request is checked against a
  route table, a distributed rate limit in Redis and four concurrency limits, and is then forwarded
  to a healthy backend instance under a circuit breaker, with retries inside a deadline. A
  background task probes the backends. A separate control plane keeps the tenants in a database.

  \<^bold>\<open>The theories and the code they model.\<close>

  \<^item> \<open>Sentinel_Prelude\<close>: Python values (floats as exact rationals, strings, ordered
    dictionaries, bounded deques), exceptions as values, event systems, and the interfaces
    \<open>py_store\<close>/\<open>py_dict\<close>, \<open>lazy_registry\<close> and \<open>invariant_system\<close>.
  \<^item> \<open>Web_Framework\<close>: tables of HTTP routes and what the applications rely on in the web
    framework's router (\<open>http_router\<close>).
  \<^item> \<open>Circuit_Breaker\<close> (\<^verbatim>\<open>apps/gateway/circuitbreaker/breaker.py\<close>): the breaker
    record, one function per method, clock readings as arguments; \<open>cb_step\<close> has all call
    sequences. \<open>Half_Open\<close> adds the callers: which requests are under way, and since when.
  \<^item> \<open>Retry_Policy\<close> (\<^verbatim>\<open>apps/gateway/retry/policy.py\<close>): classification of responses,
    the retry decision, backoff, the deadline.
  \<^item> \<open>Router\<close> (\<^verbatim>\<open>apps/gateway/routing/router.py\<close>): glob matching, the route table,
    weighted round robin. Instances are objects shared with the health checker, so they live in a
    store and are passed by reference.
  \<^item> \<open>Backpressure\<close> (\<^verbatim>\<open>apps/gateway/backpressure/semaphores.py\<close>): the semaphore of
    asyncio with its queue, the gates, the manager; \<open>con_step\<close> interleaves any number of
    requests at their suspension points; and the load shedder.
  \<^item> \<open>Lua_Number\<close>, \<open>Redis_Server\<close>, \<open>Rate_Limiter\<close>
    (\<^verbatim>\<open>packages/redis/client.py\<close> and the two scripts under \<^verbatim>\<open>packages/redis/lua\<close>): Lua's
    number formatting, the commands of Redis as a locale with an executable instance, the scripts,
    the client with its failure modes, and histories of checks by many gateways.
  \<^item> \<open>Forwarder\<close> (\<^verbatim>\<open>apps/gateway/proxy/forwarder.py\<close>): the outgoing request and its
    headers.
  \<^item> \<open>Health_Checker\<close> (\<^verbatim>\<open>apps/gateway/health/checker.py\<close>): probes, counters, rounds.
  \<^item> \<open>Pipeline\<close> (\<^verbatim>\<open>apps/gateway/pipeline/pipeline.py\<close>): \<open>handle\<close> composes all of
    the above in the order of the code; what other requests do at a suspension point is a function
    of the environment.
  \<^item> \<open>Availability\<close>: soundness of the shared state, kept by the pipeline, and that no
    exception leaves it.
  \<^item> \<open>Process\<close>: the whole data-plane process as an interleaving. A request is a
    \<open>thread\<close> that rests where the code really suspends (rate limiter, queue of a gate, backend,
    rest before a retry); \<open>arrive\<close> and \<open>resume\<close> are the stretches in between, made of the
    pieces of \<open>handle\<close>; \<open>proc_step\<close> interleaves any number of threads with the health
    checker and with changes of Redis by others. \<open>Process_Handle\<close> relates threads to
    \<open>handle\<close>.
  \<^item> \<open>Cluster\<close>: several such processes, each started by \<open>startup\<close> and fed by
    \<open>proxy_request\<close>, on one Redis with its clock; a request that ends in an exception before
    it reaches the pipeline is kept as such. A process that crashes is a node that makes
    no further step, and one that is started again is another node. \<open>Answers\<close> shows of it that no
    request ends in an exception.
  \<^item> \<open>Logging\<close> (\<^verbatim>\<open>packages/common/logging.py\<close>): redaction, the log payload, the
    formatter over any JSON library that does what it documents, the root logger and the lines it
    writes.
  \<^item> \<open>Bootstrap\<close> (\<^verbatim>\<open>apps/gateway/bootstrap.py\<close>): from the routes file to routes and
    instance objects.
  \<^item> \<open>Gateway\<close> (\<^verbatim>\<open>apps/gateway/main.py\<close>, \<^verbatim>\<open>packages/config/settings.py\<close>, the metrics
    of \<^verbatim>\<open>apps/gateway/metrics.py\<close>): loading, start-up, shutdown, readiness, the proxy handler.
    \<open>Gateway_App\<close> adds the table of endpoints and which request reaches which handler.
  \<^item> \<open>Schema\<close>, \<open>Control_Plane\<close> (\<^verbatim>\<open>packages/database/models.py\<close>,
    \<^verbatim>\<open>apps/control_plane/main.py\<close>): the tables as data with their constraints, a locale for the
    database, the tenant endpoints. \<open>Control_Process\<close> is the running control plane: start-up
    and shutdown (\<^verbatim>\<open>lifespan\<close>), its table of endpoints, and sessions that interleave at the
    statements they await.
  \<^item> \<open>Demo_Service\<close>, \<open>Deployment\<close> (\<^verbatim>\<open>demo-services/*/main.py\<close>,
    \<^verbatim>\<open>infra/docker/routes.yaml\<close>): the demo backends and the shipped configuration.
  \<^item> \<open>Unit_Tests\<close> (\<^verbatim>\<open>tests/unit\<close>): the repository's unit tests replayed on the model.

  \<^bold>\<open>What is shown.\<close> For each component an invariant of its state and that every operation keeps
  it, the behaviour of every operation on every branch, and, where there is one, its contract:

  \<^item> rate limiting: over any history of checks, whatever the clocks of the gateways show and whatever
    fails or expires, what a token bucket admits is bounded by its capacity, the refill of the forward
    movement of the readings, and terms that name what else adds to it (keys that expire early,
    fail-open decisions, rounding); likewise a sliding window, whose limit holds in every window less
    the lag of the clocks; with clocks that agree this is the promised budget, with skewed clocks it
    grows, and a family of histories shows that it really does; the size of a burst, the decision and
    the wait of a sliding window are exact, the \<^verbatim>\<open>Retry-After\<close> the gateway sends suffices; and for
    the whole cluster, what backends receive under one API key is at most
    \<^verbatim>\<open>retry_max_attempts\<close> times the budget of its bucket, however many gateways there are;
  \<^item> concurrency: in every interleaving every gate holds at most its limit and no wake-up is lost; for
    the process as a whole, the requests using backends stay within the limits, every counter is the
    number of requests that hold its gate, and all slots come back;
  \<^item> circuit breaking: exactly when it opens, that the window is the recent history, that it fails
    fast while open and admits exactly the configured probes when half-open, as long as no success
    from before the circuit opened arrives late (with one, the limit fails); errors the pipeline does
    not handle wedge it;
  \<^item> dispatching: a bounded number of attempts, started before the deadline with a time-out that does not
    reach past it, only to healthy instances and only as the circuit breaker admits, with fair round robin; health status as a function of the runs of probe results;
  \<^item> the whole process: in every interleaving every request ends after a bounded number of its own
    steps and is never stuck, and what it did is, exactly, the run of \<open>handle\<close> in the environment
    of what it met at its own steps, so that everything shown of \<open>handle\<close> holds for it; every
    client of a cluster of freshly started gateways is answered, as long as bodies can be read, the
    failure mode is a known one and backends fail in the ways the pipeline catches; the order of the
    stages, metrics that are those of the history of requests, redacted logs, that the started
    gateway serves the routes and instances of the file, and what a cold start does to the circuits
    and how long it lasts (below);
  \<^item> routing: the first suitable route of the tenant, and for patterns that are a prefix and a star,
    by prefix;
  \<^item> the control plane: typed rows, unique names, creation and retrieval as inverses; its
    requests are linearisable;
  \<^item> the gateway's endpoints: which request reaches which handler, and that only proxied requests
    change anything;
  \<^item> the demo set-up: what the shipped routes reach, and that killing and restoring a backend takes it
    out of rotation and back.

  \<^bold>\<open>Bounds and fuel.\<close> No theorem depends on fuel. The retry loop is total because every round uses
  up one of \<^verbatim>\<open>max_attempts\<close>; \<open>acquire_gates\<close> gets the number of gates, four, and is shown
  to settle every request with it, and so does \<open>run_gates\<close>; a thread makes at most
  \<^verbatim>\<open>2 * max_attempts + 5\<close> steps; \<^verbatim>\<open>run_forever\<close> is any number of rounds. Lua's
  \<^verbatim>\<open>tostring\<close> keeps 14 significant digits, which is the error term of the admission bound.

  \<^bold>\<open>Outside code\<close> is a parameter with documented laws: Redis (\<open>redis_server\<close>), the database
  (\<open>relational_db\<close>, with the creation of tables \<open>schema_db\<close>), the web framework's routing (\<open>http_router\<close>), the HTTP client's
  header view (\<open>lowercases\<close>), the JSON library (\<open>json_dumps\<close>), the random shuffle (a permutation), clocks and random draws.

  \<^bold>\<open>Not modelled:\<close> the rounding of binary floating point; non-ASCII case conversion; reading and
  parsing of YAML, environment variables and request bodies; the text of log lines and
  metrics; connection pooling and time-outs inside the HTTP client, and therefore when an attempt
  ends; a database that cannot be reached; cancellation of a handler by a
  client that disconnects; clients of the database that change or delete rows (the system has
  none); the packages without code
  (middleware, websocket, security, observability); container, nginx and Prometheus configuration.
\<close>

section \<open>A cold start\<close>

text \<open>A dispatch that finds no healthy instance is one more recorded failure of the service.\<close>

definition all_failed :: "breaker \<Rightarrow> nat \<Rightarrow> bool" where
  "all_failed b n \<longleftrightarrow> cb_config b = default_breaker_config \<and> cb_state b = CLOSED
   \<and> length (cb_outcomes b) = n \<and> failures_in (cb_outcomes b) = int n"

lemma failure_counted:
  assumes "all_failed b n" and "n < 20"
  obtains b' where "record_failure t t' b = (b', Inr ())"
    and "if n = 19 then cb_state b' = OPEN \<and> cb_opened_at b' = Some t'
           \<and> cb_config b' = default_breaker_config else all_failed b' (Suc n)"
proof -
  have os: "cb_outcomes (append_outcome False t b) = cb_outcomes b @ [\<lparr>success = False, at_time = t\<rparr>]"
    using assms by (simp add: append_outcome_def all_failed_def default_breaker_config_def deque_append_def last_n_all)
  then have "int (length (cb_outcomes (append_outcome False t b))) = int n + 1"
    "failures_in (cb_outcomes (append_outcome False t b)) = int n + 1"
    using assms by (simp_all add: all_failed_def failures_in_def)
  with assms that show ?thesis
    by (cases "n = 19")
      (auto simp: record_failure_def Let_def maybe_open_def all_failed_def append_outcome_def
        default_breaker_config_def transition_to_open_def)
qed

lemma cold_dispatch:
  assumes "all_failed (the_breaker gw s) n" and "n < 20" and s: "rt_backend_service_id route = s"
    and "0 < max_attempts (rq_retry_policy req)"
    and cold: "\<forall>l. dict_get (rq_backends req) s = Some l \<longrightarrow> (\<forall>r \<in> set l. \<not> is_routable (gw_instances gw r))"
    and d: "dispatch items req route start env gw = (gw', qs, r)"
  shows "qs = [] \<and> r = Inr (no_backend_result (rq_request_id req)) \<and> gw_instances gw' = gw_instances gw
    \<and> (if n = 19 then cb_state (the_breaker gw' s) = OPEN
         \<and> cb_opened_at (the_breaker gw' s) = Some (t_opened (env 1))
         \<and> cb_config (the_breaker gw' s) = default_breaker_config
       else all_failed (the_breaker gw' s) (Suc n))"
proof -
  let ?gw = "gw\<lparr>gw_breakers := snd (breaker_for (gw_breakers gw) s)\<rparr>"
  have same: "the_breaker ?gw s = the_breaker gw s"
    by (simp add: the_breaker_def breakers.ensure_idem)
  obtain b' where b': "record_failure (t_outcome (env 1)) (t_opened (env 1)) (the_breaker gw s) = (b', Inr ())"
    and post: "if n = 19 then cb_state b' = OPEN \<and> cb_opened_at b' = Some (t_opened (env 1))
           \<and> cb_config b' = default_breaker_config else all_failed b' (Suc n)"
    by (rule failure_counted [OF assms(1,2)])
  have before: "before_request (t_admit (env 1)) (the_breaker gw s) = (the_breaker gw s, Inr ())"
    using assms(1) by (simp add: before_request_def all_failed_def)
  let ?l = "case dict_get (rq_backends req) s of None \<Rightarrow> [] | Some l \<Rightarrow> l"
  have "filter (\<lambda>r. is_routable (gw_instances gw r)) ?l = []"
    using cold by (cases "dict_get (rq_backends req) s") (auto simp: filter_empty_conv)
  then have none: "select (gw_instances gw) sh sel s ?l = (sel, Inl (NoHealthyBackendError s))" for sh sel
    by (simp add: select_def)
  have op: "open_attempt items req route dl (env 1) ?gw =
      (put_breaker s b' (put_breaker s (the_breaker gw s) ?gw\<lparr>gw_selector := gw_selector gw\<rparr>),
       Answer_With (no_backend_result (rq_request_id req)))" for dl
    using before none b' same s
    by (simp add: open_attempt_def Let_def with_breaker_def failure_then_def put_breaker_fields)
  from d op s assms(4) have "gw' = put_breaker s b' (put_breaker s (the_breaker gw s) ?gw\<lparr>gw_selector := gw_selector gw\<rparr>)"
    "qs = []" "r = Inr (no_backend_result (rq_request_id req))"
    by (simp_all add: dispatch_def Let_def dispatch_loop.simps [of _ _ _ _ _ 0])
  with post show ?thesis by simp
qed

lemma cold_dispatches:
  assumes "all_failed (the_breaker gw s) n" and "n + length ds \<le> 20" and "ds \<noteq> []"
    and "\<forall>(req, route, start, env) \<in> set ds. rt_backend_service_id route = s
      \<and> 0 < max_attempts (rq_retry_policy req) \<and> rq_backends req = backends"
    and "\<forall>l. dict_get backends s = Some l \<longrightarrow> (\<forall>r \<in> set l. \<not> is_routable (gw_instances gw r))"
    and "dispatch_all items ds gw = (gw', rs)"
  shows "rs = map (\<lambda>d. ([], Inr (no_backend_result (rq_request_id (fst d))))) ds
    \<and> (if n + length ds = 20
       then cb_state (the_breaker gw' s) = OPEN
         \<and> cb_opened_at (the_breaker gw' s) = Some (t_opened (snd (snd (snd (last ds))) 1))
         \<and> cb_config (the_breaker gw' s) = default_breaker_config
       else all_failed (the_breaker gw' s) (n + length ds))"
  using assms
proof (induction ds arbitrary: gw n rs)
  case (Cons d ds)
  obtain req route start env where d: "d = (req, route, start, env)" by (cases d) auto
  obtain gw1 qs r where di: "dispatch items req route start env gw = (gw1, qs, r)"
    by (cases "dispatch items req route start env gw")
  obtain rs' where rest: "dispatch_all items ds gw1 = (gw', rs')" "rs = (qs, r) # rs'"
    using Cons.prems(6) d di by (auto split: prod.splits)
  have "n < 20" using Cons.prems(2) by simp
  have first: "qs = []" "r = Inr (no_backend_result (rq_request_id req))" "gw_instances gw1 = gw_instances gw"
    and then_b: "if n = 19 then cb_state (the_breaker gw1 s) = OPEN
         \<and> cb_opened_at (the_breaker gw1 s) = Some (t_opened (env 1))
         \<and> cb_config (the_breaker gw1 s) = default_breaker_config
       else all_failed (the_breaker gw1 s) (Suc n)"
    using cold_dispatch [OF Cons.prems(1) \<open>n < 20\<close> _ _ _ di] Cons.prems(4,5) d by auto
  show ?case
  proof (cases "ds = []")
    case True
    then have "gw1 = gw'" "rs' = []" using rest(1) by simp_all
    with True d first then_b rest(2) show ?thesis by (cases "n = 19") simp_all
  next
    case False
    then have "n \<noteq> 19" using Cons.prems(2) by (cases ds) auto
    with then_b have "all_failed (the_breaker gw1 s) (Suc n)" by simp
    from Cons.IH [OF this _ False _ _ rest(1)] Cons.prems(2,4,5) first(3) False d first rest(2)
    show ?thesis by (cases "n + length ds = 19") simp_all
  qed
qed simp

text \<open>C16.
  A cold start opens the circuits of healthy services. Right after the gateway has started nothing
  has been probed, so the first requests for a service are answered 503 without being sent, and
  each of them is recorded as a failure of the service. Twenty of them open its circuit, and from
  then on, for the ten seconds the circuit stays open, every request for the service is answered
  503, whatever the health checks have found out in the meantime.\<close>

theorem cold_start_opens_circuit:
  assumes "startup cfg doc db st = Inr a" and "length ds = 20"
    and "\<forall>(req, route, start, env) \<in> set ds. rt_backend_service_id route = s
      \<and> 0 < max_attempts (rq_retry_policy req) \<and> rq_backends req = app_backends a"
    and "dispatch_all items ds (app_gateway a) = (gw', rs)"
  shows "rs = map (\<lambda>d. ([], Inr (no_backend_result (rq_request_id (fst d))))) ds
    \<and> (\<forall>gw req route start env gw2 qs r.
         the_breaker gw s = the_breaker gw' s \<and> rt_backend_service_id route = s
       \<and> 0 < max_attempts (rq_retry_policy req)
       \<and> t_admit (env 1) < t_opened (snd (snd (snd (last ds))) 1) + 10
       \<and> dispatch items req route start env (gw :: 'db gateway) = (gw2, qs, r) \<longrightarrow>
         qs = [] \<and> r = Inr (circuit_open_result (rq_request_id req)))"
proof -
  have breakers: "gw_breakers (app_gateway a) = []" by (rule startup_Inr [OF assms(1)])
  then have "the_breaker (app_gateway a) s = new_breaker s default_breaker_config"
    by (simp add: the_breaker_def breaker_for_def Let_def)
  then have new: "all_failed (the_breaker (app_gateway a) s) 0"
    by (simp add: all_failed_def new_breaker_def failures_in_def)
  have cold: "\<forall>l. dict_get (app_backends a) s = Some l \<longrightarrow>
      (\<forall>r \<in> set l. \<not> is_routable (gw_instances (app_gateway a) r))"
    using startup_unknown [OF assms(1)] by (auto simp: is_routable_def)
  have "ds \<noteq> []" using assms(2) by auto
  from cold_dispatches [OF new _ this assms(3) cold assms(4)] assms(2)
  have rs: "rs = map (\<lambda>d. ([], Inr (no_backend_result (rq_request_id (fst d))))) ds"
    and b: "cb_state (the_breaker gw' s) = OPEN"
      "cb_opened_at (the_breaker gw' s) = Some (t_opened (snd (snd (snd (last ds))) 1))"
      "open_duration_seconds (cb_config (the_breaker gw' s)) = 10"
    by (simp_all add: default_breaker_config_def)
  have "qs = [] \<and> r = Inr (circuit_open_result (rq_request_id req))"
    if "the_breaker gw s = the_breaker gw' s" "rt_backend_service_id route = s"
      "0 < max_attempts (rq_retry_policy req)"
      "t_admit (env 1) < t_opened (snd (snd (snd (last ds))) 1) + 10"
      "dispatch items req route start env gw = (gw2, qs, r)"
    for gw gw2 :: "'db gateway" and req route start env qs r
    using open_circuit_dispatch [OF _ _ _ that(2) [symmetric] that(3,5)] b that(1,4) by simp
  with rs show ?thesis by blast
qed

definition ex_cold :: "(request \<times> RouteDefinition \<times> seconds \<times> (nat \<Rightarrow> mem_db attempt_env)) list" where
  "ex_cold = replicate 20 (ex_request\<lparr>rq_backends := app_backends ex_app\<rparr>, ex_route, 20,
     \<lambda>n. ex_attempt (Inl (HttpxError ConnectError)) 20)"

theorem cold_start_opens_circuit_witness:
  "snd (dispatch_all lower_items ex_cold (app_gateway ex_app)) = replicate 20 ([], Inr (no_backend_result ''q1''))"
proof -
  obtain gw' rs where run: "dispatch_all lower_items ex_cold (app_gateway ex_app) = (gw', rs)"
    by (cases "dispatch_all lower_items ex_cold (app_gateway ex_app)")
  have h: "length ex_cold = 20"
    "\<forall>(req, route, start, env) \<in> set ex_cold. rt_backend_service_id route = ''users''
      \<and> 0 < max_attempts (rq_retry_policy req) \<and> rq_backends req = app_backends ex_app"
    by (simp_all add: ex_cold_def ex_request_def ex_route_def default_retry_policy_def)
  have "rs = map (\<lambda>d. ([], Inr (no_backend_result (rq_request_id (fst d))))) ex_cold"
    by (rule cold_start_opens_circuit [OF ex_app_startup h run, THEN conjunct1])
  also have "\<dots> = replicate 20 ([], Inr (no_backend_result ''q1''))"
    by (simp add: ex_cold_def ex_request_def)
  finally show ?thesis by (simp add: run)
qed

section \<open>Warming up\<close>

lemma startup_refs_distinct:
  assumes "startup cfg doc db st = Inr a"
  shows "distinct (concat (dict_values (app_backends a)))"
proof -
  obtain backends st' where "place backends 0 st = (st', app_backends a)" by (rule startup_Inr [OF assms])
  from place_refs [OF this] show ?thesis by auto
qed

text \<open>C30.
  How long the cold start lasts. If every probe is answered and the instances have different ids,
  no instance is routable before as many rounds of health checks as the success threshold asks for,
  and every instance is from then on: with the default settings, after the second round and not
  after the first.\<close>

theorem warm_up:
  assumes "startup cfg doc db st = Inr a" and "R = concat (dict_values (app_backends a))" and "r \<in> set R"
    and "inj_on (\<lambda>r. bi_id (gw_instances (app_gateway a) r)) (set R)"
    and "1 \<le> cfg_health_check_success_threshold cfg"
    and "\<forall>x \<in> set rounds. undisturbed x \<and> (\<forall>i. \<exists>c. result (fst x i) = Answer c \<and> c < 500)"
    and "run_rounds rounds (app_health_checker a, gw_instances (app_gateway a)) = (hc', st')"
  shows "is_routable (st' r) \<longleftrightarrow> cfg_health_check_success_threshold cfg \<le> int (length rounds)"
proof -
  let ?st = "gw_instances (app_gateway a)"
  let ?h = "concat (map (\<lambda>x. round_log (fst x) 0 R) rounds)"
  have hc: "app_health_checker a = new_health_checker (app_backends a) (cfg_health_check_interval_s cfg)
      (cfg_health_check_timeout_s cfg) (cfg_health_check_failure_threshold cfg)
      (cfg_health_check_success_threshold cfg) ''/health''"
    by (rule startup_Inr [OF assms(1)])
  obtain backends routes st1 where load: "load_routes_and_backends doc = Inr (routes, backends)"
    and pl: "place backends 0 st = (st1, app_backends a)" and st1: "?st = st1" by (rule startup_Inr [OF assms(1)])
  have unknown: "bi_status (?st x) = UNKNOWN" if x: "x \<in> set R" for x
  proof -
    obtain l where l: "l \<in> set (dict_values (app_backends a))" "x \<in> set l" using x unfolding assms(2) by auto
    then obtain i where i: "i < length (app_backends a)" "snd (app_backends a ! i) = l"
      by (auto simp: dict_values_def in_set_conv_nth)
    have same: "map fst (app_backends a) = map fst backends"
      and each: "\<And>j. j < length backends \<Longrightarrow> map st1 (snd (app_backends a ! j)) = snd (backends ! j)"
      using place_instances [OF pl] by auto
    have len: "i < length backends" using i(1) map_eq_imp_length_eq [OF same] by simp
    then have "st1 x \<in> set (snd (backends ! i))" using each [OF len] i(2) l(2) by (metis imageI list.set_map)
    moreover have "backends ! i \<in> set backends" using len by simp
    ultimately show ?thesis using load_unknown [OF load] st1 by (cases "backends ! i") fastforce
  qed
  have quiet: "\<forall>x \<in> set rounds. undisturbed x" using assms(6) by blast
  have up: "\<forall>i. \<exists>c. result (fst x i) = Answer c \<and> c < 500" if "x \<in> set rounds" for x using assms(6) that by blast
  have "bi_status (st' r) = verdict (cfg_health_check_failure_threshold cfg) (cfg_health_check_success_threshold cfg)
      (bi_status (?st r)) (rev (results_of r ?h))"
    by (rule rounds_verdict [OF hc assms(2,4,3) _ quiet assms(7) refl, THEN conjunct1]) (simp add: unknown)
  moreover have "map (\<lambda>x. round_log (fst x) 0 R) rounds = map (\<lambda>x. map (\<lambda>r. (r, True)) R) rounds"
    using round_log_all_up [OF up] by (intro map_cong) auto
  then have "results_of r ?h = replicate (length rounds) True"
    using results_of_map [OF startup_refs_distinct [OF assms(1)], folded assms(2)] assms(3)
    by (simp add: results_of_concat comp_def map_replicate_const)
  ultimately show ?thesis
    using verdict_replicate [OF assms(5)] unknown [OF assms(3)] by (simp add: is_routable_def)
qed

definition all_up :: "(nat \<Rightarrow> probe_env) \<times> (instance_store \<Rightarrow> instance_store)" where
  "all_up = (\<lambda>i. \<lparr> result = Answer 200, meanwhile = id \<rparr>, id)"

theorem warm_up_witness:
  "is_routable (snd (run_rounds [all_up, all_up] (app_health_checker ex_app, gw_instances (app_gateway ex_app))) 1)
   \<and> \<not> is_routable (snd (run_rounds [all_up] (app_health_checker ex_app, gw_instances (app_gateway ex_app))) 1)"
proof -
  let ?s = "(app_health_checker ex_app, gw_instances (app_gateway ex_app))"
  let ?R = "concat (dict_values (app_backends ex_app))"
  have R: "?R = [0, 1]" by (simp add: ex_app_backends dict_values_def)
  have ids: "bi_id (gw_instances (app_gateway ex_app) 0) = ''u1''" "bi_id (gw_instances (app_gateway ex_app) 1) = ''u2''"
    by (code_simp, code_simp)
  have inj: "inj_on (\<lambda>r. bi_id (gw_instances (app_gateway ex_app) r)) (set ?R)"
    using ids by (auto simp: R inj_on_def)
  have r: "1 \<in> set ?R" and th: "1 \<le> cfg_health_check_success_threshold settings" "cfg_health_check_success_threshold settings = 2"
    by (simp_all add: R settings_def)
  have up: "\<forall>x \<in> set rs. undisturbed x \<and> (\<forall>i. \<exists>c. result (fst x i) = Answer c \<and> c < 500)"
    if "set rs \<subseteq> {all_up}" for rs using that by (auto simp: all_up_def undisturbed_def)
  have "is_routable (snd (run_rounds rs ?s) 1) \<longleftrightarrow> 2 \<le> int (length rs)" if "set rs \<subseteq> {all_up}" for rs
    using warm_up [OF ex_app_startup refl r inj th(1) up [OF that] prod.collapse [symmetric]] th(2) by simp
  from this [of "[all_up, all_up]"] this [of "[all_up]"] show ?thesis by simp
qed

end
